(* ===== verification/Prelude.thy ===== *)
theory Prelude
  imports Main "HOL-Library.Sublist"
begin

text \<open>
  What every component of the model shares: the ways a C computation can stop other than by
  returning (\<open>abort\<close>), the result type that carries them and its sequencing operator, C's
  conversion to a 32-bit \<open>int\<close>, and list lemmas that the string and buffer proofs use.
\<close>

section \<open>Results of C computations\<close>

text \<open>
  A C function either returns or stops the process. The abnormal ends that the sources of this
  program can reach are kept apart: following a null pointer, reading or writing outside an
  object, reading a local variable that was never assigned, touching freed memory, a loop that
  repeats one state for ever, a division by zero, and a call of \<open>exit\<close> with its status.
\<close>

datatype abort =
    Null_Deref
  | Over_Read
  | Over_Write
  | Uninit_Read
  | Use_After_Free
  | Diverge
  | Div_By_Zero
  | Exit_With int

type_synonym 'a result = "abort + 'a"

fun bindR :: "'a result \<Rightarrow> ('a \<Rightarrow> 'b result) \<Rightarrow> 'b result" where
  "bindR (Inl e) f = Inl e"
| "bindR (Inr x) f = f x"

named_theorems result_simps "how a sequenced computation can end"

lemma bindR_Inr_iff [result_simps]:
  "bindR r f = Inr y \<longleftrightarrow> (\<exists>x. r = Inr x \<and> f x = Inr y)"
  by (cases r) auto

lemma bindR_Inl_iff [result_simps]:
  "bindR r f = Inl e \<longleftrightarrow> r = Inl e \<or> (\<exists>x. r = Inr x \<and> f x = Inl e)"
  by (cases r) auto

lemma bindR_assoc: "bindR (bindR r f) g = bindR r (\<lambda>x. bindR (f x) g)"
  by (cases r) auto

lemma bindR_return [simp]: "bindR r Inr = r"
  by (cases r) auto

lemma bindR_cong [fundef_cong]:
  "r = r' \<Longrightarrow> (\<And>x. r' = Inr x \<Longrightarrow> f x = g x) \<Longrightarrow> bindR r f = bindR r' g"
  by (cases r') auto

definition returns :: "'a result \<Rightarrow> bool" where
  "returns r \<longleftrightarrow> (\<exists>x. r = Inr x)"

lemma returns_Inr [simp]: "returns (Inr x)"
  by (simp add: returns_def)

lemma returns_Inl [simp]: "\<not> returns (Inl e)"
  by (simp add: returns_def)

section \<open>Bytes of an object\<close>

text \<open>Reading and writing one element of an object; outside it both are faults.\<close>

definition rd :: "'a list \<Rightarrow> nat \<Rightarrow> 'a result" where
  "rd b i = (if i < length b then Inr (b ! i) else Inl Over_Read)"

definition wr :: "'a list \<Rightarrow> nat \<Rightarrow> 'a \<Rightarrow> 'a list result" where
  "wr b i x = (if i < length b then Inr (b[i := x]) else Inl Over_Write)"

lemma rd_Inr [simp]: "rd b i = Inr x \<longleftrightarrow> i < length b \<and> x = b ! i"
  by (auto simp: rd_def)

lemma wr_Inr [simp]: "wr b i x = Inr b' \<longleftrightarrow> i < length b \<and> b' = b[i := x]"
  by (auto simp: wr_def)

lemma rd_in [simp]: "i < length b \<Longrightarrow> rd b i = Inr (b ! i)"
  by simp

lemma wr_in [simp]: "i < length b \<Longrightarrow> wr b i x = Inr (b[i := x])"
  by simp

lemma rd_out: "length b \<le> i \<Longrightarrow> rd b i = Inl Over_Read"
  by (simp add: rd_def)

section \<open>The allocator\<close>

text \<open>
  \<open>malloc\<close>, \<open>calloc\<close> and \<open>realloc\<close> are the environment's: a model takes, as a
  parameter, which request sizes they grant. A negative size, converted to \<open>size_t\<close>, is larger
  than any object, so no allocator grants it.
\<close>

type_synonym allocator = "int \<Rightarrow> bool"

definition sane :: "allocator \<Rightarrow> bool" where
  "sane mem \<longleftrightarrow> (\<forall>n < 0. \<not> mem n)"

definition ample :: "allocator \<Rightarrow> bool" where
  "ample mem \<longleftrightarrow> (\<forall>n. mem n \<longleftrightarrow> 0 \<le> n)"

lemma ample_sane [simp]: "ample mem \<Longrightarrow> sane mem"
  by (simp add: ample_def sane_def)

lemma ample_grants: "ample mem \<Longrightarrow> mem n \<longleftrightarrow> 0 \<le> n"
  by (simp add: ample_def)

lemma sane_refuses: "sane mem \<Longrightarrow> n < 0 \<Longrightarrow> \<not> mem n"
  by (simp add: sane_def)

lemma ample_nonneg: "ample (\<lambda>n. 0 \<le> n)"
  by (simp add: ample_def)

section \<open>C integers\<close>

text \<open>Conversion to a signed 32-bit \<open>int\<close>: gcc keeps the value modulo \<open>2 ^ 32\<close>.\<close>

definition c_int :: "int \<Rightarrow> int" where
  "c_int x = (x + 2147483648) mod 4294967296 - 2147483648"

definition in_int :: "int \<Rightarrow> bool" where
  "in_int x \<longleftrightarrow> -2147483648 \<le> x \<and> x \<le> 2147483647"

lemma c_int_id [simp]: "in_int x \<Longrightarrow> c_int x = x"
  by (simp add: c_int_def in_int_def)

lemma c_int_range: "in_int (c_int x)"
proof -
  have "0 \<le> (x + 2147483648) mod 4294967296" "(x + 2147483648) mod 4294967296 < 4294967296"
    by simp_all
  then show ?thesis
    unfolding c_int_def in_int_def by linarith
qed

section \<open>Lists\<close>

named_theorems list_simps "generic rewriting on lists and their positions"

lemma takeWhile_id [list_simps]: "(\<And>x. x \<in> set xs \<Longrightarrow> P x) \<Longrightarrow> takeWhile P xs = xs"
  by (simp add: takeWhile_eq_all_conv)

lemma prefix_drop_append [list_simps]:
  "j \<le> length xs \<Longrightarrow> prefix n (drop j (xs @ ys)) \<longleftrightarrow> prefix n (drop j xs @ ys)"
  by simp

lemma prefix_take_iff: "prefix n s \<longleftrightarrow> length n \<le> length s \<and> take (length n) s = n"
  by (auto simp: prefix_def dest: arg_cong [where f = length])
     (metis append_take_drop_id)

lemma prefix_nth: "prefix n s \<Longrightarrow> k < length n \<Longrightarrow> s ! k = n ! k"
  by (auto simp: prefix_def nth_append)

lemma prefix_drop_nth:
  assumes "prefix n (drop i s)" and "k < length n"
  shows "i + k < length s" and "s ! (i + k) = n ! k"
proof -
  from assms obtain r where r: "drop i s = n @ r"
    by (auto simp: prefix_def)
  then have "length (drop i s) = length n + length r"
    by simp
  with assms(2) show len: "i + k < length s"
    by simp
  from assms have "drop i s ! k = n ! k"
    by (rule prefix_nth)
  with len show "s ! (i + k) = n ! k"
    by simp
qed

end
