(* ===== verification/CString.thy ===== *)
theory CString
  imports Prelude "HOL-Library.Char_ord"
begin

text \<open>
  The parts of the C library's string functions that the sources call, on lists of bytes. A
  buffer is the list of its bytes; the C string it holds ends before its first NUL. A pointer
  into a string is the offset from the string's start, so \<open>strstr\<close>, \<open>strchr\<close> and
  \<open>strrchr\<close> return offsets and \<open>None\<close> stands for the null pointer.
\<close>

type_synonym buffer = "char list"

abbreviation NUL :: char where "NUL \<equiv> CHR 0x00"
abbreviation CR :: char where "CR \<equiv> CHR 0x0D"
abbreviation LF :: char where "LF \<equiv> CHR 0x0A"
abbreviation SP :: char where "SP \<equiv> CHR 0x20"

definition EOL :: string where "EOL = [CR, LF]"

section \<open>The string in a buffer\<close>

definition cstr :: "buffer \<Rightarrow> string" where
  "cstr b = takeWhile (\<lambda>c. c \<noteq> NUL) b"

text \<open>Scanning a buffer that holds no NUL runs past its end.\<close>

definition c_string :: "buffer \<Rightarrow> string result" where
  "c_string b = (if NUL \<in> set b then Inr (cstr b) else Inl Over_Read)"

lemma cstr_no_NUL [simp]: "NUL \<notin> set (cstr b)"
  by (induction b) (auto simp: cstr_def)

lemma cstr_Nil [simp]: "cstr [] = []"
  by (simp add: cstr_def)

lemma cstr_Cons [simp]: "cstr (c # s) = (if c = NUL then [] else c # cstr s)"
  by (simp add: cstr_def)

lemma cstr_append [simp]: "NUL \<notin> set s \<Longrightarrow> cstr (s @ r) = s @ cstr r"
  by (induction s) (auto simp: cstr_def)

lemma cstr_id [simp]: "NUL \<notin> set b \<Longrightarrow> cstr b = b"
  by (induction b) (auto simp: cstr_def)

lemma cstr_append_NUL: "NUL \<notin> set s \<Longrightarrow> cstr (s @ NUL # r) = s"
  by simp

lemma length_cstr_le: "length (cstr b) \<le> length b"
  by (simp add: cstr_def length_takeWhile_le)

lemma cstr_idem [simp]: "cstr (cstr b) = cstr b"
  by simp

section \<open>Searching\<close>

fun find_sub :: "string \<Rightarrow> string \<Rightarrow> nat option" where
  "find_sub n [] = (if n = [] then Some 0 else None)"
| "find_sub n (c # s) = (if prefix n (c # s) then Some 0 else map_option Suc (find_sub n s))"

definition strstr :: "string \<Rightarrow> string \<Rightarrow> nat option" where
  "strstr haystack needle = find_sub needle haystack"

fun strchr :: "string \<Rightarrow> char \<Rightarrow> nat option" where
  "strchr [] c = None"
| "strchr (x # xs) c = (if x = c then Some 0 else map_option Suc (strchr xs c))"

definition strrchr :: "string \<Rightarrow> char \<Rightarrow> nat option" where
  "strrchr s c = map_option (\<lambda>i. length s - 1 - i) (strchr (rev s) c)"

lemma find_sub_Some:
  "find_sub n s = Some i \<Longrightarrow>
     i + length n \<le> length s \<and> prefix n (drop i s) \<and> (\<forall>j < i. \<not> prefix n (drop j s))"
proof (induction s arbitrary: i)
  case Nil
  then show ?case by (auto split: if_splits)
next
  case (Cons c s)
  show ?case
  proof (cases "prefix n (c # s)")
    case True
    with Cons.prems show ?thesis
      by (auto dest: prefix_length_le)
  next
    case False
    with Cons.prems obtain k where k: "find_sub n s = Some k" "i = Suc k"
      by auto
    with Cons.IH [OF k(1)] False show ?thesis
      by (auto simp: less_Suc_eq_0_disj)
  qed
qed

lemma find_sub_None: "find_sub n s = None \<longleftrightarrow> (\<forall>j \<le> length s. \<not> prefix n (drop j s))"
proof (induction s)
  case Nil
  then show ?case by auto
next
  case (Cons c s)
  have "(\<forall>j \<le> length (c # s). \<not> prefix n (drop j (c # s))) \<longleftrightarrow>
      \<not> prefix n (c # s) \<and> (\<forall>j \<le> length s. \<not> prefix n (drop j s))"
    (is "?all \<longleftrightarrow> ?split")
  proof
    assume ?all
    then show ?split
      by (metis Suc_le_mono drop0 drop_Suc_Cons le0 length_Cons)
  next
    assume ?split
    then show ?all
      by (metis Suc_le_mono drop0 drop_Suc_Cons length_Cons not0_implies_Suc)
  qed
  with Cons show ?case by simp
qed

lemma find_sub_eq_SomeI:
  assumes "prefix n (drop i s)" and "i \<le> length s" and "\<And>j. j < i \<Longrightarrow> \<not> prefix n (drop j s)"
  shows "find_sub n s = Some i"
proof (cases "find_sub n s")
  case None
  with assms show ?thesis by (simp add: find_sub_None)
next
  case (Some k)
  from find_sub_Some [OF this] assms show ?thesis
    using Some by (metis linorder_neqE_nat)
qed

text \<open>
  The first occurrence after a part that holds none: an earlier one would start inside
  \<open>pre\<close> and end before the last byte of the needle at its place.
\<close>

lemma find_sub_append:
  assumes none: "find_sub n (pre @ butlast n) = None" and ne: "n \<noteq> []"
  shows "find_sub n (pre @ n @ post) = Some (length pre)"
proof (rule find_sub_eq_SomeI)
  fix j assume j: "j < length pre"
  show "\<not> prefix n (drop j (pre @ n @ post))"
  proof
    assume p: "prefix n (drop j (pre @ n @ post))"
    have split: "drop j (pre @ n @ post) = drop j (pre @ butlast n) @ last n # post"
      using j ne by (simp add: append_butlast_last_id [symmetric] del: append_butlast_last_id)
    have "length n \<le> length (drop j (pre @ butlast n))"
      using j ne by (cases n) auto
    with p have "prefix n (drop j (pre @ butlast n))"
      unfolding split by (metis append_Nil2 append_eq_append_conv_if prefixE prefix_def
          prefix_length_prefix prefix_append)
    moreover have "j \<le> length (pre @ butlast n)"
      using j by simp
    ultimately show False
      using none by (simp add: find_sub_None)
  qed
qed auto

lemma strchr_Some: "strchr s c = Some i \<Longrightarrow> i < length s \<and> s ! i = c \<and> (\<forall>j < i. s ! j \<noteq> c)"
proof (induction s arbitrary: i)
  case Nil
  then show ?case by simp
next
  case (Cons x s)
  then show ?case
    by (fastforce simp: less_Suc_eq_0_disj split: if_splits)
qed

lemma strchr_None [simp]: "strchr s c = None \<longleftrightarrow> c \<notin> set s"
  by (induction s) auto

lemma strchr_append [simp]: "c \<notin> set pre \<Longrightarrow> strchr (pre @ c # post) c = Some (length pre)"
  by (induction pre) auto

lemma strrchr_None [simp]: "strrchr s c = None \<longleftrightarrow> c \<notin> set s"
  by (simp add: strrchr_def)

lemma strrchr_notin [simp]: "c \<notin> set s \<Longrightarrow> strrchr s c = None"
  by simp

lemma strchr_notin [simp]: "c \<notin> set s \<Longrightarrow> strchr s c = None"
  by simp

lemma strrchr_append [simp]:
  "c \<notin> set post \<Longrightarrow> strrchr (pre @ c # post) c = Some (length pre)"
  by (simp add: strrchr_def)

lemma strrchr_Some:
  assumes "strrchr s c = Some i"
  shows "i < length s" and "s ! i = c" and "c \<notin> set (drop (Suc i) s)"
proof -
  from assms have "c \<in> set s"
    by (metis not_Some_eq strrchr_None)
  then obtain pre post where s: "s = pre @ c # post" "c \<notin> set post"
    by (meson split_list_last)
  then have "i = length pre"
    using assms by simp
  with s show "i < length s" "s ! i = c" "c \<notin> set (drop (Suc i) s)"
    by auto
qed

section \<open>Character classes\<close>

definition isdigit :: "char \<Rightarrow> bool" where
  "isdigit c \<longleftrightarrow> CHR ''0'' \<le> c \<and> c \<le> CHR ''9''"

definition isxdigit :: "char \<Rightarrow> bool" where
  "isxdigit c \<longleftrightarrow> isdigit c \<or> (CHR ''a'' \<le> c \<and> c \<le> CHR ''f'') \<or> (CHR ''A'' \<le> c \<and> c \<le> CHR ''F'')"

definition isspace :: "char \<Rightarrow> bool" where
  "isspace c \<longleftrightarrow> c = SP \<or> (CHR 0x09 \<le> c \<and> c \<le> CHR 0x0D)"

definition toupper :: "char \<Rightarrow> char" where
  "toupper c = (if CHR ''a'' \<le> c \<and> c \<le> CHR ''z'' then char_of (of_char c - 32 :: nat) else c)"

definition strcasecmp_eq :: "string \<Rightarrow> string \<Rightarrow> bool" where
  "strcasecmp_eq a b \<longleftrightarrow> map toupper a = map toupper b"

section \<open>Numbers\<close>

text \<open>
  \<open>atoi\<close> as glibc computes it: skip white space, an optional sign, decimal digits clamped to
  the range of \<open>long\<close>, and the conversion of that \<open>long\<close> to \<open>int\<close>.
\<close>

fun digits_val :: "int \<Rightarrow> string \<Rightarrow> int" where
  "digits_val acc [] = acc"
| "digits_val acc (c # cs) =
     (if isdigit c then digits_val (acc * 10 + (int (of_char c) - 48)) cs else acc)"

definition strtol_val :: "string \<Rightarrow> int" where
  "strtol_val s =
     (case dropWhile isspace s of
        [] \<Rightarrow> 0
      | c # cs \<Rightarrow>
          if c = CHR ''-'' then - digits_val 0 cs
          else if c = CHR ''+'' then digits_val 0 cs
          else digits_val 0 (c # cs))"

definition clamp_long :: "int \<Rightarrow> int" where
  "clamp_long v = max (- 9223372036854775808) (min 9223372036854775807 v)"

definition atoi :: "string \<Rightarrow> int" where
  "atoi s = c_int (clamp_long (strtol_val s))"

text \<open>\<open>printf\<close>'s \<open>%d\<close> and \<open>%ld\<close>.\<close>

definition digit_char :: "nat \<Rightarrow> char" where
  "digit_char d = ''0123456789'' ! d"

fun dec_nat :: "nat \<Rightarrow> string" where
  "dec_nat n = (if n < 10 then [digit_char n] else dec_nat (n div 10) @ [digit_char (n mod 10)])"

declare dec_nat.simps [simp del]

definition fmt_d :: "int \<Rightarrow> string" where
  "fmt_d i = (if i < 0 then CHR ''-'' # dec_nat (nat (- i)) else dec_nat (nat i))"

text \<open>What \<open>snprintf (buf, n, ...)\<close> leaves in \<open>buf\<close> before the NUL it always writes.\<close>

definition snprintf :: "nat \<Rightarrow> string \<Rightarrow> string" where
  "snprintf n s = take (n - 1) s"

lemma snprintf_fits [simp]: "length s < n \<Longrightarrow> snprintf n s = s"
  by (simp add: snprintf_def)

lemma length_snprintf: "0 < n \<Longrightarrow> length (snprintf n s) < n"
  by (simp add: snprintf_def)

lemma digit_cases: "d < 10 \<Longrightarrow> d \<in> {0, 1, 2, 3, 4, 5, 6, 7, 8, 9 :: nat}"
  by auto

lemma isdigit_digit_char [simp]: "d < 10 \<Longrightarrow> isdigit (digit_char d)"
  by (drule digit_cases) (auto simp: isdigit_def digit_char_def)

lemma of_char_digit_char [simp]: "d < 10 \<Longrightarrow> of_char (digit_char d) = 48 + d"
  by (drule digit_cases) (auto simp: digit_char_def)

lemma isdigit_not: "\<not> isdigit SP" "\<not> isdigit CR" "\<not> isdigit LF" "\<not> isdigit NUL"
    "\<not> isdigit (CHR ''-'')" "\<not> isdigit (CHR ''+'')" "\<not> isdigit (CHR '':'')"
  by (simp_all add: isdigit_def)

lemma isdigit_not_space: "isdigit c \<Longrightarrow> \<not> isspace c"
  by (auto simp: isdigit_def isspace_def less_eq_char_def)

lemma dec_nat_digits: "c \<in> set (dec_nat n) \<Longrightarrow> isdigit c"
proof (induction n rule: dec_nat.induct)
  case (1 n)
  then show ?case
    by (subst (asm) dec_nat.simps) (auto split: if_splits)
qed

lemma dec_nat_not_Nil [simp]: "dec_nat n \<noteq> []"
  by (subst dec_nat.simps) simp

lemma digits_val_append:
  "(\<And>c. c \<in> set ds \<Longrightarrow> isdigit c) \<Longrightarrow>
     digits_val acc (ds @ rest) = digits_val (digits_val acc ds) rest"
  by (induction ds arbitrary: acc) auto

lemma dec_nat_length: "n < 10 ^ Suc k \<Longrightarrow> length (dec_nat n) \<le> Suc k"
proof (induction k arbitrary: n)
  case 0
  then show ?case
    by (simp add: dec_nat.simps)
next
  case (Suc k)
  show ?case
  proof (cases "n < 10")
    case False
    have "n div 10 < 10 ^ Suc k"
      using Suc.prems by (simp add: less_mult_imp_div_less)
    then show ?thesis
      using Suc.IH False by (simp add: dec_nat.simps [of n])
  qed (simp add: dec_nat.simps)
qed

lemma digits_val_dec_nat: "digits_val 0 (dec_nat n) = int n"
proof (induction n rule: dec_nat.induct)
  case (1 n)
  show ?case
  proof (cases "n < 10")
    case True
    then show ?thesis by (subst dec_nat.simps) simp
  next
    case False
    then have "digits_val 0 (dec_nat n) = digits_val (int (n div 10)) [digit_char (n mod 10)]"
      using 1 by (subst dec_nat.simps) (simp add: digits_val_append dec_nat_digits)
    also have "\<dots> = int n"
      by (simp add: zdiv_int zmod_int)
    finally show ?thesis .
  qed
qed

lemma digits_val_stop: "rest = [] \<or> \<not> isdigit (hd rest) \<Longrightarrow> digits_val acc rest = acc"
  by (cases rest) auto

lemma strtol_dec_nat:
  assumes "rest = [] \<or> \<not> isdigit (hd rest)"
  shows "strtol_val (dec_nat n @ rest) = int n"
proof -
  obtain c cs where d: "dec_nat n = c # cs"
    by (meson dec_nat_not_Nil neq_Nil_conv)
  then have c: "isdigit c"
    by (metis dec_nat_digits list.set_intros(1))
  then have "c \<noteq> CHR ''-''" "c \<noteq> CHR ''+''" "\<not> isspace c"
    by (auto simp: isdigit_not isdigit_not_space)
  then have "strtol_val (dec_nat n @ rest) = digits_val 0 (dec_nat n @ rest)"
    by (simp add: strtol_val_def d)
  also have "\<dots> = int n"
    using assms by (simp add: digits_val_append dec_nat_digits digits_val_dec_nat digits_val_stop)
  finally show ?thesis .
qed

lemma atoi_fmt_d:
  assumes "in_int i" and "rest = [] \<or> \<not> isdigit (hd rest)"
  shows "atoi (fmt_d i @ rest) = i"
proof -
  have "strtol_val (fmt_d i @ rest) = i"
  proof (cases "i < 0")
    case True
    then have "strtol_val (fmt_d i @ rest) = - digits_val 0 (dec_nat (nat (- i)) @ rest)"
      by (simp add: fmt_d_def strtol_val_def isspace_def less_eq_char_def)
    also have "\<dots> = i"
      using True assms(2)
      by (simp add: digits_val_append dec_nat_digits digits_val_dec_nat digits_val_stop)
    finally show ?thesis .
  next
    case False
    then show ?thesis
      using assms(2) by (simp add: fmt_d_def strtol_dec_nat)
  qed
  moreover have "clamp_long i = i"
    using assms(1) by (simp add: clamp_long_def in_int_def)
  ultimately show ?thesis
    using assms(1) by (simp add: atoi_def)
qed

section \<open>Line ends and printed numbers\<close>

lemma find_sub_None_notin: "c \<in> set n \<Longrightarrow> c \<notin> set s \<Longrightarrow> find_sub n s = None"
  by (auto simp: find_sub_None prefix_def) (metis UnCI in_set_dropD set_append)

lemma strstr_EOL: "LF \<notin> set pre \<Longrightarrow> strstr (pre @ EOL @ post) EOL = Some (length pre)"
  unfolding strstr_def
  by (rule find_sub_append) (auto simp: EOL_def intro: find_sub_None_notin [of LF])

lemma strstr_EOL_CR:
  assumes "CR \<notin> set pre"
  shows "strstr (pre @ EOL @ post) EOL = Some (length pre)"
  unfolding strstr_def
proof (rule find_sub_eq_SomeI)
  fix j assume j: "j < length pre"
  show "\<not> prefix EOL (drop j (pre @ EOL @ post))"
  proof
    assume "prefix EOL (drop j (pre @ EOL @ post))"
    then have "(pre @ EOL @ post) ! (j + 0) = EOL ! 0"
      by (rule prefix_drop_nth) (simp add: EOL_def)
    then have "pre ! j = CR"
      using j by (simp add: nth_append EOL_def)
    then show False
      using assms j nth_mem by metis
  qed
qed simp_all

lemma fmt_d_set: "c \<in> set (fmt_d i) \<Longrightarrow> isdigit c \<or> c = CHR ''-''"
  by (auto simp: fmt_d_def dest: dec_nat_digits split: if_splits)

lemma fmt_d_notin: "\<not> isdigit c \<Longrightarrow> c \<noteq> CHR ''-'' \<Longrightarrow> c \<notin> set (fmt_d i)"
  using fmt_d_set by blast

lemma fmt_d_not_Nil [simp]: "fmt_d i \<noteq> []"
  by (simp add: fmt_d_def)

section \<open>atoi on a buffer\<close>

text \<open>
  \<open>atoi\<close> reads its argument up to the first byte that cannot belong to the number. In a
  buffer without a NUL that byte may be missing, and then it reads past the end.
\<close>

definition scan_rest :: "buffer \<Rightarrow> buffer" where
  "scan_rest b = dropWhile isdigit
     (case dropWhile isspace b of
        [] \<Rightarrow> []
      | c # cs \<Rightarrow> if c = CHR ''-'' \<or> c = CHR ''+'' then cs else c # cs)"

definition c_atoi :: "buffer \<Rightarrow> int result" where
  "c_atoi b = (if scan_rest b = [] then Inl Over_Read else Inr (atoi b))"

lemma isspace_NUL [simp]: "\<not> isspace NUL"
  by (simp add: isspace_def)

lemma NUL_dropWhile: "\<not> P NUL \<Longrightarrow> NUL \<in> set b \<Longrightarrow> NUL \<in> set (dropWhile P b)"
  by (induction b) auto

lemma c_atoi_NUL:
  assumes "NUL \<in> set b"
  shows "c_atoi b = Inr (atoi b)"
proof -
  obtain c cs where d: "dropWhile isspace b = c # cs" and n: "NUL \<in> set (c # cs)"
    using NUL_dropWhile [of isspace b] assms by (cases "dropWhile isspace b") auto
  have "NUL \<in> set (if c = CHR ''-'' \<or> c = CHR ''+'' then cs else c # cs)"
    using n by auto
  then have "NUL \<in> set (scan_rest b)"
    unfolding scan_rest_def d list.case
    by (intro NUL_dropWhile) (simp_all only: isdigit_not not_False_eq_True)
  then show ?thesis
    by (auto simp: c_atoi_def)
qed

lemma digits_val_append_stop:
  "\<not> isdigit c \<Longrightarrow> digits_val acc (s @ c # r) = digits_val acc s"
  by (induction s arbitrary: acc) auto

lemma atoi_append_NUL: "atoi (s @ NUL # r) = atoi s"
proof -
  have d: "dropWhile isspace (s @ NUL # r) = dropWhile isspace s @ NUL # r"
    by (induction s) auto
  have "strtol_val (s @ NUL # r) = strtol_val s"
  proof (cases "dropWhile isspace s")
    case Nil
    then show ?thesis
      unfolding strtol_val_def d Nil by (simp add: isdigit_not)
  next
    case (Cons c cs)
    have "digits_val 0 ((c # cs) @ NUL # r) = digits_val 0 (c # cs)"
      by (rule digits_val_append_stop) (simp add: isdigit_not)
    moreover have "digits_val 0 (cs @ NUL # r) = digits_val 0 cs"
      by (rule digits_val_append_stop) (simp add: isdigit_not)
    ultimately show ?thesis
      unfolding strtol_val_def d Cons by simp
  qed
  then show ?thesis
    by (simp add: atoi_def)
qed

lemma atoi_cstr: "atoi (cstr b) = atoi b"
proof (cases "NUL \<in> set b")
  case True
  then obtain s r where "b = s @ NUL # r" "NUL \<notin> set s"
    by (meson split_list_first)
  then show ?thesis
    by (simp add: atoi_append_NUL)
qed simp

lemma fmt_d_Cons:
  obtains x xs where "fmt_d i = x # xs" and "\<forall>c \<in> set xs. isdigit c"
    and "x = CHR ''-'' \<or> isdigit x" and "\<not> isspace x"
proof (cases "i < 0")
  case True
  show ?thesis
    by (rule that [of "CHR ''-''" "dec_nat (nat (- i))"])
       (use True in \<open>auto simp: fmt_d_def isspace_def less_eq_char_def dest: dec_nat_digits\<close>)
next
  case False
  obtain x xs where d: "dec_nat (nat i) = x # xs"
    using dec_nat_not_Nil by (meson neq_Nil_conv)
  then have "\<And>c. c \<in> set (x # xs) \<Longrightarrow> isdigit c"
    by (metis dec_nat_digits)
  with d False show ?thesis
    by (intro that [of x xs]) (auto simp: fmt_d_def dest: isdigit_not_space)
qed

lemma scan_rest_fmt_d:
  assumes "\<not> isdigit c"
  shows "scan_rest (fmt_d i @ c # rest) = c # rest"
proof -
  obtain x xs where f: "fmt_d i = x # xs" and xs: "\<forall>c \<in> set xs. isdigit c"
    and x: "x = CHR ''-'' \<or> isdigit x" and sp: "\<not> isspace x"
    by (rule fmt_d_Cons [of i])
  have "dropWhile isdigit (xs @ c # rest) = c # rest"
    using xs assms by (simp add: dropWhile_append2)
  then show ?thesis
    using x sp by (auto simp: f scan_rest_def isdigit_not)
qed

lemma c_atoi_fmt_d:
  assumes "in_int i" and "\<not> isdigit c"
  shows "c_atoi (fmt_d i @ c # rest) = Inr i"
  using assms atoi_fmt_d [of i "c # rest"] by (simp add: c_atoi_def scan_rest_fmt_d)

end
