(* ===== verification/Constants.thy ===== *)
theory Constants
  imports CString
begin

text \<open>
  The constants of src/headers/constants.h and the exit statuses of src/headers/returncodes.h
  (\<open>EOL\<close> is in CString, whose line-end lemmas need it).
\<close>

definition SERVER_NAME :: string where "SERVER_NAME = ''Squinn!''"
definition SERVER_URL :: string where "SERVER_URL = ''http://www.magsolweb.net''"
definition PROTOCOL :: string where "PROTOCOL = ''HTTP/1.0''"

definition NUMACCESSES :: nat where "NUMACCESSES = 10"

definition SEGMENTSIZE :: nat where "SEGMENTSIZE = 10000"
definition NUMSEGMENTS :: int where "NUMSEGMENTS = 10"
definition SEGMENTNAME :: string where "SEGMENTNAME = ''/segmentlist3''"
definition METANODENAME :: string where "METANODENAME = ''/metanode''"

definition SUCCESS :: int where "SUCCESS = 0"
definition INCORRECT_ARGS :: int where "INCORRECT_ARGS = 1"
definition MUTEX_FAILURE :: int where "MUTEX_FAILURE = 2"
definition MEMALLOC_FAILURE :: int where "MEMALLOC_FAILURE = 3"
definition SOCKET_FAILURE :: int where "SOCKET_FAILURE = 4"
definition IO_FAILURE :: int where "IO_FAILURE = 6"
definition NETWORK_FAILURE :: int where "NETWORK_FAILURE = 7"

lemmas exit_codes = SUCCESS_def INCORRECT_ARGS_def MUTEX_FAILURE_def MEMALLOC_FAILURE_def
  SOCKET_FAILURE_def IO_FAILURE_def NETWORK_FAILURE_def

end
