(* ===== verification/StrFuns.thy ===== *)
theory StrFuns
  imports Constants
begin

text \<open>
  The program's own string helpers: \<open>strcasestr\<close>, \<open>strDecode\<close>, \<open>contentType\<close>,
  \<open>copyLength\<close>, \<open>appendStr\<close> and \<open>isOptimized\<close>, each from the file of that name under
  src/functions.
\<close>

section \<open>strcasestr.c\<close>

text \<open>The inner loop, from column \<open>j\<close>: a mismatch clears \<open>isMatch\<close> and ends it.\<close>

function ci_match :: "string \<Rightarrow> string \<Rightarrow> nat \<Rightarrow> nat \<Rightarrow> bool" where
  "ci_match haystack needle i j =
     (if j < length needle then
        (if toupper (haystack ! (i + j)) \<noteq> toupper (needle ! j) then False
         else ci_match haystack needle i (Suc j))
      else True)"
  by pat_completeness auto
termination
  by (relation "measure (\<lambda>(h, n, i, j). length n - j)") auto

function strcasestr_loop :: "string \<Rightarrow> string \<Rightarrow> nat \<Rightarrow> nat option" where
  "strcasestr_loop haystack needle i =
     (if int i < int (length haystack) - int (length needle) then
        (if ci_match haystack needle i 0 then Some i
         else strcasestr_loop haystack needle (Suc i))
      else None)"
  by pat_completeness auto
termination
  by (relation "measure (\<lambda>(h, n, i). length h - i)") auto

declare ci_match.simps [simp del] strcasestr_loop.simps [simp del]

text \<open>Either argument may be the null pointer.\<close>

definition strcasestr :: "string option \<Rightarrow> string option \<Rightarrow> nat option" where
  "strcasestr haystack needle =
     (case (haystack, needle) of
        (Some h, Some n) \<Rightarrow> strcasestr_loop h n 0
      | _ \<Rightarrow> None)"

text \<open>Where a needle stands in a haystack when case is ignored.\<close>

definition occurs_at :: "string \<Rightarrow> string \<Rightarrow> nat \<Rightarrow> bool" where
  "occurs_at h n i \<longleftrightarrow> prefix (map toupper n) (map toupper (drop i h))"

lemma ci_match_iff:
  assumes "i + length n \<le> length h"
  shows "ci_match h n i j \<longleftrightarrow> (\<forall>k. j \<le> k \<and> k < length n \<longrightarrow> toupper (h ! (i + k)) = toupper (n ! k))"
proof (induction h n i j rule: ci_match.induct)
  case (1 h n i j)
  show ?case
  proof (cases "j < length n \<and> toupper (h ! (i + j)) = toupper (n ! j)")
    case True
    then have "ci_match h n i j = ci_match h n i (Suc j)"
      by (subst ci_match.simps) simp
    also have "\<dots> = (\<forall>k. Suc j \<le> k \<and> k < length n \<longrightarrow> toupper (h ! (i + k)) = toupper (n ! k))"
      using True 1 by blast
    finally show ?thesis
      using True by (metis Suc_leI le_neq_implies_less Suc_leD)
  next
    case False
    then show ?thesis
      by (subst ci_match.simps) auto
  qed
qed

lemma occurs_at_iff:
  "occurs_at h n i \<longleftrightarrow>
     (n = [] \<or> i + length n \<le> length h) \<and> (\<forall>k < length n. toupper (h ! (i + k)) = toupper (n ! k))"
proof -
  have "occurs_at h n i \<longleftrightarrow> length n \<le> length h - i \<and>
      take (length n) (map toupper (drop i h)) = map toupper n"
    by (simp add: occurs_at_def prefix_take_iff)
  also have "\<dots> \<longleftrightarrow> length n \<le> length h - i \<and> (\<forall>k < length n. toupper (h ! (i + k)) = toupper (n ! k))"
    by (auto simp: list_eq_iff_nth_eq take_map)
  also have "\<dots> \<longleftrightarrow> (n = [] \<or> i + length n \<le> length h) \<and>
      (\<forall>k < length n. toupper (h ! (i + k)) = toupper (n ! k))"
    by (cases n) auto
  finally show ?thesis .
qed

lemma ci_match_occurs:
  "i + length n \<le> length h \<Longrightarrow> ci_match h n i 0 \<longleftrightarrow> occurs_at h n i"
  by (simp add: ci_match_iff occurs_at_iff)

lemma strcasestr_loop_Some:
  "strcasestr_loop h n i = Some k \<longleftrightarrow>
     i \<le> k \<and> k + length n < length h \<and> occurs_at h n k \<and> (\<forall>j. i \<le> j \<and> j < k \<longrightarrow> \<not> occurs_at h n j)"
proof (induction h n i rule: strcasestr_loop.induct)
  case (1 h n i)
  show ?case
  proof (cases "i + length n < length h")
    case lt: True
    show ?thesis
    proof (cases "occurs_at h n i")
      case True
      with lt have "strcasestr_loop h n i = Some i"
        by (subst strcasestr_loop.simps) (simp add: ci_match_occurs)
      with True lt show ?thesis
        by auto
    next
      case False
      with lt have "strcasestr_loop h n i = strcasestr_loop h n (Suc i)"
        by (subst strcasestr_loop.simps) (simp add: ci_match_occurs)
      with False lt 1 show ?thesis
        by (simp add: ci_match_occurs) (metis Suc_leI Suc_leD le_neq_implies_less)
    qed
  next
    case False
    then show ?thesis
      by (subst strcasestr_loop.simps) auto
  qed
qed

lemma strcasestr_Some:
  "strcasestr (Some h) (Some n) = Some k \<longleftrightarrow>
     k + length n < length h \<and> occurs_at h n k \<and> (\<forall>j < k. \<not> occurs_at h n j)"
  by (simp add: strcasestr_def strcasestr_loop_Some)

lemma strcasestr_NULL [simp]: "strcasestr None n = None" "strcasestr h None = None"
  by (simp_all add: strcasestr_def split: option.split)

lemma strcasestr_None:
  "strcasestr (Some h) (Some n) = None \<longleftrightarrow> (\<forall>k. k + length n < length h \<longrightarrow> \<not> occurs_at h n k)"
proof
  assume "strcasestr (Some h) (Some n) = None"
  then have no: "\<And>k. strcasestr (Some h) (Some n) \<noteq> Some k"
    by simp
  show "\<forall>k. k + length n < length h \<longrightarrow> \<not> occurs_at h n k"
  proof (intro allI impI)
    fix k assume "k + length n < length h"
    then show "\<not> occurs_at h n k"
    proof (induction k rule: less_induct)
      case (less k)
      then have "\<forall>j < k. \<not> occurs_at h n j"
        by auto
      with no [of k] less.prems show ?case
        by (auto simp: strcasestr_Some)
    qed
  qed
next
  assume "\<forall>k. k + length n < length h \<longrightarrow> \<not> occurs_at h n k"
  then show "strcasestr (Some h) (Some n) = None"
    using strcasestr_Some [of h n] by (metis not_Some_eq)
qed

section \<open>strDecode.c\<close>

definition hexit :: "char \<Rightarrow> nat" where
  "hexit c =
     (if CHR ''0'' \<le> c \<and> c \<le> CHR ''9'' then of_char c - 48
      else if CHR ''a'' \<le> c \<and> c \<le> CHR ''f'' then of_char c - 97 + 10
      else if CHR ''A'' \<le> c \<and> c \<le> CHR ''F'' then of_char c - 65 + 10
      else 0)"

text \<open>The test of the loop body; each operand is read only when the ones before it hold.\<close>

definition is_escape :: "buffer \<Rightarrow> nat \<Rightarrow> bool result" where
  "is_escape b from =
     bindR (rd b from) (\<lambda>c0. if c0 \<noteq> CHR ''%'' then Inr False else
     bindR (rd b (from + 1)) (\<lambda>c1. if \<not> isxdigit c1 then Inr False else
     bindR (rd b (from + 2)) (\<lambda>c2. Inr (isxdigit c2))))"

text \<open>
  The loop as the server calls it, with \<open>to\<close> and \<open>from\<close> pointing into one buffer; the bytes
  written are seen by the later reads.
\<close>

function strDecode_loop :: "buffer \<Rightarrow> nat \<Rightarrow> nat \<Rightarrow> buffer result" where
  "strDecode_loop b to from =
     bindR (rd b from) (\<lambda>c.
       if c = NUL then wr b to NUL
       else bindR (is_escape b from) (\<lambda>esc.
         if esc then
           bindR (wr b to (char_of (hexit (b ! (from + 1)) * 16 + hexit (b ! (from + 2)))))
             (\<lambda>b'. strDecode_loop b' (to + 1) (from + 3))
         else bindR (wr b to c) (\<lambda>b'. strDecode_loop b' (to + 1) (from + 1))))"
  by pat_completeness auto
termination
  by (relation "measure (\<lambda>(b, to, from). length b - from)") (auto simp: is_escape_def)

declare strDecode_loop.simps [simp del]

definition strDecode :: "buffer \<Rightarrow> buffer result" where
  "strDecode b = strDecode_loop b 0 0"

text \<open>The same transformation on the string alone.\<close>

fun decode :: "string \<Rightarrow> string" where
  "decode (a # b # c # s) =
     (if a = CHR ''%'' \<and> isxdigit b \<and> isxdigit c
      then char_of (hexit b * 16 + hexit c) # decode s
      else a # decode (b # c # s))"
| "decode s = s"

lemma isxdigit_NUL [simp]: "\<not> isxdigit NUL"
  by (simp add: isxdigit_def isdigit_def)

lemma length_decode_le: "length (decode s) \<le> length s"
  by (induction s rule: decode.induct) auto

text \<open>
  Running in place is safe because the write position never overtakes the read position: what
  is still to be read is the original text.
\<close>

definition escape_here :: "string \<Rightarrow> bool" where
  "escape_here s = (case s of a # b # c # _ \<Rightarrow> a = CHR ''%'' \<and> isxdigit b \<and> isxdigit c | _ \<Rightarrow> False)"

lemma drop_eq_nth:
  assumes "drop i b = x # xs"
  shows "i < length b" and "b ! i = x" and "drop (Suc i) b = xs"
proof -
  show "i < length b"
    using assms by (metis drop_all leI list.distinct(1))
  then show "b ! i = x" "drop (Suc i) b = xs"
    using assms by (simp_all add: Cons_nth_drop_Suc [symmetric])
qed

lemma is_escape_eq:
  assumes d: "drop i b = x # s @ NUL # r"
  shows "is_escape b i = Inr (escape_here (x # s))"
proof -
  note d0 = drop_eq_nth [OF d]
  show ?thesis
  proof (cases s)
    case Nil
    then show ?thesis
      using d0 drop_eq_nth [of "Suc i" b NUL r] by (simp add: is_escape_def escape_here_def)
  next
    case (Cons y t)
    note d1 = drop_eq_nth [of "Suc i" b y "t @ NUL # r"]
    show ?thesis
    proof (cases t)
      case Nil
      then show ?thesis
        using Cons d0 d1 drop_eq_nth [of "Suc (Suc i)" b NUL r]
        by (simp add: is_escape_def escape_here_def)
    next
      case (Cons z u)
      then show ?thesis
        using \<open>s = y # t\<close> d0 d1 drop_eq_nth [of "Suc (Suc i)" b z "u @ NUL # r"]
        by (auto simp: is_escape_def escape_here_def)
    qed
  qed
qed

lemma decode_Cons:
  "decode (x # s) =
     (if escape_here (x # s)
      then char_of (hexit (hd s) * 16 + hexit (hd (tl s))) # decode (drop 2 s)
      else x # decode s)"
proof (cases s)
  case (Cons y t)
  then show ?thesis
    by (cases t) (simp_all add: escape_here_def)
qed (simp add: escape_here_def)

lemma take_drop_update:
  "i < length b \<Longrightarrow> take (Suc i) (b[i := x]) = take i b @ [x]"
  "i < k \<Longrightarrow> drop k (b[i := x]) = drop k b"
  by (simp_all add: take_Suc_conv_app_nth)

lemma strDecode_loop_inplace:
  assumes "to \<le> from" and "drop from b = s @ NUL # r" and "NUL \<notin> set s"
  shows "strDecode_loop b to from =
     Inr (take to b @ decode s @ NUL # drop (Suc (to + length (decode s))) b)"
  using assms
proof (induction "length s" arbitrary: b to "from" s rule: less_induct)
  case less
  show ?case
  proof (cases s)
    case Nil
    note f = drop_eq_nth [of "from" b NUL r]
    from Nil less.prems f have "strDecode_loop b to from = Inr (b[to := NUL])"
      by (subst strDecode_loop.simps) simp
    then show ?thesis
      using Nil less.prems f by (simp add: upd_conv_take_nth_drop)
  next
    case (Cons x t)
    have d: "drop from b = x # t @ NUL # r"
      using Cons less.prems by simp
    note f = drop_eq_nth [OF d]
    have to: "to < length b"
      using f(1) less.prems by simp
    have x: "x \<noteq> NUL"
      using Cons less.prems by auto
    show ?thesis
    proof (cases "escape_here (x # t)")
      case False
      let ?b = "b[to := x]"
      have "strDecode_loop b to from = strDecode_loop ?b (Suc to) (Suc from)"
        using f to x False by (subst strDecode_loop.simps) (simp add: is_escape_eq [OF d])
      also have "\<dots> = Inr (take (Suc to) ?b @ decode t @ NUL # drop (Suc (Suc to + length (decode t))) ?b)"
        using less.prems Cons f by (intro less.hyps) (auto simp: take_drop_update)
      finally show ?thesis
        using to False Cons by (simp add: take_drop_update decode_Cons)
    next
      case True
      then obtain y z u where t: "t = y # z # u"
        by (auto simp: escape_here_def split: list.splits)
      have g: "b ! Suc from = y" "b ! Suc (Suc from) = z" "drop (from + 3) b = u @ NUL # r"
        using f(3) t drop_eq_nth [of "Suc from" b y "z # u @ NUL # r"]
          drop_eq_nth [of "Suc (Suc from)" b z "u @ NUL # r"] by (simp_all add: numeral_3_eq_3)
      let ?x = "char_of (hexit y * 16 + hexit z)" and ?b = "b[to := char_of (hexit y * 16 + hexit z)]"
      have "strDecode_loop b to from = strDecode_loop ?b (Suc to) (from + 3)"
        using f to x g True t by (subst strDecode_loop.simps) (simp add: is_escape_eq [OF d])
      also have "\<dots> = Inr (take (Suc to) ?b @ decode u @ NUL # drop (Suc (Suc to + length (decode u))) ?b)"
        using less.prems Cons t g by (intro less.hyps) (auto simp: take_drop_update)
      finally show ?thesis
        using to True Cons t by (simp add: take_drop_update decode_Cons)
    qed
  qed
qed

lemma strDecode_inplace:
  assumes "NUL \<notin> set s"
  shows "strDecode (s @ NUL # r) = Inr (decode s @ NUL # drop (Suc (length (decode s))) (s @ NUL # r))"
  using strDecode_loop_inplace [of 0 0 "s @ NUL # r" s r] assms by (simp add: strDecode_def)

text \<open>Percent encoding, the inverse a client applies: every byte as \<open>%XX\<close>.\<close>

definition hex_char :: "nat \<Rightarrow> char" where
  "hex_char d = ''0123456789ABCDEF'' ! d"

definition pct :: "char \<Rightarrow> string" where
  "pct c = [CHR ''%'', hex_char (of_char c div 16), hex_char (of_char c mod 16)]"

definition pct_encode :: "string \<Rightarrow> string" where
  "pct_encode s = concat (map pct s)"

lemma hex_char_table: "\<forall>d \<in> set [0..<16]. isxdigit (hex_char d) \<and> hexit (hex_char d) = d"
  by code_simp

lemma hex_char_digit [simp]: "d < 16 \<Longrightarrow> isxdigit (hex_char d)"
  using hex_char_table by simp

lemma hexit_hex_char [simp]: "d < 16 \<Longrightarrow> hexit (hex_char d) = d"
  using hex_char_table by simp

lemma of_char_less: "(of_char c :: nat) < 256"
  by simp

lemma decode_pct: "decode (pct c @ s) = c # decode s"
proof -
  have "(of_char c :: nat) div 16 < 16"
    using of_char_less [of c] by (simp add: less_mult_imp_div_less)
  then show ?thesis
    by (simp add: pct_def)
qed

lemma decode_pct_encode: "decode (pct_encode s) = s"
  by (induction s) (simp_all add: pct_encode_def decode_pct)

section \<open>contentType.c\<close>

definition contentType :: "string \<Rightarrow> string" where
  "contentType file =
     (case strrchr file (CHR ''.'') of
        None \<Rightarrow> ''text/plain; charset=iso-8859-1''
      | Some i \<Rightarrow>
          let dot = drop i file in
          if dot = ''.html'' \<or> dot = ''.htm'' then ''text/html; charset=iso-8859-1''
          else if dot = ''.jpg'' \<or> dot = ''.jpeg'' then ''image/jpeg''
          else if dot = ''.gif'' then ''image/gif''
          else if dot = ''.png'' then ''image/png''
          else if dot = ''.css'' then ''text/css''
          else if dot = ''.au'' then ''audio/basic''
          else if dot = ''.wav'' then ''audio/wav''
          else if dot = ''.avi'' then ''video/x-msvideo''
          else if dot = ''.mov'' \<or> dot = ''.qt'' then ''video/quicktime''
          else if dot = ''.mpeg'' \<or> dot = ''.mpe'' then ''video/mpeg''
          else if dot = ''.vrml'' \<or> dot = ''.wrl'' then ''model/vrml''
          else if dot = ''.midi'' \<or> dot = ''.mid'' then ''audio/midi''
          else if dot = ''.mp3'' then ''audio/mpeg''
          else if dot = ''.ogg'' then ''application/ogg''
          else if dot = ''.pac'' then ''application/x-ns-proxy-autoconfig''
          else ''text/plain; charset=iso-8859-1'')"

text \<open>
  The abstract specification is a table from extensions to types; the function is its lookup
  at what stands after the last dot.
\<close>

definition mime_table :: "(string \<times> string) list" where
  "mime_table =
    [(''html'', ''text/html; charset=iso-8859-1''), (''htm'', ''text/html; charset=iso-8859-1''),
     (''jpg'', ''image/jpeg''), (''jpeg'', ''image/jpeg''), (''gif'', ''image/gif''),
     (''png'', ''image/png''), (''css'', ''text/css''), (''au'', ''audio/basic''),
     (''wav'', ''audio/wav''), (''avi'', ''video/x-msvideo''), (''mov'', ''video/quicktime''),
     (''qt'', ''video/quicktime''), (''mpeg'', ''video/mpeg''), (''mpe'', ''video/mpeg''),
     (''vrml'', ''model/vrml''), (''wrl'', ''model/vrml''), (''midi'', ''audio/midi''),
     (''mid'', ''audio/midi''), (''mp3'', ''audio/mpeg''), (''ogg'', ''application/ogg''),
     (''pac'', ''application/x-ns-proxy-autoconfig'')]"

definition mime_of :: "string \<Rightarrow> string" where
  "mime_of ext = (case map_of mime_table ext of
     None \<Rightarrow> ''text/plain; charset=iso-8859-1'' | Some m \<Rightarrow> m)"

lemma contentType_extension:
  assumes "CHR ''.'' \<notin> set ext"
  shows "contentType (base @ CHR ''.'' # ext) = mime_of ext"
  using assms by (simp add: contentType_def mime_of_def mime_table_def Let_def)

lemma contentType_no_dot:
  "CHR ''.'' \<notin> set s \<Longrightarrow> contentType s = ''text/plain; charset=iso-8859-1''"
  by (simp add: contentType_def)

section \<open>copyLength.c\<close>

text \<open>
  \<open>str\<close> is the text from the letter C of the header line on. The copy holds the value and
  the carriage return, without a NUL; \<open>atoi\<close> stops at the carriage return.
\<close>

definition copyLength :: "allocator \<Rightarrow> string \<Rightarrow> int result" where
  "copyLength mem str =
     (case strstr str EOL of
        None \<Rightarrow> Inr (- 1)
      | Some e \<Rightarrow>
          let start = length ''Content-Length: '';
              len = int e - int start + 1
          in if \<not> mem len then Inr (- 1)
             else if len < 0 then Inl Over_Write
             else c_atoi (take (nat len) (drop start str)))"

lemma copyLength_value:
  assumes "in_int i" and "ample mem"
  shows "copyLength mem (''Content-Length: '' @ fmt_d i @ EOL @ post) = Inr i"
proof -
  have "strstr ((''Content-Length: '' @ fmt_d i) @ EOL @ post) EOL =
      Some (length (''Content-Length: '' @ fmt_d i))"
    by (rule strstr_EOL) (simp add: fmt_d_notin isdigit_not)
  moreover have "c_atoi (fmt_d i @ [CR]) = Inr i"
    using assms(1) by (intro c_atoi_fmt_d) (simp_all add: isdigit_not)
  ultimately show ?thesis
    using assms(2) by (simp add: copyLength_def EOL_def Let_def nat_add_distrib ample_grants)
qed

section \<open>appendStr.c\<close>

text \<open>What \<open>printf\<close> makes of the link format, before the truncation of \<open>snprintf\<close>.\<close>

definition link_text :: "string \<Rightarrow> string" where
  \<open>link_text toAdd =
     ''<a href="'' @ toAdd @ ''">'' @ toAdd @ ''</a><br />'' @ [LF]\<close>

text \<open>The size \<open>i\<close> given to the link's buffer.\<close>

definition link_room :: "string \<Rightarrow> nat" where
  \<open>link_room toAdd = length toAdd * 2 + length (''<a href=""></a><br />'' @ [LF]) + 1\<close>

definition appendStr :: "allocator \<Rightarrow> string option \<Rightarrow> string \<Rightarrow> string option" where
  \<open>appendStr mem content toAdd =
     (case content of
        None \<Rightarrow> if mem (int (length toAdd) + 1) then Some toAdd else None
      | Some text \<Rightarrow>
          let i = link_room toAdd in
          if \<not> mem (int i) then None
          else let link = snprintf (i - 1) (link_text toAdd);
                   toAssign = (if strstr toAdd SERVER_NAME \<noteq> None then toAdd else link)
               in if mem (int (length text + length toAssign + 1)) then Some (text @ toAssign)
                  else None)\<close>

lemma link_room: "link_room s = 2 * length s + 23"
  by (simp add: link_room_def)

lemma length_link_text: "length (link_text s) = 2 * length s + 22"
  by (simp add: link_text_def)

lemma appendStr_first: "ample mem \<Longrightarrow> appendStr mem None s = Some s"
  by (simp add: appendStr_def ample_grants)

lemma appendStr_raw:
  "ample mem \<Longrightarrow> strstr s SERVER_NAME \<noteq> None \<Longrightarrow> appendStr mem (Some text) s = Some (text @ s)"
  by (simp add: appendStr_def Let_def ample_grants)

lemma appendStr_link:
  assumes "ample mem" and "strstr s SERVER_NAME = None"
  shows "appendStr mem (Some text) s = Some (text @ butlast (link_text s))"
proof -
  have "snprintf (link_room s - 1) (link_text s) = butlast (link_text s)"
    by (simp add: snprintf_def butlast_conv_take length_link_text link_room)
  with assms show ?thesis
    by (simp add: appendStr_def Let_def ample_grants)
qed

section \<open>isOptimized.c\<close>

text \<open>The test on one argument; the string's NUL is neither a dash nor an o.\<close>

definition is_dash_o :: "string \<Rightarrow> bool" where
  "is_dash_o s = (case s of c # d # _ \<Rightarrow> c = CHR ''-'' \<and> d = CHR ''o'' | _ \<Rightarrow> False)"

fun isOptimized_loop :: "string list \<Rightarrow> int" where
  "isOptimized_loop [] = 0"
| "isOptimized_loop (a # args) = (if is_dash_o a then 1 else isOptimized_loop args)"

text \<open>The loop starts at \<open>argv[1]\<close>.\<close>

definition isOptimized :: "string list \<Rightarrow> int" where
  "isOptimized argv = isOptimized_loop (drop 1 argv)"

lemma isOptimized_iff: "isOptimized argv = 1 \<longleftrightarrow> (\<exists>a \<in> set (drop 1 argv). is_dash_o a)"
proof -
  have "isOptimized_loop args = 1 \<longleftrightarrow> (\<exists>a \<in> set args. is_dash_o a)" for args
    by (induction args) auto
  then show ?thesis
    by (simp add: isOptimized_def)
qed

lemma isOptimized_values: "isOptimized argv \<in> {0, 1}"
proof -
  have "isOptimized_loop args \<in> {0, 1}" for args
    by (induction args) auto
  then show ?thesis
    by (simp add: isOptimized_def)
qed

end
