(* ===== verification/Header.thy ===== *)
theory Header
  imports StrFuns
begin

text \<open>
  Reading HTTP headers: \<open>getHeaderField\<close>, \<open>getPortNumber\<close> and \<open>chopPortNum\<close> of
  src/functions/getHeaderField.c, \<open>getStatusCode\<close>, \<open>stripAbsURL\<close> and \<open>isJPG\<close> of the files
  of those names. A header is the byte list of its heap object; the length argument is the
  number of bytes the caller says it has.
\<close>

section \<open>getHeaderField\<close>

text \<open>\<open>strncpy (dst, src, n)\<close> reads \<open>src\<close> up to its NUL or its \<open>n\<close>-th byte.\<close>

definition strncpy_src :: "buffer \<Rightarrow> nat \<Rightarrow> string result" where
  "strncpy_src src n =
     (if n \<le> length src \<or> NUL \<in> set src then Inr (cstr (take n src)) else Inl Over_Read)"

fun skip_blanks :: "string \<Rightarrow> nat" where
  "skip_blanks [] = 0"
| "skip_blanks (c # s) = (if c = SP then Suc (skip_blanks s) else 0)"

text \<open>
  \<open>p\<close> is where the field was found in the copy \<open>ts\<close>. The value is copied with the length
  \<open>endOfLine - toFind\<close>, a pointer difference that may be negative; as the size of an
  allocation a negative one is refused, and as the bound of the copy it is a huge one.
\<close>

definition field_value :: "allocator \<Rightarrow> string \<Rightarrow> nat \<Rightarrow> string option result" where
  "field_value mem ts p =
     (case strstr (drop p ts) EOL of
        None \<Rightarrow> Inr None
      | Some e \<Rightarrow>
          (case strchr (drop p ts) (CHR '':'') of
             None \<Rightarrow> Inr None
           | Some c \<Rightarrow>
               let endOfLine = p + e;
                   start = p + c + 1;
                   toFind = start + skip_blanks (drop start ts);
                   n = int endOfLine - int toFind
               in if \<not> mem (n + 1) then Inr None
                  else if n < 0 then Inl Over_Write
                  else Inr (Some (take (nat n) (drop toFind ts)))))"

definition getHeaderField :: "allocator \<Rightarrow> buffer \<Rightarrow> nat \<Rightarrow> string \<Rightarrow> string option result" where
  "getHeaderField mem header headerLength field =
     (if \<not> mem (int headerLength + 1) then Inr None
      else bindR (strncpy_src header headerLength) (\<lambda>toSearch.
        case strcasestr (Some toSearch) (Some field) of
          None \<Rightarrow> Inr None
        | Some p \<Rightarrow> field_value mem toSearch p))"

subsection \<open>Memory safety\<close>

text \<open>
  The blanks after the colon end before the line does, so a negative length can only come from
  a colon on a later line, and then it is at most \<open>-2\<close>: the allocation of one byte more is
  still negative and refused.
\<close>

lemma skip_blanks_le: "skip_blanks s \<le> length s"
  by (induction s) auto

lemma skip_blanks_SP: "k < skip_blanks s \<Longrightarrow> s ! k = SP"
  by (induction s arbitrary: k) (auto simp: nth_Cons' split: if_splits)

lemma skip_blanks_append: "skip_blanks (replicate k SP @ s) = k + skip_blanks s"
  by (induction k) auto

lemma skip_blanks_none: "s = [] \<or> hd s \<noteq> SP \<Longrightarrow> skip_blanks s = 0"
  by (cases s) auto

lemma field_value_length:
  assumes e: "strstr s EOL = Some e" and c: "strchr s (CHR '':'') = Some c"
    and t: "t = c + 1 + skip_blanks (drop (c + 1) s)"
  shows "int e - int t \<noteq> - 1"
proof
  assume "int e - int t = - 1"
  then have te: "t = Suc e"
    by simp
  from e have e_len: "e + 2 \<le> length s" and at_e: "s ! e = CR"
    using find_sub_Some [of EOL s e] prefix_drop_nth [of EOL e s 0]
    by (auto simp: strstr_def EOL_def)
  from strchr_Some [OF c] have c_len: "c < length s" and at_c: "s ! c = CHR '':''"
    by auto
  show False
  proof (cases "skip_blanks (drop (c + 1) s)")
    case 0
    then have "c = e"
      using t te by simp
    with at_e at_c show False by simp
  next
    case (Suc k)
    then have "drop (c + 1) s ! k = SP"
      by (intro skip_blanks_SP) simp
    then have "s ! (c + 1 + k) = SP"
      using c_len by simp
    moreover have "c + 1 + k = e"
      using Suc t te by simp
    ultimately show False
      using at_e by simp
  qed
qed

lemma field_value_returns:
  assumes "sane mem"
  shows "returns (field_value mem ts p)"
proof (cases "strstr (drop p ts) EOL")
  case None
  then show ?thesis by (simp add: field_value_def)
next
  case e: (Some e)
  show ?thesis
  proof (cases "strchr (drop p ts) (CHR '':'')")
    case None
    then show ?thesis
      using e by (simp add: field_value_def)
  next
    case c: (Some c)
    define t where "t = c + 1 + skip_blanks (drop (c + 1) (drop p ts))"
    have "int e - int t \<noteq> - 1"
      using e c t_def by (rule field_value_length)
    moreover have "p + c + 1 + skip_blanks (drop (p + c + 1) ts) = p + t"
      by (simp add: t_def add.commute add.left_commute)
    ultimately show ?thesis
      using e c assms by (auto simp: field_value_def Let_def sane_def)
  qed
qed

lemma getHeaderField_returns:
  assumes "sane mem" and "headerLength \<le> length header"
  shows "returns (getHeaderField mem header headerLength field)"
  using assms field_value_returns
  by (auto simp: getHeaderField_def strncpy_src_def split: option.split)

subsection \<open>The value found\<close>

text \<open>
  The general reading lemma: the field's name at \<open>p\<close> is the first place it occurs, its line is
  \<open>name: value\<close>, and the value is what stands between the blanks and the line end.
\<close>

lemma field_value_line:
  assumes ts: "ts = pre @ name @ CHR '':'' # replicate k SP @ val @ EOL @ post"
    and nocolon: "CHR '':'' \<notin> set name" and nocr: "CR \<notin> set name" "CR \<notin> set val"
    and val: "val = [] \<or> hd val \<noteq> SP" and mem: "ample mem"
  shows "field_value mem ts (length pre) = Inr (Some val)"
proof -
  let ?front = "name @ CHR '':'' # replicate k SP @ val"
  have d: "drop (length pre) ts = ?front @ EOL @ post"
    by (simp add: ts)
  have e: "strstr (drop (length pre) ts) EOL = Some (length ?front)"
    unfolding d using nocr by (intro strstr_EOL_CR) auto
  have c: "strchr (drop (length pre) ts) (CHR '':'') = Some (length name)"
    using nocolon by (simp add: d)
  have s: "drop (Suc (length pre + length name)) ts = replicate k SP @ val @ EOL @ post"
    by (simp add: ts)
  have "skip_blanks (val @ EOL @ post) = 0"
    using val by (intro skip_blanks_none) (auto simp: EOL_def hd_append)
  then have b: "skip_blanks (drop (Suc (length pre + length name)) ts) = k"
    by (simp add: s skip_blanks_append)
  have v: "drop (Suc (length pre + length name + k)) ts = val @ EOL @ post"
    by (simp add: ts)
  show ?thesis
    using mem e c b v by (simp add: field_value_def Let_def ample_grants)
qed

lemma occurs_at_self: "occurs_at (pre @ name @ post) name (length pre)"
  by (simp add: occurs_at_def)

lemma getHeaderField_line:
  assumes hdr: "header = pre @ name @ CHR '':'' # replicate k SP @ val @ EOL @ post"
    and len: "headerLength = length header" and nul: "NUL \<notin> set header"
    and first: "\<And>j. j < length pre \<Longrightarrow> \<not> occurs_at header name j"
    and rest: "CHR '':'' \<notin> set name" "CR \<notin> set name" "CR \<notin> set val" "val = [] \<or> hd val \<noteq> SP"
    and mem: "ample mem"
  shows "getHeaderField mem header headerLength name = Inr (Some val)"
proof -
  have "strcasestr (Some header) (Some name) = Some (length pre)"
    using first hdr occurs_at_self [of pre name] by (simp add: strcasestr_Some)
  moreover have "field_value mem header (length pre) = Inr (Some val)"
    using hdr rest mem by (rule field_value_line)
  ultimately show ?thesis
    using len nul mem by (simp add: getHeaderField_def strncpy_src_def ample_grants)
qed

lemma getHeaderField_absent:
  assumes "headerLength = length header" and "NUL \<notin> set header"
    and "\<And>j. j + length name < length header \<Longrightarrow> \<not> occurs_at header name j"
  shows "getHeaderField mem header headerLength name = Inr None"
proof -
  have "strcasestr (Some header) (Some name) = None"
    using assms(3) by (simp add: strcasestr_None)
  then show ?thesis
    using assms by (simp add: getHeaderField_def strncpy_src_def)
qed

section \<open>getPortNumber\<close>

text \<open>
  The last colon starts a port number unless a letter p stands before it; that byte is read
  even when the colon is the first byte of the string. The digits are copied into an array of
  100 bytes with no regard to its size.
\<close>

definition getPortNumber :: "string option \<Rightarrow> int result" where
  "getPortNumber server =
     (case server of
        None \<Rightarrow> Inr (- 1)
      | Some s \<Rightarrow>
          (case strrchr s (CHR '':'') of
             None \<Rightarrow> Inr 80
           | Some colon \<Rightarrow>
               if colon = 0 then Inl Over_Read
               else if s ! (colon - 1) = CHR ''p'' then Inr 80
               else let digits = drop (colon + 1) s
                    in if 100 < length digits then Inl Over_Write
                       else c_atoi (digits @ replicate (100 - length digits) NUL)))"

lemma getPortNumber_port:
  assumes "in_int i" and "host \<noteq> []" and "last host \<noteq> CHR ''p''" and "length (fmt_d i) < 100"
  shows "getPortNumber (Some (host @ CHR '':'' # fmt_d i)) = Inr i"
proof -
  have "strrchr (host @ CHR '':'' # fmt_d i) (CHR '':'') = Some (length host)"
    by (intro strrchr_append fmt_d_notin) (simp_all add: isdigit_not)
  moreover have "replicate (100 - length (fmt_d i)) NUL = NUL # replicate (99 - length (fmt_d i)) NUL"
    using assms(4) by (cases "100 - length (fmt_d i)") auto
  ultimately show ?thesis
    using assms by (simp add: getPortNumber_def Let_def nth_append last_conv_nth c_atoi_fmt_d isdigit_not)
qed

lemma getPortNumber_default:
  "CHR '':'' \<notin> set s \<Longrightarrow> getPortNumber (Some s) = Inr 80"
  by (simp add: getPortNumber_def)

lemma getPortNumber_overflow:
  assumes "CHR '':'' \<notin> set digits" and "host \<noteq> []" and "last host \<noteq> CHR ''p''"
    and "100 < length digits"
  shows "getPortNumber (Some (host @ CHR '':'' # digits)) = Inl Over_Write"
  using assms by (simp add: getPortNumber_def Let_def nth_append last_conv_nth)

lemma getPortNumber_p:
  assumes "CHR '':'' \<notin> set digits"
  shows "getPortNumber (Some ((host @ ''p'') @ CHR '':'' # digits)) = Inr 80"
  using assms strrchr_append [of "CHR '':''" digits "host @ ''p''"]
  by (simp add: getPortNumber_def nth_append)

section \<open>chopPortNum\<close>

function chop_loop :: "string \<Rightarrow> int \<Rightarrow> char \<Rightarrow> int result" where
  "chop_loop server eos ch =
     (if isdigit ch \<or> ch = SP \<or> ch = CHR '':'' then
        (if ch = CHR '':'' then Inr (eos - 1)
         else if eos - 1 < 0 then Inl Over_Read
         else chop_loop server (eos - 1) (server ! nat (eos - 1)))
      else Inr eos)"
  by pat_completeness auto
termination
  by (relation "measure (\<lambda>(s, eos, ch). nat eos)") auto

declare chop_loop.simps [simp del]

definition chopPortNum :: "allocator \<Rightarrow> string option \<Rightarrow> string option result" where
  "chopPortNum mem server =
     (case server of
        None \<Rightarrow> Inr None
      | Some s \<Rightarrow>
          let eos = int (length s) - 1 in
          if eos < 0 then Inl Over_Read
          else bindR (chop_loop s eos (s ! nat eos)) (\<lambda>eos.
            if mem (eos + 2) then Inr (Some (take (nat (eos + 1)) s)) else Inr None))"

text \<open>
  What the loop computes: trailing digits and blanks go, then one colon if there is one. With
  nothing else in the string the loop walks off its start.
\<close>

definition chop_spec :: "string \<Rightarrow> string result" where
  "chop_spec s =
     (case dropWhile (\<lambda>c. isdigit c \<or> c = SP) (rev s) of
        [] \<Rightarrow> Inl Over_Read
      | c # r \<Rightarrow> Inr (if c = CHR '':'' then rev r else rev (c # r)))"

lemma chop_loop_spec:
  assumes "k < length s"
  shows "map_sum id (\<lambda>eos. (take (nat (eos + 1)) s, - 1 \<le> eos \<and> eos \<le> int k)) (chop_loop s (int k) (s ! k)) =
         map_sum id (\<lambda>h. (h, True)) (chop_spec (take (Suc k) s))"
  using assms
proof (induction k)
  case 0
  then have "take (Suc 0) s = [s ! 0]"
    by (simp add: take_Suc_conv_app_nth)
  then show ?case
    by (subst chop_loop.simps) (simp add: chop_spec_def isdigit_not)
next
  case (Suc k)
  have t: "rev (take (Suc (Suc k)) s) = s ! Suc k # rev (take (Suc k) s)"
    using Suc.prems by (simp add: take_Suc_conv_app_nth)
  show ?case
  proof (cases "isdigit (s ! Suc k) \<or> s ! Suc k = SP")
    case True
    then have ch: "s ! Suc k \<noteq> CHR '':''"
      by (auto simp: isdigit_not)
    have "chop_loop s (int (Suc k)) (s ! Suc k) = chop_loop s (int k) (s ! k)"
      using True ch by (subst chop_loop.simps) simp
    moreover have "chop_spec (take (Suc (Suc k)) s) = chop_spec (take (Suc k) s)"
      using True by (simp add: chop_spec_def t)
    ultimately show ?thesis
      using Suc by (cases "chop_loop s (int k) (s ! k)"; cases "chop_spec (take (Suc k) s)") auto
  next
    case False
    then have "chop_spec (take (Suc (Suc k)) s) =
        Inr (if s ! Suc k = CHR '':'' then take (Suc k) s else take (Suc (Suc k)) s)"
      using Suc.prems by (simp add: chop_spec_def t take_Suc_conv_app_nth)
    moreover have "chop_loop s (int (Suc k)) (s ! Suc k) =
        Inr (if s ! Suc k = CHR '':'' then int k else int (Suc k))"
      using False by (subst chop_loop.simps) simp
    ultimately show ?thesis
      by (simp add: nat_add_distrib)
  qed
qed

lemma chopPortNum_spec:
  assumes "ample mem"
  shows "chopPortNum mem (Some s) = map_sum id Some (chop_spec s)"
proof (cases s)
  case Nil
  then show ?thesis
    by (simp add: chopPortNum_def chop_spec_def)
next
  case (Cons c t)
  then have "length t < length s" and len: "int (length s) - 1 = int (length t)"
    and whole: "take (Suc (length t)) s = s"
    by simp_all
  note spec = chop_loop_spec [OF \<open>length t < length s\<close>]
  show ?thesis
  proof (cases "chop_loop s (int (length t)) (s ! length t)")
    case (Inl e)
    then show ?thesis
      using spec by (cases "chop_spec s") (auto simp: chopPortNum_def Let_def len whole)
  next
    case (Inr eos)
    then show ?thesis
      using spec assms
      by (cases "chop_spec s") (auto simp: chopPortNum_def Let_def len whole ample_grants)
  qed
qed

lemma dropWhile_digits:
  "\<forall>c \<in> set ds. isdigit c \<Longrightarrow>
     dropWhile (\<lambda>c. isdigit c \<or> c = SP) (ds @ s) = dropWhile (\<lambda>c. isdigit c \<or> c = SP) s"
  by (simp add: dropWhile_append2)

lemma chop_spec_port:
  "\<forall>c \<in> set digits. isdigit c \<Longrightarrow> chop_spec (host @ CHR '':'' # digits) = Inr host"
  by (simp add: chop_spec_def dropWhile_digits isdigit_not)

lemma chop_spec_name:
  assumes "\<not> isdigit c" and "c \<noteq> SP" and "c \<noteq> CHR '':''" and "\<forall>d \<in> set digits. isdigit d"
  shows "chop_spec (host @ c # digits) = Inr (host @ [c])"
  using assms by (simp add: chop_spec_def dropWhile_digits)

lemma chop_spec_digits:
  assumes "\<forall>c \<in> set s. isdigit c"
  shows "chop_spec s = Inl Over_Read"
proof -
  have d: "dropWhile (\<lambda>c. isdigit c \<or> c = SP) (rev s) = []"
    using assms by simp
  show ?thesis
    unfolding chop_spec_def d by simp
qed

section \<open>getStatusCode\<close>

text \<open>
  The loop copies the bytes after the first blank to the front of the same buffer. Its test
  reads \<open>ptr[0]\<close> before it looks at the bound, and the bound is on the write index \<open>i\<close>.
\<close>

function status_loop :: "nat \<Rightarrow> buffer \<Rightarrow> nat \<Rightarrow> nat \<Rightarrow> buffer result" where
  "status_loop room buf ptr i =
     bindR (rd buf ptr) (\<lambda>c.
       if c \<noteq> SP \<and> i < room
       then bindR (wr buf i c) (\<lambda>buf'. status_loop room buf' (ptr + 1) (i + 1))
       else Inr buf)"
  by pat_completeness auto
termination
  by (relation "measure (\<lambda>(room, buf, ptr, i). length buf - ptr)") auto

declare status_loop.simps [simp del]

definition getStatusCode :: "allocator \<Rightarrow> buffer \<Rightarrow> nat \<Rightarrow> int result" where
  "getStatusCode mem header headerLength =
     (let room = (if 100 < headerLength then 101 else headerLength + 1) in
      if \<not> mem (int room) then Inr (- 1)
      else bindR (strncpy_src header (room - 1)) (\<lambda>s.
        let buffer = s @ replicate (room - length s) NUL in
        case strchr s SP of
          None \<Rightarrow> Inl Null_Deref
        | Some k \<Rightarrow> bindR (status_loop room buffer (k + 1) 0) c_atoi))"

lemma update_front:
  assumes "i < length b"
  shows "take i b @ x # t @ drop (i + 1 + length t) b =
    take (Suc i) (b[i := x]) @ t @ drop (Suc i + length t) (b[i := x])"
  using assms by (simp add: take_Suc_conv_app_nth)

text \<open>
  Where the second blank stands, the word before it has been moved to the front; without one
  the loop reads past the end.
\<close>

lemma status_loop_eq:
  assumes "i < ptr" and "ptr \<le> length buf" and "room = length buf"
  shows "status_loop room buf ptr i =
     (let t = takeWhile (\<lambda>c. c \<noteq> SP) (drop ptr buf) in
      if ptr + length t = length buf then Inl Over_Read
      else Inr (take i buf @ t @ drop (i + length t) buf))"
  using assms
proof (induction "length buf - ptr" arbitrary: buf ptr i rule: less_induct)
  case less
  show ?case
  proof (cases "ptr = length buf")
    case True
    then show ?thesis
      by (subst status_loop.simps) (simp add: rd_out)
  next
    case False
    then have ptr: "ptr < length buf"
      using less.prems by simp
    then have d: "drop ptr buf = buf ! ptr # drop (Suc ptr) buf"
      by (simp add: Cons_nth_drop_Suc)
    show ?thesis
    proof (cases "buf ! ptr = SP")
      case True
      then show ?thesis
        using ptr d by (subst status_loop.simps) simp
    next
      case nsp: False
      let ?b = "buf[i := buf ! ptr]"
      let ?t = "takeWhile (\<lambda>c. c \<noteq> SP) (drop (Suc ptr) buf)"
      have i: "i < length buf"
        using less.prems by simp
      have "status_loop room buf ptr i = status_loop room ?b (Suc ptr) (Suc i)"
        using ptr nsp less.prems by (subst status_loop.simps) simp
      also have "\<dots> = (let t = takeWhile (\<lambda>c. c \<noteq> SP) (drop (Suc ptr) ?b) in
          if Suc ptr + length t = length ?b then Inl Over_Read
          else Inr (take (Suc i) ?b @ t @ drop (Suc i + length t) ?b))"
        using ptr less.prems by (intro less.hyps) auto
      also have "\<dots> = (if Suc ptr + length ?t = length buf then Inl Over_Read
          else Inr (take i buf @ buf ! ptr # ?t @ drop (i + 1 + length ?t) buf))"
        using less.prems update_front [OF i] by (simp add: Let_def)
      finally show ?thesis
        using nsp d by (simp add: Let_def)
    qed
  qed
qed

text \<open>
  Two blanks within the first 100 bytes, the header holding no NUL: the number is read from the word
  between them, which has been moved to the front of the copy.
\<close>

lemma getStatusCode_word:
  assumes hdr: "header = proto @ SP # w @ SP # rest"
    and proto: "SP \<notin> set proto" "NUL \<notin> set proto" and w: "SP \<notin> set w" "NUL \<notin> set w"
    and near: "length proto + length w < 98" and len: "headerLength = length header" and mem: "ample mem"
  shows "\<exists>r. getStatusCode mem header headerLength =
    c_atoi (w @ drop (length w) (proto @ SP # w @ SP # r))"
proof -
  define room where "room = (if 100 < headerLength then 101 else headerLength + 1)"
  define m where "m = room - Suc 0 - (length proto + length w + 2)"
  have sz: "length proto + length w + 2 \<le> room - Suc 0" "room - Suc 0 \<le> length header" "0 < room"
    using near len by (auto simp: room_def hdr)
  have "room - Suc 0 = length (proto @ SP # w @ [SP]) + m" "header = (proto @ SP # w @ [SP]) @ rest"
    using sz by (simp_all add: hdr m_def)
  then have "take (room - Suc 0) header = proto @ SP # w @ SP # take m rest"
    by (simp only: take_append diff_add_inverse length_append) simp
  then have s: "cstr (take (room - Suc 0) header) = proto @ SP # w @ SP # cstr (take m rest)"
    using proto w by simp
  define r where "r = cstr (take m rest) @ replicate (room - length (cstr (take (room - Suc 0) header))) NUL"
  define buffer where "buffer = proto @ SP # w @ SP # r"
  have room: "length buffer = room"
    using sz length_cstr_le [of "take (room - Suc 0) header"] arg_cong [OF s, of length]
    by (simp add: buffer_def r_def)
  have "\<forall>c \<in> set w. c \<noteq> SP"
    using w(1) by blast
  then have t: "takeWhile (\<lambda>c. c \<noteq> SP) (drop (Suc (length proto)) buffer) = w"
    by (simp add: buffer_def takeWhile_append2 takeWhile_tail)
  have "status_loop room buffer (length proto + 1) 0 = Inr (w @ drop (length w) buffer)"
    using sz room by (subst status_loop_eq) (simp_all add: t Let_def)
  moreover have "strchr (cstr (take (room - Suc 0) header)) SP = Some (length proto)"
    using proto by (simp add: s)
  moreover have "strncpy_src header (room - Suc 0) = Inr (cstr (take (room - Suc 0) header))"
    using sz by (simp add: strncpy_src_def)
  ultimately have "getStatusCode mem header headerLength = c_atoi (w @ drop (length w) buffer)"
    using mem sz
    by (simp add: getStatusCode_def room_def [symmetric] Let_def ample_grants s buffer_def r_def)
  then show ?thesis
    unfolding buffer_def by blast
qed

lemma getStatusCode_line:
  assumes hdr: "header = proto @ SP # fmt_d n @ SP # rest"
    and proto: "SP \<notin> set proto" "NUL \<notin> set proto"
    and longer: "length (fmt_d n) < length proto" and sep: "\<not> isdigit (proto ! length (fmt_d n))"
    and near: "length proto + length (fmt_d n) < 98"
    and n: "in_int n" and len: "headerLength = length header" and mem: "ample mem"
  shows "getStatusCode mem header headerLength = Inr n"
proof -
  have "SP \<notin> set (fmt_d n)" "NUL \<notin> set (fmt_d n)"
    by (auto dest!: fmt_d_set simp: isdigit_not)
  then obtain r where r: "getStatusCode mem header headerLength =
      c_atoi (fmt_d n @ drop (length (fmt_d n)) (proto @ SP # fmt_d n @ SP # r))"
    using getStatusCode_word [OF hdr proto _ _ near len mem] by blast
  have "drop (length (fmt_d n)) (proto @ SP # fmt_d n @ SP # r) =
      proto ! length (fmt_d n) # drop (Suc (length (fmt_d n))) (proto @ SP # fmt_d n @ SP # r)"
    using longer by (simp add: Cons_nth_drop_Suc [symmetric] nth_append)
  then show ?thesis
    using r n sep by (simp add: c_atoi_fmt_d)
qed

text \<open>
  A first line with no second blank among the bytes copied: the loop has nothing to stop at and
  reads behind the buffer.
\<close>

lemma getStatusCode_no_blank:
  assumes hdr: "take (min 100 headerLength) header = word @ SP # tail"
    and word: "SP \<notin> set word" "NUL \<notin> set word" and tail: "SP \<notin> set tail"
    and len: "headerLength \<le> length header" and mem: "ample mem"
  shows "getStatusCode mem header headerLength = Inl Over_Read"
proof -
  define room where "room = (if 100 < headerLength then 101 else headerLength + 1)"
  have m: "min 100 headerLength = room - Suc 0" and pos: "0 < room"
    by (auto simp: room_def)
  have s: "cstr (take (room - Suc 0) header) = word @ SP # cstr tail"
    using hdr word by (simp add: m)
  define buffer where "buffer = word @ SP # cstr tail @
     replicate (room - length (cstr (take (room - Suc 0) header))) NUL"
  have room: "length buffer = room"
    using pos length_cstr_le [of "take (room - Suc 0) header"] arg_cong [OF s, of length]
    by (simp add: buffer_def) linarith
  have "SP \<notin> set (cstr tail)"
    using tail by (auto simp: cstr_def dest: set_takeWhileD)
  then have t: "takeWhile (\<lambda>c. c \<noteq> SP) (drop (Suc (length word)) buffer) = drop (Suc (length word)) buffer"
    by (auto simp: takeWhile_eq_all_conv buffer_def)
  have "length word + 1 \<le> length buffer"
    by (simp add: buffer_def)
  then have "status_loop room buffer (length word + 1) 0 = Inl Over_Read"
    using room by (subst status_loop_eq) (simp_all add: t Let_def)
  moreover have "strchr (cstr (take (room - Suc 0) header)) SP = Some (length word)"
    using word by (simp add: s)
  moreover have "strncpy_src header (room - Suc 0) = Inr (cstr (take (room - Suc 0) header))"
    using len by (auto simp: strncpy_src_def room_def)
  ultimately show ?thesis
    using mem by (simp add: getStatusCode_def room_def [symmetric] Let_def ample_grants s buffer_def)
qed

section \<open>stripAbsURL\<close>

text \<open>\<open>strchr\<close> on a heap object that need not hold a NUL.\<close>

definition strchr_buf :: "buffer \<Rightarrow> char \<Rightarrow> nat option result" where
  "strchr_buf b c =
     (case strchr (cstr b) c of
        Some i \<Rightarrow> Inr (Some i)
      | None \<Rightarrow> if NUL \<in> set b then Inr None else Inl Over_Read)"

text \<open>
  The result is the new header, or the null pointer, and the value left in \<open>*newL\<close>. The two
  copies are checked against the sizes of both objects; a negative length is a huge one.
\<close>

definition stripAbsURL :: "allocator \<Rightarrow> buffer \<Rightarrow> nat \<Rightarrow> (buffer option \<times> int) result" where
  "stripAbsURL mem header oldLength =
     bindR (getHeaderField mem header oldLength (LF # ''Host'')) (\<lambda>field.
       case field of
         None \<Rightarrow> Inr (None, int oldLength)
       | Some host \<Rightarrow>
           let http = ''http://'';
               newLength = int oldLength - int (length http) - int (length host)
           in if \<not> mem newLength then Inr (None, newLength)
              else let toFind = snprintf 9999 (http @ host) in
              bindR (strchr_buf header SP) (\<lambda>start.
                case start of
                  None \<Rightarrow> Inl Null_Deref
                | Some k \<Rightarrow>
                    let from = k + length toFind + 1;
                        firstHalf = int k + 1;
                        secondHalf = int oldLength - int (length toFind) - firstHalf
                    in if newLength < firstHalf then Inl Over_Write
                       else if secondHalf < 0 then Inl Over_Write
                       else if int (length header) < int from + secondHalf then Inl Over_Read
                       else if newLength < firstHalf + secondHalf then Inl Over_Write
                       else Inr (Some (take (k + 1) header @ take (nat secondHalf) (drop from header)
                                  @ replicate (nat (newLength - firstHalf - secondHalf)) NUL),
                                 newLength)))"

lemma toupper_LF [simp]: "toupper c = LF \<longleftrightarrow> c = LF"
proof
  assume "toupper c = LF"
  show "c = LF"
  proof (cases "CHR ''a'' \<le> c \<and> c \<le> CHR ''z''")
    case True
    then have "of_char (char_of (of_char c - 32 :: nat) :: char) = (10 :: nat)"
      using \<open>toupper c = LF\<close> by (simp add: toupper_def)
    then have "(of_char c - 32) mod 256 = (10 :: nat)"
      by simp
    moreover have "97 \<le> (of_char c :: nat)" "of_char c \<le> (122 :: nat)"
      using True by (simp_all add: less_eq_char_def)
    ultimately show ?thesis
      by simp
  next
    case False
    then show ?thesis
      using \<open>toupper c = LF\<close> by (simp add: toupper_def split: if_splits)
  qed
qed (simp add: toupper_def)

lemma occurs_at_LF:
  assumes "occurs_at h (LF # n) j"
  shows "j < length h" and "h ! j = LF"
proof -
  have "j + Suc (length n) \<le> length h" "toupper (h ! (j + 0)) = toupper ((LF # n) ! 0)"
    using assms by (auto simp: occurs_at_iff)
  moreover have "toupper LF = LF"
    by simp
  ultimately show "j < length h" "h ! j = LF"
    by auto
qed

lemma occurs_at_LF_front:
  assumes "LF \<notin> set pre" and "j < length pre"
  shows "\<not> occurs_at (pre @ s) (LF # n) j"
proof
  assume "occurs_at (pre @ s) (LF # n) j"
  then have "(pre @ s) ! j = LF"
    by (rule occurs_at_LF)
  then show False
    using assms nth_mem [of j pre] by (simp add: nth_append)
qed

text \<open>The Host line directly after the request line.\<close>

lemma getHeaderField_Host:
  assumes hdr: "header = line @ EOL @ ''Host:'' @ replicate k SP @ host @ EOL @ post"
    and "LF \<notin> set line" and "CR \<notin> set host" and "host = [] \<or> hd host \<noteq> SP"
    and "NUL \<notin> set header" and "ample mem"
  shows "getHeaderField mem header (length header) (LF # ''Host'') = Inr (Some host)"
proof (rule getHeaderField_line)
  show h: "header = (line @ [CR]) @ (LF # ''Host'') @ CHR '':'' # replicate k SP @ host @ EOL @ post"
    using hdr by (simp add: EOL_def)
  show "\<not> occurs_at header (LF # ''Host'') j" if "j < length (line @ [CR])" for j
    unfolding h using assms(2) that by (intro occurs_at_LF_front) auto
qed (use assms in auto)

lemma stripAbsURL_absolute:
  assumes hdr: "header = meth @ SP # ''http://'' @ host @ rest"
    and field: "getHeaderField mem header (length header) (LF # ''Host'') = Inr (Some host)"
    and meth: "SP \<notin> set meth" "NUL \<notin> set meth" and short: "length host \<le> 9991" and mem: "ample mem"
  shows "stripAbsURL mem header (length header) =
     Inr (Some (meth @ SP # rest), int (length header) - 7 - int (length host))"
proof -
  have "strchr (cstr header) SP = Some (length meth)"
    using meth by (simp add: hdr)
  then have start: "strchr_buf header SP = Inr (Some (length meth))"
    by (simp add: strchr_buf_def)
  have toFind: "snprintf 9999 (''http://'' @ host) = ''http://'' @ host"
    using short by (intro snprintf_fits) simp
  have len: "length header = length meth + 8 + length host + length rest"
    by (simp add: hdr)
  have "header = (meth @ SP # ''http://'' @ host) @ rest"
    "length meth + length (''http://'' @ host) + 1 = length (meth @ SP # ''http://'' @ host)"
    by (simp_all add: hdr)
  then have tail: "drop (length meth + length (''http://'' @ host) + 1) header = rest"
    by (metis append_eq_conv_conj)
  have front: "take (length meth + 1) header = meth @ [SP]"
    by (simp add: hdr)
  show ?thesis
    unfolding stripAbsURL_def field bindR.simps option.case Let_def start toFind
    using mem tail front by (simp add: ample_grants len)
qed

section \<open>isJPG\<close>

text \<open>The two \<open>memcpy\<close>s take 10 and 99 bytes of the header, whatever its length.\<close>

definition isJPG :: "allocator \<Rightarrow> buffer \<Rightarrow> nat \<Rightarrow> int result" where
  "isJPG mem toSearch len =
     bindR (getHeaderField mem toSearch len (LF # ''Content-Type'')) (\<lambda>field.
       if strcasestr field (Some ''.jpg'') \<noteq> None \<or> strcasestr field (Some ''jpeg'') \<noteq> None then Inr 1
       else if length toSearch < 10 then Inl Over_Read
       else if strstr (cstr (take 10 toSearch)) ''GET'' = None then Inr 0
       else if length toSearch < 99 then Inl Over_Read
       else if strcasestr (Some (cstr (take 99 toSearch))) (Some ''.jpg'') = None then Inr 0
       else Inr 1)"

text \<open>
  A needle is never found at the very end of the haystack, so the type \<open>image/jpeg\<close> itself is
  not recognised.
\<close>

lemma strcasestr_suffix_missed:
  assumes "\<And>k. k < length pre \<Longrightarrow> \<not> occurs_at (pre @ n) n k"
  shows "strcasestr (Some (pre @ n)) (Some n) = None"
  using assms by (auto simp: strcasestr_None)

lemma image_jpeg_missed:
  "strcasestr (Some ''image/jpeg'') (Some ''.jpg'') = None"
  "strcasestr (Some ''image/jpeg'') (Some ''jpeg'') = None"
  by (code_simp, code_simp)

end
