(* ===== verification/Socket.thy ===== *)
theory Socket
  imports Header
begin

text \<open>
  The transfer layer: \<open>sendAll\<close> (src/functions/sendAll.c) and the receiving functions of
  src/headers/recvAll.c, over a model of what a stream socket shows a process. The kernel's
  choices are data: how the incoming bytes are cut into pieces, when the peer closes or the
  connection fails, and how much of a \<open>send\<close> is taken.
\<close>

section \<open>Stream sockets\<close>

datatype chunk = Data string | Rx_Error

datatype tx_event = Takes nat | Tx_Error

record sock =
  rx :: "chunk list"
  tx :: string
  txo :: "tx_event list"

text \<open>
  \<open>recv\<close> gives at least one and at most \<open>n\<close> bytes of what has arrived, 0 once the peer has
  closed (the list is exhausted), or an error.
\<close>

datatype received = Got string | Closed | Failed

fun recv :: "nat \<Rightarrow> chunk list \<Rightarrow> received \<times> chunk list" where
  "recv n [] = (Closed, [])"
| "recv n (Rx_Error # cs) = (Failed, cs)"
| "recv n (Data d # cs) =
     (if d = [] then recv n cs
      else (Got (take n d), if length d \<le> n then cs else Data (drop n d) # cs))"

text \<open>\<open>send\<close> takes a part of the bytes, possibly none, or fails; by default it takes all.\<close>

fun ksend :: "string \<Rightarrow> sock \<Rightarrow> nat option \<times> sock" where
  "ksend d s =
     (case txo s of
        [] \<Rightarrow> (Some (length d), s\<lparr>tx := tx s @ d\<rparr>)
      | Tx_Error # os \<Rightarrow> (None, s\<lparr>txo := os\<rparr>)
      | Takes k # os \<Rightarrow> (Some (min k (length d)), s\<lparr>tx := tx s @ take k d, txo := os\<rparr>))"

declare ksend.simps [simp del]

text \<open>The bytes that arrive before the stream ends or fails, and whether it never fails.\<close>

fun stream :: "chunk list \<Rightarrow> string" where
  "stream [] = []"
| "stream (Rx_Error # cs) = []"
| "stream (Data d # cs) = d @ stream cs"

fun clean :: "chunk list \<Rightarrow> bool" where
  "clean [] = True"
| "clean (Rx_Error # cs) = False"
| "clean (Data d # cs) = clean cs"

fun rx_size :: "chunk list \<Rightarrow> nat" where
  "rx_size [] = 0"
| "rx_size (Rx_Error # cs) = Suc (rx_size cs)"
| "rx_size (Data d # cs) = Suc (length d) + rx_size cs"

lemma recv_Got:
  assumes "recv n cs = (Got b, cs')" and "0 < n"
  shows "b \<noteq> []" and "length b \<le> n" and "stream cs = b @ stream cs'"
    and "clean cs' = clean cs" and "rx_size cs' < rx_size cs"
  using assms by (induction n cs rule: recv.induct) (auto split: if_splits)

lemma recv_Closed: "recv n cs = (Closed, cs') \<Longrightarrow> stream cs = [] \<and> clean cs \<and> cs' = []"
  by (induction n cs rule: recv.induct) (auto split: if_splits)

lemma recv_Failed: "recv n cs = (Failed, cs') \<Longrightarrow> stream cs = [] \<and> \<not> clean cs \<and> rx_size cs' < rx_size cs"
  by (induction n cs rule: recv.induct) (auto split: if_splits)

lemma recv_clean:
  assumes "clean cs" and "0 < n"
  obtains (got) b cs' where "recv n cs = (Got b, cs')" | (closed) "recv n cs = (Closed, [])"
proof (cases "recv n cs")
  case (Pair r cs')
  then show ?thesis
    using assms that recv_Closed recv_Failed by (cases r) (auto dest: recv_Closed)
qed

section \<open>sendAll\<close>

text \<open>
  \<open>bytesleft\<close> is an \<open>int\<close>, and \<open>send\<close> takes it as a \<open>size_t\<close>: a negative one asks for more
  than any buffer holds. A turn that takes nothing and leaves the kernel nothing to decide is
  repeated for ever.
\<close>

function sendAll_loop :: "buffer \<Rightarrow> int \<Rightarrow> int \<Rightarrow> int \<Rightarrow> sock \<Rightarrow> (int \<times> int \<times> sock) result" where
  "sendAll_loop buf len sent bytesleft s =
     (if sent < len then
        (if bytesleft < 0 \<or> int (length buf) < sent + bytesleft then Inl Over_Read
         else case ksend (take (nat bytesleft) (drop (nat sent) buf)) s of
                (None, s') \<Rightarrow> Inr (- 1, len, s')
              | (Some i, s') \<Rightarrow>
                  if i = 0 \<and> txo s = [] then Inl Diverge
                  else sendAll_loop buf len (sent + int i) (bytesleft - int i) s')
      else Inr (0, sent, s))"
  by pat_completeness auto
termination
  by (relation "measures [\<lambda>(buf, len, sent, left, s). length (txo s),
                          \<lambda>(buf, len, sent, left, s). nat (len - sent)]")
     (auto simp: ksend.simps split: list.splits tx_event.splits)

declare sendAll_loop.simps [simp del]

text \<open>The return value, the final \<open>*len\<close> and the socket.\<close>

definition sendAll :: "buffer \<Rightarrow> int \<Rightarrow> sock \<Rightarrow> (int \<times> int \<times> sock) result" where
  "sendAll buf len s = sendAll_loop buf len 0 (c_int len) s"

lemma ksend_Some:
  assumes "ksend d s = (Some i, s')"
  shows "i \<le> length d" and "tx s' = tx s @ take i d" and "rx s' = rx s"
    and "set (txo s') \<subseteq> set (txo s)" and "txo s = [] \<Longrightarrow> i = length d"
  using assms by (auto simp: ksend.simps min_def split: list.splits tx_event.splits)

lemma ksend_None:
  assumes "ksend d s = (None, s')"
  shows "Tx_Error \<in> set (txo s)" and "tx s' = tx s" and "rx s' = rx s"
  using assms by (auto simp: ksend.simps split: list.splits tx_event.splits)

text \<open>
  Every run: what has been sent is the front of the buffer, all of it on success; a failure is
  one the kernel reported.
\<close>

lemma take_join:
  assumes "0 \<le> sent" and "i \<le> length (take (nat left) (drop (nat sent) buf))"
  shows "take i (take (nat left) (drop (nat sent) buf)) @ take m (drop (nat (sent + int i)) buf) =
     take (i + m) (drop (nat sent) buf)"
proof -
  have "take i (take (nat left) (drop (nat sent) buf)) = take i (drop (nat sent) buf)"
    using assms(2) by simp
  moreover have "nat (sent + int i) = nat sent + i"
    using assms(1) by (simp add: nat_add_distrib)
  ultimately show ?thesis
    by (simp add: take_add add.commute)
qed

lemma sendAll_loop_sends:
  assumes "0 \<le> sent" and "sent \<le> len" and "bytesleft = len - sent" and "len \<le> int (length buf)"
  shows "\<exists>r n s'. sendAll_loop buf len sent bytesleft s = Inr (r, n, s') \<and> rx s' = rx s \<and>
     (r = 0 \<and> n = len \<and> tx s' = tx s @ take (nat (len - sent)) (drop (nat sent) buf) \<or>
      r = - 1 \<and> Tx_Error \<in> set (txo s) \<and>
        (\<exists>k < nat (len - sent). tx s' = tx s @ take k (drop (nat sent) buf)))"
  using assms
proof (induction buf len sent bytesleft s rule: sendAll_loop.induct)
  case (1 buf len sent bytesleft s)
  show ?case
  proof (cases "sent < len")
    case False
    with "1.prems" show ?thesis
      by (subst sendAll_loop.simps) simp
  next
    case True
    let ?d = "take (nat bytesleft) (drop (nat sent) buf)"
    have ok: "\<not> (bytesleft < 0 \<or> int (length buf) < sent + bytesleft)"
      using "1.prems" by simp
    have d: "length ?d = nat bytesleft"
      using "1.prems" by simp
    show ?thesis
    proof (cases "ksend ?d s")
      case (Pair r s1)
      show ?thesis
      proof (cases r)
        case None
        then have "sendAll_loop buf len sent bytesleft s = Inr (- 1, len, s1)"
          using True ok Pair by (subst sendAll_loop.simps) simp
        moreover have "Tx_Error \<in> set (txo s)" "tx s1 = tx s" "rx s1 = rx s"
          using ksend_None Pair None by blast+
        ultimately show ?thesis
          using True "1.prems" by (intro exI [of _ "- 1"] exI [of _ len] exI [of _ s1]) (auto intro: exI [of _ 0])
      next
        case (Some i)
        note k = ksend_Some [OF Pair [unfolded Some]]
        have i: "int i \<le> len - sent"
          using k(1) d "1.prems" by simp
        have live: "\<not> (i = 0 \<and> txo s = [])"
          using k(5) d True "1.prems" by auto
        have step: "sendAll_loop buf len sent bytesleft s =
            sendAll_loop buf len (sent + int i) (bytesleft - int i) s1"
          using True ok Pair Some live by (subst sendAll_loop.simps) auto
        have IH: "\<exists>r n s'. sendAll_loop buf len (sent + int i) (bytesleft - int i) s1 = Inr (r, n, s') \<and>
           rx s' = rx s1 \<and>
           (r = 0 \<and> n = len \<and>
              tx s' = tx s1 @ take (nat (len - (sent + int i))) (drop (nat (sent + int i)) buf) \<or>
            r = - 1 \<and> Tx_Error \<in> set (txo s1) \<and>
              (\<exists>k < nat (len - (sent + int i)). tx s' = tx s1 @ take k (drop (nat (sent + int i)) buf)))"
          using True ok Pair Some live i "1.prems" by (intro "1.IH") auto
        have all: "i + nat (len - (sent + int i)) = nat (len - sent)"
          using i "1.prems" by simp
        from IH show ?thesis
          unfolding step using k(2,3,4) all take_join [OF "1.prems"(1) k(1)]
          by (elim exE conjE disjE) (auto simp: add.assoc, metis add_less_cancel_left subsetD)
      qed
    qed
  qed
qed

lemma sendAll_ok:
  assumes "0 \<le> len" and "len \<le> int (length buf)" and "in_int len" and "Tx_Error \<notin> set (txo s)"
  shows "\<exists>s'. sendAll buf len s = Inr (0, len, s') \<and> tx s' = tx s @ take (nat len) buf \<and> rx s' = rx s"
  using sendAll_loop_sends [of 0 len "c_int len" buf s] assms by (auto simp: sendAll_def)

text \<open>A connection that takes everything.\<close>

lemma sendAll_plain:
  assumes "txo c = []" and "in_int (int (length d))"
  shows "sendAll d (int (length d)) c = Inr (0, int (length d), c\<lparr>tx := tx c @ d\<rparr>)"
  using assms by (simp add: sendAll_def sendAll_loop.simps ksend.simps)

lemma sendAll_too_long:
  assumes "2147483648 \<le> len" and "len < 4294967296"
  shows "sendAll buf len s = Inl Over_Read"
proof -
  have "len + 2147483648 = (len - 2147483648) + 4294967296"
    by simp
  then have "(len + 2147483648) mod 4294967296 = (len - 2147483648) mod 4294967296"
    by (simp only: mod_add_self2)
  also have "\<dots> = len - 2147483648"
    using assms by (intro mod_pos_pos_trivial) simp_all
  finally have "c_int len < 0"
    using assms by (simp add: c_int_def)
  then show ?thesis
    using assms by (simp add: sendAll_def sendAll_loop.simps)
qed

text \<open>
  From four gigabytes on the low 32 bits of the length may be no negative number: when they are sent,
  nothing is left to send, the bytes sent are still fewer than the length, and \<open>send\<close> is called with a
  size of 0 for ever, unless the connection fails.
\<close>

lemma sendAll_loop_wraps:
  assumes "0 \<le> sent" and "0 \<le> bytesleft" and "sent + bytesleft < len" and "sent + bytesleft \<le> int (length buf)"
  shows "sendAll_loop buf len sent bytesleft s = Inl Diverge \<or>
    Tx_Error \<in> set (txo s) \<and> (\<exists>s'. sendAll_loop buf len sent bytesleft s = Inr (- 1, len, s'))"
  using assms
proof (induction buf len sent bytesleft s rule: sendAll_loop.induct)
  case (1 buf len sent bytesleft s)
  let ?d = "take (nat bytesleft) (drop (nat sent) buf)"
  have ok: "sent < len" "\<not> (bytesleft < 0 \<or> int (length buf) < sent + bytesleft)"
    using "1.prems" by auto
  have d: "length ?d \<le> nat bytesleft"
    by simp
  obtain r s1 where k: "ksend ?d s = (r, s1)"
    by (cases "ksend ?d s")
  show ?case
  proof (cases r)
    case None
    then show ?thesis
      using ok k ksend_None(1) by (subst (1 2) sendAll_loop.simps) fastforce
  next
    case (Some i)
    note ks = ksend_Some [OF k [unfolded Some]]
    show ?thesis
    proof (cases "i = 0 \<and> txo s = []")
      case True
      then show ?thesis
        using ok k Some by (subst (1 2) sendAll_loop.simps) simp
    next
      case live: False
      have step: "sendAll_loop buf len sent bytesleft s = sendAll_loop buf len (sent + int i) (bytesleft - int i) s1"
        using ok k Some live by (subst sendAll_loop.simps) auto
      have "int i \<le> bytesleft"
        using ks(1) d "1.prems"(2) by linarith
      then have "sendAll_loop buf len (sent + int i) (bytesleft - int i) s1 = Inl Diverge \<or>
          Tx_Error \<in> set (txo s1) \<and> (\<exists>s'. sendAll_loop buf len (sent + int i) (bytesleft - int i) s1 = Inr (- 1, len, s'))"
        using ok k Some live "1.prems" by (intro "1.IH") auto
      then show ?thesis
        unfolding step using ks(4) by auto
    qed
  qed
qed

lemma c_int_less: "2147483648 \<le> len \<Longrightarrow> c_int len < len"
  using pos_mod_bound [of 4294967296 "len + 2147483648"] by (simp add: c_int_def)

lemma sendAll_wraps:
  assumes "2147483648 \<le> len"
  shows "c_int len < 0 \<or> int (length buf) < c_int len \<Longrightarrow> sendAll buf len s = Inl Over_Read"
    and "0 \<le> c_int len \<Longrightarrow> c_int len \<le> int (length buf) \<Longrightarrow> sendAll buf len s = Inl Diverge \<or>
      Tx_Error \<in> set (txo s) \<and> (\<exists>s'. sendAll buf len s = Inr (- 1, len, s'))"
  using assms c_int_less [OF assms] sendAll_loop_wraps [of 0 "c_int len" len buf s]
  by (auto simp: sendAll_def sendAll_loop.simps [of buf len 0])

end
