(* ===== verification/Recv.thy ===== *)
theory Recv
  imports Socket
begin

text \<open>
  The receiving functions of src/headers/recvAll.c: \<open>recvHeader\<close>, \<open>recvAll\<close>,
  \<open>recvAll_NoData\<close> and the two that read a mapped memory block, \<open>recvHeader_Mem\<close> and
  \<open>recvBody_Mem\<close>.
\<close>

section \<open>recvHeader\<close>

text \<open>
  The bytes arrive one at a time and enter a window of four at its front, so the window shows
  the last four bytes in reverse. \<open>strstr\<close> sees the window as a C string.
\<close>

definition header_end :: "buffer \<Rightarrow> bool" where
  "header_end inputChar \<longleftrightarrow> strstr (cstr inputChar) [LF, CR, LF, CR] \<noteq> None"

text \<open>
  How the loop ends: with a whole header, with what came before the peer closed, or with a null
  pointer after an error; \<open>retVal\<close> is the bytes stored so far.
\<close>

datatype header_loop = Complete buffer | Cut buffer | Broken nat

function recvHeader_loop ::
  "allocator \<Rightarrow> buffer \<Rightarrow> buffer \<Rightarrow> chunk list \<Rightarrow> header_loop \<times> chunk list" where
  "recvHeader_loop mem inputChar retVal cs =
     (case recv 1 cs of
        (Failed, cs') \<Rightarrow> (Broken (length retVal), cs')
      | (Closed, cs') \<Rightarrow> (Cut retVal, cs')
      | (Got b, cs') \<Rightarrow>
          if \<not> mem (int (length retVal) + int (length b)) then (Broken (length retVal), cs')
          else let inputChar' = take 4 (b @ inputChar);
                   retVal' = retVal @ b
               in if header_end inputChar' then (Complete retVal', cs')
                  else recvHeader_loop mem inputChar' retVal' cs')"
  by pat_completeness auto
termination
  by (relation "measure (\<lambda>(mem, w, r, cs). rx_size cs)") (auto dest: recv_Got(5) [OF sym])

declare recvHeader_loop.simps [simp del]

text \<open>The body length announced by a whole header.\<close>

definition announced :: "allocator \<Rightarrow> buffer \<Rightarrow> int result" where
  "announced mem header =
     bindR (getHeaderField mem header (length header) ''Content-Length'') (\<lambda>bLength.
       case bLength of
         Some v \<Rightarrow> Inr (atoi v)
       | None \<Rightarrow>
           bindR (getStatusCode mem header (length header)) (\<lambda>code.
             Inr (if code = 200 then - 1 else 0)))"

text \<open>The returned pointer, \<open>*headerLength\<close>, \<open>*bodyLength\<close> and what is left to receive.\<close>

definition recvHeader ::
  "allocator \<Rightarrow> chunk list \<Rightarrow> (buffer option \<times> int \<times> int \<times> chunk list) result" where
  "recvHeader mem cs =
     (case recvHeader_loop mem (replicate 4 NUL) [] cs of
        (Broken n, cs') \<Rightarrow> Inr (None, int n, 0, cs')
      | (Cut r, cs') \<Rightarrow> Inr (if r = [] then None else Some r, int (length r), 0, cs')
      | (Complete r, cs') \<Rightarrow>
          bindR (announced mem r) (\<lambda>bodyLength. Inr (Some r, int (length r), bodyLength, cs')))"

subsection \<open>The header is the shortest prefix that ends with an empty line\<close>

abbreviation blank_line :: string where "blank_line \<equiv> [CR, LF, CR, LF]"

text \<open>Whether a text has just ended with an empty line.\<close>

definition ends_blank :: "string \<Rightarrow> bool" where
  "ends_blank s \<longleftrightarrow> suffix blank_line s"

lemma header_end_iff:
  assumes "length w = 4"
  shows "header_end w \<longleftrightarrow> w = [LF, CR, LF, CR]"
proof
  assume "header_end w"
  then obtain i where i: "find_sub [LF, CR, LF, CR] (cstr w) = Some i"
    by (auto simp: header_end_def strstr_def)
  have "i + 4 \<le> length (cstr w)"
    using find_sub_Some [OF i] by simp
  moreover have "length (cstr w) \<le> 4"
    using length_cstr_le [of w] assms by simp
  ultimately have zero: "i = 0" and len: "length (cstr w) = 4"
    by simp_all
  have "prefix [LF, CR, LF, CR] (cstr w)"
    using find_sub_Some [OF i] zero by simp
  then have "cstr w = [LF, CR, LF, CR]"
    using len by (auto simp: prefix_def)
  moreover have "cstr w = w"
    using len assms takeWhile_eq_take [of "\<lambda>c. c \<noteq> NUL" w] by (simp add: cstr_def)
  ultimately show "w = [LF, CR, LF, CR]"
    by simp
qed (simp add: header_end_def strstr_def)

text \<open>The window after the bytes \<open>r\<close>.\<close>

definition window :: "string \<Rightarrow> buffer" where
  "window r = take 4 (rev r @ replicate 4 NUL)"

lemma length_window [simp]: "length (window r) = 4"
  by (simp add: window_def)

lemma window_Nil: "window [] = replicate 4 NUL"
  by (simp add: window_def)

lemma window_snoc: "c # take 3 (window r) = window (r @ [c])"
  by (simp add: window_def take_Cons')

lemma window_end: "header_end (window r) \<longleftrightarrow> ends_blank r"
proof -
  have "header_end (window r) \<longleftrightarrow> window r = rev blank_line"
    by (simp add: header_end_iff)
  also have "\<dots> \<longleftrightarrow> take 4 (rev r) = rev blank_line"
  proof (cases "4 \<le> length r")
    case False
    then have "NUL \<in> set (window r)"
      by (simp add: window_def)
    moreover have "length (take 4 (rev r)) \<noteq> length (rev blank_line)"
      using False by simp
    then have "take 4 (rev r) \<noteq> rev blank_line"
      by metis
    ultimately show ?thesis
      by auto
  qed (simp add: window_def)
  also have "\<dots> \<longleftrightarrow> prefix (rev blank_line) (rev r)"
  proof -
    have "length (rev blank_line) = 4"
      by simp
    moreover have "take 4 (rev r) = rev blank_line \<Longrightarrow> 4 \<le> length (rev r)"
      by (drule arg_cong [where f = length]) simp
    ultimately show ?thesis
      unfolding prefix_take_iff by metis
  qed
  also have "\<dots> \<longleftrightarrow> ends_blank r"
    by (simp add: ends_blank_def suffix_to_prefix)
  finally show ?thesis .
qed

lemma recvHeader_loop_complete:
  assumes "clean cs" and "ample mem" and "retVal @ stream cs = h @ rest"
    and "length retVal < length h" and "ends_blank h"
    and "\<And>k. length retVal < k \<Longrightarrow> k < length h \<Longrightarrow> \<not> ends_blank (take k h)"
  shows "\<exists>cs'. recvHeader_loop mem (window retVal) retVal cs = (Complete h, cs') \<and>
     stream cs' = rest \<and> clean cs'"
  using assms
proof (induction "rx_size cs" arbitrary: cs retVal rule: less_induct)
  case less
  have "stream cs \<noteq> []"
    using less.prems(3,4) by auto
  then obtain b cs1 where r: "recv 1 cs = (Got b, cs1)"
    using less.prems(1) recv_clean [of cs 1] recv_Closed by (metis zero_less_one)
  note g = recv_Got [OF r zero_less_one]
  obtain c where b: "b = [c]"
    using g(1,2) by (cases b) auto
  have next_eq: "(retVal @ [c]) @ stream cs1 = h @ rest"
    using less.prems(3) g(3) b by simp
  have c: "take (Suc (length retVal)) h = retVal @ [c]"
    using arg_cong [OF next_eq, of "take (Suc (length retVal))"] less.prems(4) by simp
  have unfold: "recvHeader_loop mem (window retVal) retVal cs =
      (if ends_blank (retVal @ [c]) then (Complete (retVal @ [c]), cs1)
       else recvHeader_loop mem (window (retVal @ [c])) (retVal @ [c]) cs1)"
    using less.prems(2) r b
    by (subst recvHeader_loop.simps) (simp add: ample_grants window_snoc window_end Let_def)
  show ?case
  proof (cases "Suc (length retVal) = length h")
    case True
    then have "h = retVal @ [c]"
      using c by simp
    then show ?thesis
      using unfold next_eq g(4) less.prems(1,5) by auto
  next
    case False
    then have more: "Suc (length retVal) < length h"
      using less.prems(4) by simp
    then have "\<not> ends_blank (retVal @ [c])"
      using less.prems(6) [of "Suc (length retVal)"] c by simp
    moreover have "\<exists>cs'. recvHeader_loop mem (window (retVal @ [c])) (retVal @ [c]) cs1 = (Complete h, cs') \<and>
        stream cs' = rest \<and> clean cs'"
      using less.prems more g(4,5) next_eq by (intro less.hyps) auto
    ultimately show ?thesis
      using unfold by simp
  qed
qed

section \<open>recvAll\<close>

text \<open>
  The body is received behind the header in an object of \<open>headerLen + bodyLen\<close> bytes. Each
  \<open>recv\<close> may give up to 19999 bytes, and all of them are copied. The out-parameters are part
  of the result when a block is returned. \<open>realloc\<close> to no bytes frees the object and gives a
  null pointer.
\<close>

function recvAll_loop :: "int \<Rightarrow> buffer \<Rightarrow> chunk list \<Rightarrow> (buffer option \<times> chunk list) result" where
  "recvAll_loop bodyLen body cs =
     (if int (length body) < bodyLen then
        (case recv 19999 cs of
           (Failed, cs') \<Rightarrow> Inr (None, cs')
         | (Closed, cs') \<Rightarrow> Inr (Some body, cs')
         | (Got b, cs') \<Rightarrow>
             if bodyLen < int (length body) + int (length b) then Inl Over_Write
             else recvAll_loop bodyLen (body @ b) cs')
      else Inr (Some body, cs))"
  by pat_completeness auto
termination
  by (relation "measure (\<lambda>(n, body, cs). rx_size cs)") (auto dest: recv_Got(5) [OF sym])

declare recvAll_loop.simps [simp del]

definition recvAll ::
  "allocator \<Rightarrow> chunk list \<Rightarrow> ((buffer \<times> int \<times> int) option \<times> chunk list) result" where
  "recvAll mem cs =
     bindR (recvHeader mem cs) (\<lambda>(header, headerLen, bodyLen, cs1).
       case header of
         None \<Rightarrow> Inr (None, cs1)
       | Some h \<Rightarrow>
           if bodyLen = 0 then Inr (Some (h, headerLen, 0), cs1)
           else if headerLen + bodyLen = 0 \<or> \<not> mem (headerLen + bodyLen) then Inr (None, cs1)
           else bindR (recvAll_loop bodyLen [] cs1) (\<lambda>(body, cs2).
             case body of
               None \<Rightarrow> Inr (None, cs2)
             | Some d \<Rightarrow> Inr (Some (take (nat (headerLen + bodyLen)) h @ d, headerLen, int (length d)), cs2)))"

section \<open>recvAll_NoData\<close>

text \<open>The return value, \<open>*bodyLength\<close> and what is left to receive.\<close>

function count_loop :: "int \<Rightarrow> int \<Rightarrow> int \<Rightarrow> chunk list \<Rightarrow> int \<times> int \<times> chunk list" where
  "count_loop bLen retVal bodyLength cs =
     (if bodyLength < bLen then
        (case recv 19999 cs of
           (Failed, cs') \<Rightarrow> (- 1, bodyLength, cs')
         | (Closed, cs') \<Rightarrow> (retVal, bodyLength, cs')
         | (Got b, cs') \<Rightarrow> count_loop bLen (retVal + int (length b)) (bodyLength + int (length b)) cs')
      else (retVal, bodyLength, cs))"
  by pat_completeness auto
termination
  by (relation "measure (\<lambda>(n, r, b, cs). rx_size cs)") (auto dest: recv_Got(5) [OF sym])

declare count_loop.simps [simp del]

definition recvAll_NoData :: "allocator \<Rightarrow> chunk list \<Rightarrow> (int \<times> int \<times> chunk list) result" where
  "recvAll_NoData mem cs =
     bindR (recvHeader mem cs) (\<lambda>(header, hLen, bLen, cs1). Inr (count_loop bLen hLen 0 cs1))"

lemma count_loop_all:
  assumes "clean cs" and "int (length (stream cs)) \<le> bLen - bodyLength"
  shows "\<exists>cs'. count_loop bLen retVal bodyLength cs =
     (retVal + int (length (stream cs)), bodyLength + int (length (stream cs)), cs')"
  using assms
proof (induction bLen retVal bodyLength cs rule: count_loop.induct)
  case (1 bLen retVal bodyLength cs)
  show ?case
  proof (cases "bodyLength < bLen")
    case False
    then have "stream cs = []"
      using "1.prems"(2) by (cases "stream cs") auto
    with False show ?thesis
      by (subst count_loop.simps) simp
  next
    case True
    have "0 < (19999 :: nat)"
      by simp
    with "1.prems"(1) consider (got) b cs' where "recv 19999 cs = (Got b, cs')"
      | (closed) "recv 19999 cs = (Closed, [])"
      by (rule recv_clean)
    then show ?thesis
    proof cases
      case closed
      then show ?thesis
        using True by (subst count_loop.simps) (simp add: recv_Closed)
    next
      case (got b cs')
      note g = recv_Got [OF got]
      have "\<exists>cs''. count_loop bLen (retVal + int (length b)) (bodyLength + int (length b)) cs' =
          (retVal + int (length b) + int (length (stream cs')),
           bodyLength + int (length b) + int (length (stream cs')), cs'')"
        using True g(3,4) "1.prems" got by (intro "1.IH" [OF True got [symmetric]]) auto
      moreover have "count_loop bLen retVal bodyLength cs =
          count_loop bLen (retVal + int (length b)) (bodyLength + int (length b)) cs'"
        using True got by (subst count_loop.simps) simp
      moreover have "int (length (stream cs)) = int (length b) + int (length (stream cs'))"
        using g(3) by simp
      ultimately show ?thesis
        by (simp only: add.assoc)
    qed
  qed
qed

section \<open>recvHeader_Mem and recvBody_Mem\<close>

text \<open>\<open>strstr\<close> for the empty line in a memory block that need not hold a NUL.\<close>

definition find_blank_line :: "buffer \<Rightarrow> nat option result" where
  "find_blank_line block =
     (case strstr (cstr block) blank_line of
        Some i \<Rightarrow> Inr (Some i)
      | None \<Rightarrow> if NUL \<in> set block then Inr None else Inl Over_Read)"

definition recvHeader_Mem :: "allocator \<Rightarrow> buffer \<Rightarrow> (buffer option \<times> int \<times> int) result" where
  "recvHeader_Mem mem block =
     bindR (find_blank_line block) (\<lambda>endOfHeader.
       case endOfHeader of
         None \<Rightarrow> Inr (None, 0, 0)
       | Some i \<Rightarrow>
           let headerLength = i + length blank_line in
           if \<not> mem (int headerLength) then Inr (None, int headerLength, 0)
           else let retval = take headerLength block in
             bindR (announced mem retval) (\<lambda>bodyLength.
               Inr (Some retval, int headerLength, bodyLength)))"

text \<open>The returned pointer and \<open>*bytesCopied\<close>, which the malformed case does not assign.\<close>

definition recvBody_Mem ::
  "allocator \<Rightarrow> buffer \<Rightarrow> int \<Rightarrow> bool \<Rightarrow> (buffer option \<times> int option) result" where
  "recvBody_Mem mem block bodyLength isHeader =
     (if \<not> isHeader then
        let retSize = (if int SEGMENTSIZE < bodyLength then int SEGMENTSIZE else bodyLength) in
        if \<not> mem retSize then Inr (None, None)
        else if retSize < 0 \<or> int (length block) < retSize then Inl Over_Read
        else Inr (Some (take (nat retSize) block), Some retSize)
      else bindR (find_blank_line block) (\<lambda>endOfHeader.
        case endOfHeader of
          None \<Rightarrow> Inr (None, None)
        | Some i \<Rightarrow>
            let at = i + length blank_line;
                bytesCopied = int SEGMENTSIZE - int at
            in if \<not> mem bytesCopied then Inr (None, Some bytesCopied)
               else if bytesCopied < 0 \<or> int (length block) < int at + bytesCopied then Inl Over_Read
               else Inr (Some (take (nat bytesCopied) (drop at block)), Some bytesCopied)))"

text \<open>The two halves of a block that holds a header and a body of the block's size.\<close>

lemma find_blank_line_at:
  assumes "NUL \<notin> set h" and "find_sub blank_line (h @ butlast blank_line) = None"
  shows "find_blank_line (h @ blank_line @ rest) = Inr (Some (length h))"
proof -
  have "cstr (h @ blank_line @ rest) = h @ blank_line @ cstr rest"
    using assms(1) by simp
  then show ?thesis
    using find_sub_append [OF assms(2)] by (simp add: find_blank_line_def strstr_def)
qed

lemma block_split:
  assumes len: "length block = SEGMENTSIZE" and blk: "block = h @ blank_line @ rest"
    and h: "NUL \<notin> set h" "find_sub blank_line (h @ butlast blank_line) = None" and mem: "ample mem"
  shows "recvBody_Mem mem block n True = Inr (Some rest, Some (int (length rest)))"
    and "announced mem (h @ blank_line) = Inr b \<Longrightarrow>
      recvHeader_Mem mem block = Inr (Some (h @ blank_line), int (length h) + 4, b)"
proof -
  have f: "find_blank_line block = Inr (Some (length h))"
    unfolding blk using h by (rule find_blank_line_at)
  have l: "SEGMENTSIZE = length h + 4 + length rest"
    using len blk by simp
  have d: "drop (Suc (Suc (Suc (Suc (length h))))) block = rest"
    "take (Suc (Suc (Suc (Suc (length h))))) block = h @ blank_line"
    by (simp_all add: blk)
  show "recvBody_Mem mem block n True = Inr (Some rest, Some (int (length rest)))"
    using f l d mem len by (simp add: recvBody_Mem_def Let_def ample_grants)
  show "recvHeader_Mem mem block = Inr (Some (h @ blank_line), int (length h) + 4, b)"
    if "announced mem (h @ blank_line) = Inr b"
    using f d mem that by (simp add: recvHeader_Mem_def Let_def ample_grants)
qed

end
