(* ===== verification/Response.thy ===== *)
theory Response
  imports Recv
begin

text \<open>
  \<open>sendResponse\<close> and \<open>sendError\<close> (src/functions/sendResponse.c and sendError.c): the header text,
  the error pages, and the sending over a socket. A response is the header and the body that are
  handed to the socket or to the shared memory. The lemmas show that the program's own receiving
  functions take such a message apart again.
\<close>

section \<open>The message\<close>

definition response_header :: "int \<Rightarrow> string \<Rightarrow> string option \<Rightarrow> int \<Rightarrow> string \<Rightarrow> string" where
  "response_header status title headers len mime =
     snprintf 9999 (PROTOCOL @ SP # fmt_d status @ SP # title @ SP # EOL @
       (case headers of None \<Rightarrow> [] | Some h \<Rightarrow> h) @
       ''Content-Length: '' @ fmt_d len @ SP # EOL @
       ''Content-Type: '' @ mime @ SP # EOL @ EOL)"

text \<open>\<open>length\<close> bytes are read from \<open>body\<close>.\<close>

definition response :: "int \<Rightarrow> string \<Rightarrow> string option \<Rightarrow> string \<Rightarrow> int \<Rightarrow> buffer \<Rightarrow> (buffer \<times> buffer) result" where
  "response status title headers mime len body =
     (if len < 0 \<or> int (length body) < len then Inl Over_Read
      else Inr (response_header status title headers len mime, take (nat len) body))"

text \<open>Over a socket, a failure to send the header does not keep the body from being sent.\<close>

definition sendResponse_socket :: "buffer \<times> buffer \<Rightarrow> sock \<Rightarrow> sock result" where
  "sendResponse_socket r c =
     bindR (sendAll (fst r) (int (length (fst r))) c) (\<lambda>(ret, n, c1).
     bindR (sendAll (snd r) (int (length (snd r))) c1) (\<lambda>(ret', n', c2). Inr c2))"

definition error_page :: "int \<Rightarrow> string \<Rightarrow> string \<Rightarrow> string" where
  "error_page status title text =
     snprintf 9999 (''<html><head><title>'' @ fmt_d status @ SP # title @ ''</title></head>'' @ [LF] @
       ''<body bgcolor='' @ [CHR 0x22] @ ''#CC9999'' @ [CHR 0x22] @ ''><h4>'' @ fmt_d status @ SP # title @
       ''</h4>'' @ [LF] @ text @ ''<hr><address><a href='' @ [CHR 0x22] @ SERVER_URL @ [CHR 0x22] @ ''>'' @
       SERVER_NAME @ ''</a></address>'' @ [LF] @ ''</body></html>'' @ [LF])"

definition sendError :: "int \<Rightarrow> string \<Rightarrow> string option \<Rightarrow> string \<Rightarrow> (buffer \<times> buffer) result" where
  "sendError status title headers text =
     (let buf = error_page status title text in
      response status title headers ''text/html'' (int (length buf)) buf)"

section \<open>Where the header ends\<close>

definition text_lines :: "string list \<Rightarrow> string" where
  "text_lines ls = concat (map (\<lambda>l. l @ EOL) ls) @ EOL"

definition plain_line :: "string \<Rightarrow> bool" where
  "plain_line l \<longleftrightarrow> l \<noteq> [] \<and> CR \<notin> set l \<and> LF \<notin> set l"

lemma text_lines_Cons: "text_lines (l # ls) = l @ CR # LF # text_lines ls"
  by (simp add: text_lines_def EOL_def)

lemma text_lines_Nil: "text_lines [] = [CR, LF]"
  by (simp add: text_lines_def EOL_def)

lemma text_lines_blank:
  assumes "\<forall>l \<in> set ls. plain_line l"
    and "text_lines ls ! i = CR" and "text_lines ls ! (i + 2) = CR" and "i + 2 < length (text_lines ls)"
  shows "i + 4 = length (text_lines ls)"
  using assms
proof (induction ls arbitrary: i)
  case Nil
  then show ?case
    by (simp add: text_lines_Nil)
next
  case (Cons l ls)
  have l: "l \<noteq> []" "CR \<notin> set l" "LF \<notin> set l"
    using Cons.prems(1) by (auto simp: plain_line_def)
  have at: "text_lines (l # ls) ! i =
      (if i < length l then l ! i else if i = length l then CR else if i = Suc (length l) then LF
       else text_lines ls ! (i - Suc (Suc (length l))))" for i
    by (simp add: text_lines_Cons nth_append nth_Cons' less_antisym)
  have "\<not> i < length l" "i \<noteq> Suc (length l)"
    using Cons.prems(2) l by (auto simp: at in_set_conv_nth split: if_splits)
  then consider "i = length l" | "Suc (Suc (length l)) \<le> i"
    by linarith
  then show ?case
  proof cases
    case 1
    then have "text_lines ls ! 0 = CR"
      using Cons.prems(3) by (simp add: at)
    moreover have "text_lines ls ! 0 \<noteq> CR" if "ls = m # ms" for m ms
    proof -
      have "plain_line m"
        using Cons.prems(1) that by simp
      then show ?thesis
        unfolding that text_lines_Cons by (cases m) (auto simp: plain_line_def)
    qed
    ultimately have "ls = []"
      by (cases ls) auto
    then show ?thesis
      using 1 by (simp add: text_lines_Cons text_lines_Nil)
  next
    case 2
    define j where "j = i - Suc (Suc (length l))"
    have j: "i = j + Suc (Suc (length l))"
      using 2 by (simp add: j_def)
    have "j + 4 = length (text_lines ls)"
    proof (rule Cons.IH)
      show "text_lines ls ! j = CR"
        using Cons.prems(2) by (simp add: at j)
      have "text_lines (l # ls) ! (j + 2 + Suc (Suc (length l))) = CR"
        using Cons.prems(3) by (simp add: j)
      then show "text_lines ls ! (j + 2) = CR"
        by (simp add: at)
      show "j + 2 < length (text_lines ls)"
        using Cons.prems(4) by (simp add: j text_lines_Cons)
    qed (use Cons.prems(1) in simp)
    then show ?thesis
      by (simp add: j text_lines_Cons)
  qed
qed

lemma text_lines_ends:
  "ls \<noteq> [] \<Longrightarrow> ends_blank (text_lines ls)"
proof (induction ls)
  case (Cons l ls)
  then show ?case
    by (cases ls) (auto simp: ends_blank_def text_lines_Cons text_lines_Nil suffix_def)
qed simp

lemma text_lines_first_blank:
  assumes "\<forall>l \<in> set ls. plain_line l" and "k < length (text_lines ls)"
  shows "\<not> ends_blank (take k (text_lines ls))"
proof
  assume "ends_blank (take k (text_lines ls))"
  then obtain p where p: "take k (text_lines ls) = p @ [CR, LF, CR, LF]"
    by (auto simp: ends_blank_def suffix_def)
  have k: "k = length p + 4"
    using arg_cong [OF p, of length] assms(2) by simp
  have "text_lines ls ! i = (p @ [CR, LF, CR, LF]) ! i" if "i < k" for i
    using p that by (metis nth_take)
  then have "text_lines ls ! length p = CR" "text_lines ls ! (length p + 2) = CR"
    using k by (simp_all add: nth_append)
  then have "length p + 4 = length (text_lines ls)"
    using assms k by (intro text_lines_blank) auto
  then show False
    using k assms(2) by simp
qed


section \<open>Receiving what was sent\<close>

text \<open>The fields of a response are on lines of their own; no dash stands before the length.\<close>

definition field_text :: "string \<Rightarrow> bool" where
  "field_text t \<longleftrightarrow> CR \<notin> set t \<and> LF \<notin> set t \<and> NUL \<notin> set t"

definition header_option :: "string option \<Rightarrow> string list" where
  "header_option h = (case h of None \<Rightarrow> [] | Some t \<Rightarrow> [take (length t - 2) t])"

definition wf_response :: "int \<Rightarrow> string \<Rightarrow> string option \<Rightarrow> string \<Rightarrow> bool" where
  "wf_response status title headers mime \<longleftrightarrow>
     0 \<le> status \<and> field_text title \<and> CHR ''-'' \<notin> set title \<and> field_text mime \<and>
     (case headers of None \<Rightarrow> True
      | Some t \<Rightarrow> (\<exists>l. t = l @ EOL \<and> l \<noteq> [] \<and> field_text l \<and> CHR ''-'' \<notin> set l))"

definition before_length :: "int \<Rightarrow> string \<Rightarrow> string option \<Rightarrow> string" where
  "before_length status title headers = PROTOCOL @ SP # fmt_d status @ SP # title @ SP # EOL @
     (case headers of None \<Rightarrow> [] | Some h \<Rightarrow> h)"

definition response_text :: "int \<Rightarrow> string \<Rightarrow> string option \<Rightarrow> int \<Rightarrow> string \<Rightarrow> string" where
  "response_text status title headers len mime =
     before_length status title headers @ ''Content-Length'' @ CHR '':'' # replicate 1 SP @
     (fmt_d len @ [SP]) @ EOL @ (''Content-Type: '' @ mime @ SP # EOL @ EOL)"

lemma response_header_text:
  "length (response_text status title headers len mime) < 9999 \<Longrightarrow>
     response_header status title headers len mime = response_text status title headers len mime"
  by (simp add: response_header_def response_text_def before_length_def)

lemma fmt_d_plain: "CR \<notin> set (fmt_d i)" "LF \<notin> set (fmt_d i)" "NUL \<notin> set (fmt_d i)"
  by (rule fmt_d_notin, simp add: isdigit_not, simp)+

lemma dash_no_digit: "\<not> isdigit (CHR ''-'')"
  by (simp add: isdigit_def less_eq_char_def)

lemma fmt_d_no_dash: "0 \<le> i \<Longrightarrow> CHR ''-'' \<notin> set (fmt_d i)"
  using dash_no_digit by (auto simp: fmt_d_def dest: dec_nat_digits)

lemma response_text_lines:
  assumes "wf_response status title headers mime"
  shows "response_text status title headers len mime = text_lines
    ([PROTOCOL @ SP # fmt_d status @ SP # title @ [SP]] @ header_option headers @
     [''Content-Length: '' @ fmt_d len @ [SP], ''Content-Type: '' @ mime @ [SP]])"
  using assms
  by (auto simp: response_text_def before_length_def text_lines_def header_option_def wf_response_def EOL_def
      split: option.splits)

lemma response_lines_plain:
  assumes "wf_response status title headers mime"
    and "l \<in> set ([PROTOCOL @ SP # fmt_d status @ SP # title @ [SP]] @ header_option headers @
     [''Content-Length: '' @ fmt_d len @ [SP], ''Content-Type: '' @ mime @ [SP]])"
  shows "plain_line l"
  using assms fmt_d_plain
  by (auto simp: plain_line_def wf_response_def field_text_def header_option_def PROTOCOL_def EOL_def
      split: option.splits)

lemma response_text_plain:
  "wf_response status title headers mime \<Longrightarrow> NUL \<notin> set (response_text status title headers len mime)"
  using fmt_d_plain
  by (auto simp: response_text_def before_length_def wf_response_def field_text_def PROTOCOL_def EOL_def
      split: option.splits)

lemma toupper_fixed:
  assumes "(of_char x :: nat) < 65"
  shows "toupper c = x \<longleftrightarrow> c = x"
proof
  assume up: "toupper c = x"
  show "c = x"
  proof (cases "CHR ''a'' \<le> c \<and> c \<le> CHR ''z''")
    case True
    then have "of_char (char_of (of_char c - 32 :: nat) :: char) < (65 :: nat)"
      using up assms by (simp add: toupper_def)
    then have "(of_char c - 32) mod 256 < (65 :: nat)"
      by simp
    moreover have "97 \<le> (of_char c :: nat)" "of_char c \<le> (122 :: nat)"
      using True by (simp_all add: less_eq_char_def)
    ultimately show ?thesis
      by simp
  next
    case False
    then show ?thesis
      using up by (simp add: toupper_def split: if_splits)
  qed
next
  assume "c = x"
  then show "toupper c = x"
    using assms by (auto simp: toupper_def less_eq_char_def)
qed

text \<open>A name cannot stand before a prefix that lacks one of its characters.\<close>

lemma occurs_at_lacks:
  assumes "j < length pre" and "x \<notin> set pre" and "x \<notin> set n1" and "(of_char x :: nat) < 65"
  shows "\<not> occurs_at (pre @ (n1 @ x # n2) @ post) (n1 @ x # n2) j"
proof
  let ?h = "pre @ (n1 @ x # n2) @ post"
  assume "occurs_at ?h (n1 @ x # n2) j"
  then have "toupper (?h ! (j + length n1)) = toupper ((n1 @ x # n2) ! length n1)"
    by (auto simp: occurs_at_iff)
  moreover have "toupper x = x"
    using toupper_fixed [OF assms(4)] by simp
  ultimately have x: "?h ! (j + length n1) = x"
    using toupper_fixed [OF assms(4)] by simp
  show False
  proof (cases "j + length n1 < length pre")
    case True
    then show False
      using x assms(2) nth_mem [OF True] by (simp add: nth_append)
  next
    case False
    then have "j + length n1 - length pre < length n1"
      using assms(1) by simp
    then show False
      using x assms(3) False nth_mem [of "j + length n1 - length pre" n1] by (simp add: nth_append)
  qed
qed

lemma announced_response:
  assumes "wf_response status title headers mime" and "in_int len" and "ample al"
  shows "announced al (response_text status title headers len mime) = Inr len"
proof -
  let ?h = "response_text status title headers len mime"
  have pre: "CHR ''-'' \<notin> set (before_length status title headers)"
    using assms(1) fmt_d_no_dash
    by (auto simp: before_length_def wf_response_def PROTOCOL_def EOL_def split: option.splits)
  have name: "''Content-Length'' = ''Content'' @ CHR ''-'' # ''Length''"
    by simp
  have "getHeaderField al ?h (length ?h) ''Content-Length'' = Inr (Some (fmt_d len @ [SP]))"
  proof (rule getHeaderField_line [OF response_text_def refl])
    show "NUL \<notin> set ?h"
      using assms(1) by (rule response_text_plain)
    show "\<not> occurs_at ?h ''Content-Length'' j" if "j < length (before_length status title headers)" for j
      unfolding response_text_def name using that pre by (rule occurs_at_lacks) simp_all
    show "fmt_d len @ [SP] = [] \<or> hd (fmt_d len @ [SP]) \<noteq> SP"
      using fmt_d_set [of "hd (fmt_d len)" len] by (auto simp: isdigit_not)
    show "CR \<notin> set (fmt_d len @ [SP])"
      using fmt_d_plain(1) by simp
  qed (use assms(3) in simp_all)
  moreover have "atoi (fmt_d len @ [SP]) = len"
    using assms(2) by (intro atoi_fmt_d) (simp_all add: isdigit_not)
  ultimately show ?thesis
    by (simp add: announced_def)
qed

text \<open>A header of whole lines is received up to its empty line, and no further.\<close>

lemma recvHeader_lines:
  assumes "\<forall>l \<in> set ls. plain_line l" and "ls \<noteq> []" and "clean cs" and "stream cs = text_lines ls @ rest"
    and "ample al" and "announced al (text_lines ls) = Inr b"
  shows "\<exists>cs'. recvHeader al cs = Inr (Some (text_lines ls), int (length (text_lines ls)), b, cs') \<and>
    stream cs' = rest \<and> clean cs'"
proof -
  have "ends_blank (text_lines ls)"
    using assms(2) by (rule text_lines_ends)
  moreover have "\<not> ends_blank (take k (text_lines ls))" if "k < length (text_lines ls)" for k
    using that assms(1) by (intro text_lines_first_blank)
  moreover have "0 < length (text_lines ls)"
    by (simp add: text_lines_def EOL_def)
  ultimately have "\<exists>cs'. recvHeader_loop al (window []) [] cs = (Complete (text_lines ls), cs') \<and>
      stream cs' = rest \<and> clean cs'"
    using assms by (intro recvHeader_loop_complete) auto
  then show ?thesis
    using assms(6) by (auto simp: recvHeader_def window_Nil)
qed

lemma recvHeader_response:
  assumes wf: "wf_response status title headers mime" and len: "in_int len" and "ample al"
    and clean: "clean cs" and str: "stream cs = response_text status title headers len mime @ body"
  shows "\<exists>cs'. recvHeader al cs = Inr (Some (response_text status title headers len mime),
      int (length (response_text status title headers len mime)), len, cs') \<and>
    stream cs' = body \<and> clean cs'"
  using recvHeader_lines [OF _ _ clean _ \<open>ample al\<close>] announced_response [OF wf len \<open>ample al\<close>]
    response_lines_plain [OF wf] str
  unfolding response_text_lines [OF wf] by blast

lemma recvAll_NoData_response:
  assumes "wf_response status title headers mime" and "in_int (int (length body))" and "ample al"
    and "clean cs" and "stream cs = response_text status title headers (int (length body)) mime @ body"
  shows "\<exists>cs'. recvAll_NoData al cs = Inr (int (length (stream cs)), int (length body), cs')"
proof -
  obtain cs1 where h: "recvHeader al cs = Inr (Some (response_text status title headers (int (length body)) mime),
      int (length (response_text status title headers (int (length body)) mime)), int (length body), cs1)"
    "stream cs1 = body" "clean cs1"
    using recvHeader_response [OF assms(1,2,3,4,5)] by blast
  then show ?thesis
    using count_loop_all [of cs1 "int (length body)" 0] assms(5) by (auto simp: recvAll_NoData_def)
qed

lemma sendResponse_socket_ok:
  assumes "in_int (int (length h))" and "in_int (int (length b))" and "txo c = []"
  shows "sendResponse_socket (h, b) c = Inr (c\<lparr>tx := tx c @ h @ b\<rparr>)"
  using assms by (simp add: sendResponse_socket_def sendAll_plain)

end
