(* ===== verification/Request.thy ===== *)
theory Request
  imports Response
begin

text \<open>
  The first half of \<open>checkAndSend\<close> (src/server.c): the parsing of the request line, the checks of
  method and path, the decoding of the path and the check for names that lead out of the document
  directory. What is left is either an error to report or the name of a file.
\<close>

section \<open>Parsing\<close>

text \<open>
  \<open>sscanf (line, "%[^ ] %[^ ] %[^ ]", ...)\<close> into three arrays of 10000 bytes: a conversion takes
  a non-empty run of bytes other than blanks, with no bound; a blank of the format skips any white
  space. The result are the converted strings.
\<close>

definition until_blank :: "string \<Rightarrow> string" where
  "until_blank s = takeWhile (\<lambda>c. c \<noteq> SP) s"

definition after_blank :: "string \<Rightarrow> string" where
  "after_blank s = dropWhile isspace (dropWhile (\<lambda>c. c \<noteq> SP) s)"

primrec sscanf_words :: "nat \<Rightarrow> string \<Rightarrow> string list result" where
  "sscanf_words 0 s = Inr []"
| "sscanf_words (Suc k) s =
     (let t = until_blank s in
      if t = [] then Inr []
      else if 10000 < length t + 1 then Inl Over_Write
      else bindR (sscanf_words k (after_blank s)) (\<lambda>ts. Inr (t # ts)))"

section \<open>The checks\<close>

text \<open>
  An error to send (status, title and text), or the request's path, as it is after the decoding
  in place, and the file.
\<close>

datatype verdict = Refuse int string string | Serve string string

text \<open>
  The comparison with the last three bytes of the name starts before the name when that is
  shorter; the bytes there are the slash of the path, or, past the object, whatever the stack
  holds (\<open>junk\<close>).
\<close>

definition bytes_before :: "char \<times> char \<Rightarrow> bool \<Rightarrow> string" where
  "bytes_before junk root = (if root then [fst junk, snd junk] else [fst junk, CHR ''/''])"

definition forbidden :: "char \<times> char \<Rightarrow> bool \<Rightarrow> string \<Rightarrow> bool" where
  "forbidden junk root file \<longleftrightarrow>
     (take 1 file = ''/'' \<or> file = ''..'' \<or> take 3 file = ''../'' \<or> strstr file ''/../'' \<noteq> None \<or>
      drop (length file - 1) (bytes_before junk root @ file) = ''/..'')"

definition parse_request :: "char \<times> char \<Rightarrow> buffer \<Rightarrow> verdict result" where
  "parse_request junk line =
     bindR (c_string line) (\<lambda>l.
     bindR (sscanf_words 3 l) (\<lambda>ws.
       case ws of
         [meth, path, protocol] \<Rightarrow>
           if \<not> strcasecmp_eq meth ''get'' then
             Inr (Refuse 501 ''Not Implemented'' (''That method is not implemented.'' @ [LF]))
           else if take 1 path \<noteq> ''/'' then Inr (Refuse 400 ''Bad Request'' (''Bad filename.'' @ [LF]))
           else bindR (strDecode (tl path @ [NUL])) (\<lambda>b.
             let name = cstr b;
                 root = (name = []);
                 file = (if root then ''./'' else name)
             in if forbidden junk root file then
                  Inr (Refuse 400 ''Bad Request'' (''Illegal filename.'' @ [LF]))
                else Inr (Serve (CHR ''/'' # name) file))
       | _ \<Rightarrow> Inr (Refuse 400 ''Bad Request'' (''Can'' @ [CHR 0x27] @ ''t parse request.'' @ [LF]))))"

section \<open>Names that stay inside\<close>

text \<open>The components of a name.\<close>

fun components :: "string \<Rightarrow> string list" where
  "components [] = [[]]"
| "components (c # s) =
     (if c = CHR ''/'' then [] # components s
      else case components s of p # ps \<Rightarrow> (c # p) # ps | [] \<Rightarrow> [[c]])"

text \<open>A relative name with no component that goes up.\<close>

definition inside :: "string \<Rightarrow> bool" where
  "inside f \<longleftrightarrow> f \<noteq> [] \<and> hd f \<noteq> CHR ''/'' \<and> ''..'' \<notin> set (components f)"

lemma components_not_Nil [simp]: "components s \<noteq> []"
  by (cases s) (auto split: list.splits)

definition rejoin :: "string list \<Rightarrow> string" where
  "rejoin ps = concat (map (\<lambda>p. CHR ''/'' # p) ps)"

lemma components_rejoin: "s = hd (components s) @ rejoin (tl (components s))"
proof (induction s)
  case (Cons c s)
  then show ?case
    by (cases "components s") (auto simp: rejoin_def)
qed (simp add: rejoin_def)

lemma rejoin_front: "rejoin ps = [] \<or> hd (rejoin ps) = CHR ''/''"
  by (cases ps) (auto simp: rejoin_def)

lemma component_split:
  assumes "p \<in> set (components s)"
  shows "(\<exists>b. s = p @ b \<and> (b = [] \<or> hd b = CHR ''/'')) \<or>
    (\<exists>a b. s = a @ CHR ''/'' # p @ b \<and> (b = [] \<or> hd b = CHR ''/''))"
proof -
  obtain xs ys where c: "components s = xs @ p # ys"
    using split_list [OF assms] by blast
  show ?thesis
  proof (cases xs)
    case Nil
    then have "s = p @ rejoin ys"
      using components_rejoin [of s] c by simp
    then show ?thesis
      using rejoin_front by blast
  next
    case (Cons x zs)
    then have "s = (x @ rejoin zs) @ CHR ''/'' # p @ rejoin ys"
      using components_rejoin [of s] c by (simp add: rejoin_def)
    then show ?thesis
      using rejoin_front by blast
  qed
qed

text \<open>The tests of the source leave no way up.\<close>

lemma not_forbidden_inside:
  assumes "\<not> forbidden junk root file" and "file \<noteq> []"
  shows "inside file"
proof -
  have f: "hd file \<noteq> CHR ''/''" "file \<noteq> ''..''" "take 3 file \<noteq> ''../''" "strstr file ''/../'' = None"
    "drop (length file - 1) (bytes_before junk root @ file) \<noteq> ''/..''"
    using assms by (auto simp: forbidden_def take_Suc)
  have "''..'' \<notin> set (components file)"
  proof
    assume "''..'' \<in> set (components file)"
    then consider b where "file = ''..'' @ b" "b = [] \<or> hd b = CHR ''/''"
      | a b where "file = a @ CHR ''/'' # ''..'' @ b" "b = [] \<or> hd b = CHR ''/''"
      using component_split by blast
    then show False
    proof cases
      case 1
      then show False
        using f(2,3) by (cases b) auto
    next
      case (2 a b)
      then consider "file = a @ ''/..''" | c where "file = a @ ''/../'' @ c"
        by (cases b) auto
      then show False
      proof cases
        case 1
        then have "drop (length file - 1) (bytes_before junk root @ file) = ''/..''"
          by (auto simp: bytes_before_def)
        then show False
          using f(5) by simp
      next
        case 2
        then have "prefix ''/../'' (drop (length a) file)" "length a \<le> length file"
          by simp_all
        then show False
          using f(4) unfolding strstr_def find_sub_None by blast
      qed
    qed
  qed
  then show ?thesis
    using assms(2) f(1) by (simp add: inside_def)
qed

lemma parse_request_Serve:
  assumes "parse_request junk line = Inr (Serve path file)"
  obtains meth tgt protocol b where "c_string line = Inr (cstr line)"
    and "sscanf_words 3 (cstr line) = Inr [meth, tgt, protocol]" and "strcasecmp_eq meth ''get''"
    and "take 1 tgt = ''/''" and "strDecode (tl tgt @ [NUL]) = Inr b"
    and "path = CHR ''/'' # cstr b" and "file = (if cstr b = [] then ''./'' else cstr b)"
    and "\<not> forbidden junk (cstr b = []) file"
proof -
  have l: "c_string line = Inr (cstr line)"
    using assms by (auto simp: parse_request_def c_string_def split: if_splits)
  obtain ws where ws: "sscanf_words 3 (cstr line) = Inr ws"
    using assms l by (cases "sscanf_words 3 (cstr line)") (auto simp: parse_request_def)
  obtain meth tgt protocol where w: "ws = [meth, tgt, protocol]"
    using assms l ws by (auto simp: parse_request_def split: list.split_asm)
  have m: "strcasecmp_eq meth ''get''" "take 1 tgt = ''/''"
    using assms l ws w by (auto simp: parse_request_def split: if_split_asm)
  obtain b where b: "strDecode (tl tgt @ [NUL]) = Inr b"
    using assms l ws w m by (cases "strDecode (tl tgt @ [NUL])") (auto simp: parse_request_def)
  show thesis
    by (rule that [OF l ws [unfolded w] m b])
      (use assms l ws w m b in \<open>auto simp: parse_request_def Let_def split: if_split_asm\<close>)
qed

lemma parse_request_inside:
  assumes "parse_request junk line = Inr (Serve path file)"
  shows "inside file" and "NUL \<notin> set file"
proof -
  obtain b where "file = (if cstr b = [] then ''./'' else cstr b)" "\<not> forbidden junk (cstr b = []) file"
    using assms by (rule parse_request_Serve)
  then show "inside file" "NUL \<notin> set file"
    by (auto intro: not_forbidden_inside split: if_splits)
qed

text \<open>A request line with a name that is served, and what parsing makes of any buffer.\<close>

lemma until_blank_append: "SP \<notin> set t \<Longrightarrow> until_blank (t @ SP # s) = t"
  unfolding until_blank_def by (subst takeWhile_append2) auto

lemma after_blank_append:
  "SP \<notin> set t \<Longrightarrow> s \<noteq> [] \<Longrightarrow> \<not> isspace (hd s) \<Longrightarrow> after_blank (t @ SP # s) = s"
proof -
  assume "SP \<notin> set t" "s \<noteq> []" "\<not> isspace (hd s)"
  moreover from this have "dropWhile (\<lambda>c. c \<noteq> SP) (t @ SP # s) = SP # s"
    by (subst dropWhile_append2) auto
  moreover have "isspace SP"
    by (simp add: isspace_def)
  ultimately show ?thesis
    by (cases s) (simp_all add: after_blank_def)
qed

lemma sscanf_words_returns:
  assumes "length s < 10000"
  shows "\<exists>ws. sscanf_words k s = Inr ws \<and> length ws \<le> k"
  using assms
proof (induction k arbitrary: s)
  case (Suc k)
  have "length (until_blank s) \<le> length s"
    by (simp add: until_blank_def length_takeWhile_le)
  moreover have "length (after_blank s) < 10000"
    using Suc.prems length_dropWhile_le [of isspace "dropWhile (\<lambda>c. c \<noteq> SP) s"]
      length_dropWhile_le [of "\<lambda>c. c \<noteq> SP" s]
    by (simp add: after_blank_def)
  then obtain ws where "sscanf_words k (after_blank s) = Inr ws" "length ws \<le> k"
    using Suc.IH by blast
  ultimately show ?case
    using Suc.prems by (simp add: Let_def)
qed simp

lemma until_blank_NUL: "NUL \<notin> set s \<Longrightarrow> NUL \<notin> set (until_blank s)"
  by (auto simp: until_blank_def dest: set_takeWhileD)

lemma after_blank_NUL: "NUL \<notin> set s \<Longrightarrow> NUL \<notin> set (after_blank s)"
  by (auto simp: after_blank_def dest: set_dropWhileD)

lemma sscanf_words_NUL:
  "sscanf_words k s = Inr ws \<Longrightarrow> NUL \<notin> set s \<Longrightarrow> w \<in> set ws \<Longrightarrow> NUL \<notin> set w"
proof (induction k arbitrary: s ws)
  case (Suc k)
  then show ?case
    using Suc.IH [OF _ after_blank_NUL [OF Suc.prems(2)]] until_blank_NUL [OF Suc.prems(2)]
    by (auto simp: Let_def result_simps split: if_splits)
qed auto

text \<open>Every request shorter than the arrays is parsed without a fault.\<close>

lemma parse_request_returns:
  assumes "NUL \<in> set line" and "length (cstr line) < 10000"
  shows "returns (parse_request junk line)"
proof -
  obtain ws where ws: "sscanf_words 3 (cstr line) = Inr ws"
    using sscanf_words_returns [OF assms(2)] by blast
  have "NUL \<notin> set (tl w)" if "w \<in> set ws" for w
    using sscanf_words_NUL [OF ws _ that] by (metis cstr_no_NUL list.set_sel(2) tl_Nil list.set(1) empty_iff)
  then have "\<exists>b. strDecode (tl w @ [NUL]) = Inr b" if "w \<in> set ws" for w
    using strDecode_inplace [of "tl w" "[]"] that by auto
  then show ?thesis
    using ws assms(1)
    by (auto simp: parse_request_def c_string_def Let_def returns_def result_simps split: list.split)
      (metis list.set_intros(1,2))+
qed

lemma parse_request_get:
  assumes l: "c_string line = Inr (''GET /'' @ tgt @ SP # p)"
    and p: "p \<noteq> []" "\<not> isspace (hd p)" "length p < 10000"
    and t: "SP \<notin> set tgt" "NUL \<notin> set tgt" "length tgt < 9999"
  shows "parse_request junk line =
    (let name = cstr (decode tgt); file = (if name = [] then ''./'' else name) in
     if forbidden junk (name = []) file
     then Inr (Refuse 400 ''Bad Request'' (''Illegal filename.'' @ [LF]))
     else Inr (Serve (CHR ''/'' # name) file))"
proof -
  let ?s = "''GET'' @ SP # (CHR ''/'' # tgt) @ SP # p"
  have "hd p \<noteq> SP"
    using p(2) by (auto simp: isspace_def)
  then have up: "until_blank p \<noteq> []" "length (until_blank p) < 10000"
    using p length_takeWhile_le [of "\<lambda>c. c \<noteq> SP" p] by (cases p; simp add: until_blank_def)+
  have 1: "until_blank ?s = ''GET''" "after_blank ?s = (CHR ''/'' # tgt) @ SP # p"
    by (rule until_blank_append after_blank_append; simp add: isspace_def less_eq_char_def)+
  have 2: "until_blank ((CHR ''/'' # tgt) @ SP # p) = CHR ''/'' # tgt" "after_blank ((CHR ''/'' # tgt) @ SP # p) = p"
    using t p by (intro until_blank_append after_blank_append; simp)+
  have "sscanf_words 3 ?s = Inr [''GET'', CHR ''/'' # tgt, until_blank p]"
    using up t(3) by (simp add: numeral_3_eq_3 1 [simplified] 2 [simplified] Let_def)
  moreover have "strcasecmp_eq ''GET'' ''get''"
    by code_simp
  moreover have "strDecode (tgt @ [NUL]) = Inr (decode tgt @ NUL # drop (Suc (length (decode tgt))) (tgt @ [NUL]))"
    using t(2) by (rule strDecode_inplace)
  moreover have "cstr (t @ NUL # r) = cstr t" for t r
    by (induction t) auto
  ultimately show ?thesis
    using l by (simp add: parse_request_def Let_def)
qed

end
