(* ===== verification/Serve.thy ===== *)
theory Serve
  imports Request
begin

text \<open>
  The second half of \<open>checkAndSend\<close> (src/server.c) with \<open>fileContents\<close>
  (src/functions/fileContents.c): what is sent for a name that passed the checks, over a file
  system that is a parameter; and \<open>checkAndSend\<close> as a whole.
\<close>

section \<open>The file system\<close>

text \<open>
  What the server asks of it: whether a name exists, is a directory and how long it is; the bytes
  of a file that can be opened; the sorted names of a directory.
\<close>

record filesystem =
  fstat :: "string \<Rightarrow> (bool \<times> int) option"
  readable :: "string \<Rightarrow> buffer option"
  listing :: "string \<Rightarrow> string list option"

text \<open>
  Sizes are not negative, the bytes of an open file are as many as its size says, and a name of
  \<open>PATH_MAX\<close> or more bytes is refused.
\<close>

definition fs_ok :: "filesystem \<Rightarrow> bool" where
  "fs_ok fs \<longleftrightarrow> (\<forall>f d n. fstat fs f = Some (d, n) \<longrightarrow>
     0 \<le> n \<and> length f < 4096 \<and> (\<forall>b. readable fs f = Some b \<longrightarrow> int (length b) = n))"

text \<open>\<open>mmap\<close> of no bytes fails.\<close>

definition fileContents :: "filesystem \<Rightarrow> string \<Rightarrow> int \<Rightarrow> buffer option" where
  "fileContents fs file fsize = (if fsize = 0 then None else readable fs file)"

section \<open>Directory listings\<close>

definition listing_head :: "string \<Rightarrow> string" where
  "listing_head file = snprintf 9999 (''<html><head><title>Index of '' @ file @ ''</title></head>'' @ [LF] @
     ''<body bgcolor='' @ [CHR 0x22] @ ''#99CC99'' @ [CHR 0x22] @ ''><h3>Index of '' @ file @ ''</h3>'' @ [LF] @
     ''<pre>'' @ [LF])"

definition listing_foot :: string where
  "listing_foot = snprintf 9999 (''</pre>'' @ [LF] @ ''<hr /><address><a href='' @ [CHR 0x22] @ SERVER_URL @
     [CHR 0x22] @ ''>'' @ SERVER_NAME @ ''</a></address>'' @ [LF] @ ''</body></html>'' @ [LF])"

text \<open>
  The loop over the names keeps the text and \<open>size\<close>; the length of a null pointer's text is a fault.
\<close>

fun listing_loop :: "allocator \<Rightarrow> string list \<Rightarrow> string option \<Rightarrow> int \<Rightarrow> (string option \<times> int) result" where
  "listing_loop al [] contents fsize = Inr (contents, fsize)"
| "listing_loop al (d # dl) contents fsize =
     (case contents of
        None \<Rightarrow> Inl Null_Deref
      | Some before \<Rightarrow>
          (case appendStr al contents d of
             None \<Rightarrow> Inl Null_Deref
           | Some after \<Rightarrow>
               listing_loop al dl (Some after) (fsize + (int (length after) - int (length before)))))"

definition listing_page :: "allocator \<Rightarrow> string \<Rightarrow> string list \<Rightarrow> (string option \<times> int) result" where
  "listing_page al file names =
     (let buf = listing_head file in
      bindR (listing_loop al names (appendStr al None buf) (int (length buf))) (\<lambda>(contents, fsize).
        Inr (appendStr al contents listing_foot, fsize + int (length listing_foot))))"

section \<open>checkAndSend\<close>

abbreviation protected :: "(buffer \<times> buffer) result" where
  "protected \<equiv> sendError 403 ''Forbidden'' None (''File is protected.'' @ [LF])"

definition serve_file :: "filesystem \<Rightarrow> string \<Rightarrow> int \<Rightarrow> (buffer \<times> buffer) result" where
  "serve_file fs file fsize =
     (case fileContents fs file fsize of
        None \<Rightarrow> protected
      | Some contents \<Rightarrow> response 200 ''OK'' None (contentType file) fsize contents)"

definition serve_dir :: "filesystem \<Rightarrow> allocator \<Rightarrow> string \<Rightarrow> string \<Rightarrow> (buffer \<times> buffer) result" where
  "serve_dir fs al path file =
     (if last file \<noteq> CHR ''/'' then
        sendError 302 ''Found'' (Some (snprintf 9999 (''Location: '' @ path @ ''/'' @ EOL)))
          (''Directories must end with a slash.'' @ [LF])
      else
        let idx = snprintf 9999 (file @ ''index.html'') in
        case fstat fs idx of
          Some (dir, fsize) \<Rightarrow> serve_file fs idx fsize
        | None \<Rightarrow>
            (case listing fs file of
               None \<Rightarrow> sendError 500 ''Internal Server Error'' None (''The server encountered an error.'' @ [LF])
             | Some names \<Rightarrow>
                 bindR (listing_page al file names) (\<lambda>(contents, fsize).
                   case contents of
                     None \<Rightarrow> Inl Null_Deref
                   | Some text \<Rightarrow> response 200 ''OK'' None ''text/html'' fsize text)))"

definition answer :: "filesystem \<Rightarrow> allocator \<Rightarrow> verdict \<Rightarrow> (buffer \<times> buffer) result" where
  "answer fs al v =
     (case v of
        Refuse status title text \<Rightarrow> sendError status title None text
      | Serve path file \<Rightarrow>
          (case fstat fs file of
             None \<Rightarrow> sendError 404 ''Not Found'' None (''File not found.'' @ [LF])
           | Some (True, fsize) \<Rightarrow> serve_dir fs al path file
           | Some (False, fsize) \<Rightarrow> serve_file fs file fsize))"

text \<open>The response to the bytes of \<open>line\<close>, for a request that came by either way.\<close>

definition checkAndSend :: "filesystem \<Rightarrow> allocator \<Rightarrow> char \<times> char \<Rightarrow> buffer \<Rightarrow> (buffer \<times> buffer) result" where
  "checkAndSend fs al junk line = bindR (parse_request junk line) (answer fs al)"

text \<open>Over a socket the request is what one \<open>recv\<close> of at most 19999 bytes gives.\<close>

definition checkAndSend_socket :: "filesystem \<Rightarrow> allocator \<Rightarrow> char \<times> char \<Rightarrow> sock \<Rightarrow> sock result" where
  "checkAndSend_socket fs al junk c =
     (case recv 19999 (rx c) of
        (Failed, cs) \<Rightarrow>
          bindR (sendError 400 ''Bad Request'' None (''No request found.'' @ [LF])) (\<lambda>r.
            sendResponse_socket r (c\<lparr>rx := cs\<rparr>))
      | (Closed, cs) \<Rightarrow>
          bindR (checkAndSend fs al junk (replicate 20000 NUL)) (\<lambda>r. sendResponse_socket r (c\<lparr>rx := cs\<rparr>))
      | (Got b, cs) \<Rightarrow>
          bindR (checkAndSend fs al junk (b @ replicate (20000 - length b) NUL)) (\<lambda>r.
            sendResponse_socket r (c\<lparr>rx := cs\<rparr>)))"

section \<open>What is sent\<close>

lemma sendError_returns: "\<exists>r. sendError status title headers text = Inr r"
  by (simp add: sendError_def response_def Let_def)

lemma serve_file_returns:
  assumes "fs_ok fs" and "fstat fs file = Some (d, n)"
  shows "\<exists>r. serve_file fs file n = Inr r"
proof (cases "fileContents fs file n")
  case None
  then show ?thesis
    using sendError_returns by (simp add: serve_file_def)
next
  case (Some b)
  then have "int (length b) = n"
    using assms by (auto simp: fileContents_def fs_ok_def split: if_splits)
  then show ?thesis
    using Some by (auto simp: serve_file_def response_def)
qed

lemma serve_file_content:
  assumes "readable fs file = Some b" and "b \<noteq> []"
  shows "serve_file fs file (int (length b)) =
    Inr (response_header 200 ''OK'' None (int (length b)) (contentType file), b)"
  using assms by (simp add: serve_file_def fileContents_def response_def)

lemma serve_file_empty: "serve_file fs file 0 = protected"
  by (simp add: serve_file_def fileContents_def)

lemma appendStr_returns: "ample al \<Longrightarrow> \<exists>t. appendStr al (Some s) d = Some t"
  by (simp add: appendStr_def Let_def ample_grants)

text \<open>The size counted by the loop is the length of the text.\<close>

lemma listing_loop_counts:
  assumes "ample al"
  shows "\<exists>t. listing_loop al names (Some s) (int (length s)) = Inr (Some t, int (length t))"
proof (induction names arbitrary: s)
  case (Cons d dl)
  obtain t where "appendStr al (Some s) d = Some t"
    using appendStr_returns [OF assms] by blast
  then show ?case
    using Cons.IH [of t] by simp
qed simp

text \<open>The footer holds the server's name, which keeps it from being made a link.\<close>

lemma strstr_within: "strstr (a @ n @ b) n \<noteq> None"
proof
  assume "strstr (a @ n @ b) n = None"
  then have "\<not> prefix n (drop (length a) (a @ n @ b))"
    unfolding strstr_def find_sub_None by (metis le_add1 length_append)
  then show False
    by simp
qed

lemma listing_foot_name: "strstr listing_foot SERVER_NAME \<noteq> None"
proof -
  let ?a = "''</pre>'' @ [LF] @ ''<hr /><address><a href='' @ [CHR 0x22] @ SERVER_URL @ [CHR 0x22] @ ''>''"
  let ?b = "''</a></address>'' @ [LF] @ ''</body></html>'' @ [LF]"
  have "listing_foot = ?a @ SERVER_NAME @ ?b"
    by (simp add: listing_foot_def SERVER_URL_def SERVER_NAME_def)
  then show ?thesis
    using strstr_within [of ?a SERVER_NAME ?b] by metis
qed

lemma listing_page_counts:
  assumes "ample al"
  shows "\<exists>t. listing_page al file names = Inr (Some t, int (length t))"
proof -
  obtain t where "listing_loop al names (Some (listing_head file)) (int (length (listing_head file))) =
      Inr (Some t, int (length t))"
    using listing_loop_counts [OF assms] by blast
  then show ?thesis
    using assms listing_foot_name
    by (simp add: listing_page_def Let_def appendStr_first appendStr_raw)
qed

lemma serve_dir_returns:
  assumes fs: "fs_ok fs" and al: "ample al"
  shows "\<exists>r. serve_dir fs al path file = Inr r"
proof (cases "last file = CHR ''/''")
  case False
  then show ?thesis
    using sendError_returns by (simp add: serve_dir_def)
next
  case slash: True
  let ?idx = "snprintf 9999 (file @ ''index.html'')"
  show ?thesis
  proof (cases "fstat fs ?idx")
    case (Some dn)
    then show ?thesis
      using slash serve_file_returns [OF fs, of ?idx] by (cases dn) (simp add: serve_dir_def Let_def)
  next
    case idx: None
    show ?thesis
    proof (cases "listing fs file")
      case None
      then show ?thesis
        using slash idx sendError_returns by (simp add: serve_dir_def Let_def)
    next
      case (Some names)
      obtain t where "listing_page al file names = Inr (Some t, int (length t))"
        using listing_page_counts [OF al] by blast
      then show ?thesis
        using slash idx Some by (simp add: serve_dir_def Let_def response_def)
    qed
  qed
qed

lemma serve_dir_listing:
  assumes "ample al" and "last file = CHR ''/''"
    and "fstat fs (snprintf 9999 (file @ ''index.html'')) = None" and "listing fs file = Some names"
  shows "\<exists>t. serve_dir fs al path file =
    Inr (response_header 200 ''OK'' None (int (length t)) ''text/html'', t)"
proof -
  obtain t where "listing_page al file names = Inr (Some t, int (length t))"
    using listing_page_counts [OF assms(1)] by blast
  then show ?thesis
    using assms by (auto simp: serve_dir_def Let_def response_def)
qed

lemma answer_returns:
  assumes "fs_ok fs" and "ample al"
  shows "\<exists>r. answer fs al v = Inr r"
proof (cases v)
  case (Refuse status title reason)
  then show ?thesis
    using sendError_returns by (simp add: answer_def)
next
  case (Serve path name)
  show ?thesis
  proof (cases "fstat fs name")
    case None
    then show ?thesis
      using Serve sendError_returns by (simp add: answer_def)
  next
    case (Some dn)
    then show ?thesis
      using Serve serve_file_returns [OF assms(1), of name] serve_dir_returns [OF assms, of path name]
      by (cases dn; cases "fst dn") (auto simp: answer_def)
  qed
qed

section \<open>Only names inside the document directory count\<close>

lemma components_append_slash: "components (a @ CHR ''/'' # b) = components a @ components b"
proof (induction a)
  case (Cons c a)
  then show ?case
    by (cases "components a") auto
qed simp

lemma inside_index:
  assumes "inside file" and "last file = CHR ''/''"
  shows "inside (file @ ''index.html'')"
proof -
  obtain a where a: "file = a @ [CHR ''/'']"
    using assms by (metis append_butlast_last_id inside_def)
  have "components (file @ ''index.html'') = components a @ [''index.html'']"
    using components_append_slash [of a "''index.html''"] by (simp add: a)
  moreover have "components file = components a @ [[]]"
    using components_append_slash [of a "[]"] by (simp add: a)
  ultimately show ?thesis
    using assms by (auto simp: inside_def)
qed

definition same_inside :: "filesystem \<Rightarrow> filesystem \<Rightarrow> bool" where
  "same_inside fs fs' \<longleftrightarrow> (\<forall>f. inside f \<longrightarrow>
     fstat fs f = fstat fs' f \<and> readable fs f = readable fs' f \<and> listing fs f = listing fs' f)"

lemma answer_same_inside:
  assumes same: "same_inside fs fs'" and ok: "fs_ok fs" and inn: "inside file"
  shows "answer fs al (Serve path file) = answer fs' al (Serve path file)"
proof (cases "fstat fs file")
  case None
  then show ?thesis
    using same inn by (simp add: answer_def same_inside_def)
next
  case (Some dn)
  have "length file < 4096"
    using Some ok by (cases dn) (auto simp: fs_ok_def)
  then have idx: "snprintf 9999 (file @ ''index.html'') = file @ ''index.html''"
    by simp
  have eq: "fstat fs' file = fstat fs file" "readable fs' file = readable fs file" "listing fs' file = listing fs file"
    using same inn by (simp_all add: same_inside_def)
  have "fstat fs' (file @ ''index.html'') = fstat fs (file @ ''index.html'')"
    "readable fs' (file @ ''index.html'') = readable fs (file @ ''index.html'')"
    if "last file = CHR ''/''"
    using same inside_index [OF inn that] by (simp_all add: same_inside_def)
  then have "serve_dir fs al path file = serve_dir fs' al path file"
    unfolding serve_dir_def idx Let_def serve_file_def fileContents_def eq
    by (cases "last file = CHR ''/''"; cases "fstat fs (file @ ''index.html'')") auto
  moreover have "serve_file fs file n = serve_file fs' file n" for n
    using eq by (simp add: serve_file_def fileContents_def)
  ultimately show ?thesis
    using eq by (cases dn; cases "fst dn") (auto simp: answer_def Some)
qed

lemma checkAndSend_same_inside:
  assumes "same_inside fs fs'" and "fs_ok fs"
  shows "checkAndSend fs al junk line = checkAndSend fs' al junk line"
proof (cases "parse_request junk line")
  case (Inr v)
  then show ?thesis
    using answer_same_inside [OF assms] parse_request_inside(1) [of junk line]
    by (cases v) (auto simp: checkAndSend_def answer_def)
qed (simp add: checkAndSend_def)

lemma checkAndSend_returns:
  assumes "fs_ok fs" and "ample al" and "NUL \<in> set line" and "length (cstr line) < 10000"
  shows "\<exists>r. checkAndSend fs al junk line = Inr r"
proof -
  obtain v where "parse_request junk line = Inr v"
    using parse_request_returns [OF assms(3,4), of junk] by (auto simp: returns_def)
  then show ?thesis
    using answer_returns [OF assms(1,2)] by (simp add: checkAndSend_def)
qed

end
