(* ===== verification/Client.thy ===== *)
theory Client
  imports Response
begin

text \<open>
  The load-generating client, src/client.c: the arguments, the list of names, the requests it
  builds for a server or for a proxy, and the counting of the bytes that come back. The machine
  around it (files, name service, network, random numbers) is a parameter.
\<close>

section \<open>The machine around it\<close>

text \<open>
  One attempt to reach the server: no socket, no connection, or a peer with what its side of the
  connection takes and what it answers to the bytes sent.
\<close>

datatype attempt = No_Socket | No_Connection | Peer "tx_event list" "string \<Rightarrow> chunk list"

record machine =
  files :: "string \<Rightarrow> string option"
  resolves :: "string \<Rightarrow> bool"
  attempts :: "nat \<Rightarrow> nat \<Rightarrow> attempt"
  rand_r :: "nat \<Rightarrow> int \<times> nat"

record setting =
  server :: string
  port :: int
  proxy :: "(string \<times> int) option"
  numThreads :: int
  fileList :: string

section \<open>The list of names\<close>

text \<open>\<open>fgets\<close> into \<open>n\<close> bytes: at most \<open>n - 1\<close> characters, up to and with the newline.\<close>

definition fgets :: "nat \<Rightarrow> string \<Rightarrow> (string \<times> string) option" where
  "fgets n s =
     (if s = [] then None
      else let k = min (n - 1) (case strchr s LF of None \<Rightarrow> length s | Some i \<Rightarrow> Suc i)
           in Some (take k s, drop k s))"

lemma fgets_shorter: "fgets n s = Some (l, r) \<Longrightarrow> 1 < n \<Longrightarrow> length r < length s"
  by (auto simp: fgets_def Let_def split: if_splits option.splits)

text \<open>The name in the buffer, its newline chopped off.\<close>

definition chopped :: "string \<Rightarrow> string" where
  "chopped l = takeWhile (\<lambda>c. c \<noteq> LF) (cstr l)"

text \<open>
  The loop stops at a line that starts with a blank. It tests for a newline too, but by then the
  newline has been chopped off. A name is \<open>None\<close> where \<open>strdup\<close> had no memory.
\<close>

function load_names :: "allocator \<Rightarrow> string \<Rightarrow> string option list \<Rightarrow> string option list result" where
  "load_names al s completeList =
     (case fgets 9999 s of
        None \<Rightarrow> Inr completeList
      | Some (l, r) \<Rightarrow>
          let buffer = chopped l in
          if take 1 buffer = [LF] \<or> take 1 buffer = [SP] then Inr completeList
          else if \<not> al (8 * (int (length completeList) + 1)) then Inl Null_Deref
          else load_names al r (completeList @ [if al (int (length buffer) + 1) then Some buffer else None]))"
  by pat_completeness auto
termination
  by (relation "measure (\<lambda>(al, s, xs). length s)") (auto dest!: fgets_shorter)

declare load_names.simps [simp del]

section \<open>One access\<close>

text \<open>For the proxy, \<open>server + 7\<close> skips the \<open>http://\<close> that the server's name then has to have.\<close>

definition client_request :: "setting \<Rightarrow> string option \<Rightarrow> string result" where
  "client_request st entry =
     (case entry of
        None \<Rightarrow> Inl Null_Deref
      | Some name \<Rightarrow>
          (case proxy st of
             Some _ \<Rightarrow>
               if length (server st) < 7 then Inl Over_Read
               else Inr (snprintf 19999 (''GET '' @ server st @ '':'' @ fmt_d (port st) @
                 (if take 1 name = ''/'' then [] else ''/'') @ name @ '' HTTP/1.0'' @ EOL @
                 ''Host: '' @ drop 7 (server st) @ '':'' @ fmt_d (port st) @ EOL @ EOL))
           | None \<Rightarrow>
               Inr (snprintf 19999 (''GET /'' @ name @ '' HTTP/1.0'' @ EOL @ ''Host: '' @ server st @ EOL @ EOL))))"

text \<open>The bytes of the body that came back.\<close>

definition client_access :: "allocator \<Rightarrow> setting \<Rightarrow> string option \<Rightarrow> attempt \<Rightarrow> int result" where
  "client_access al st entry net =
     bindR (client_request st entry) (\<lambda>transfer.
       case net of
         No_Socket \<Rightarrow> Inl (Exit_With SOCKET_FAILURE)
       | No_Connection \<Rightarrow> Inl (Exit_With NETWORK_FAILURE)
       | Peer os reply \<Rightarrow>
           bindR (sendAll transfer (int (length transfer)) \<lparr>rx = [], tx = [], txo = os\<rparr>) (\<lambda>(ret, n, s).
             if ret < 0 then Inl (Exit_With NETWORK_FAILURE)
             else bindR (recvAll_NoData al (reply (tx s))) (\<lambda>(receive, bodyLen, cs).
               if receive < 0 then Inl (Exit_With NETWORK_FAILURE) else Inr bodyLen)))"

text \<open>The loop: \<open>k\<close> accesses are left, \<open>i\<close> were made; a remainder by an empty list's length traps.\<close>

fun access_loop :: "allocator \<Rightarrow> machine \<Rightarrow> setting \<Rightarrow> nat \<Rightarrow> string option list \<Rightarrow> nat \<Rightarrow> nat \<Rightarrow> nat \<Rightarrow> int \<Rightarrow>
  int result" where
  "access_loop al m st me names 0 i seed retVal = Inr retVal"
| "access_loop al m st me names (Suc k) i seed retVal =
     (if names = [] then Inl Div_By_Zero
      else let (r, seed') = rand_r m seed; randNum = nat (r mod int (length names)) in
        bindR (client_access al st (names ! randNum) (attempts m me i)) (\<lambda>bodyLen.
          access_loop al m st me names k (Suc i) seed' (retVal + bodyLen)))"

definition accessServer :: "allocator \<Rightarrow> machine \<Rightarrow> setting \<Rightarrow> nat \<Rightarrow> int result" where
  "accessServer al m st me =
     (case files m (fileList st) of
        None \<Rightarrow> Inl (Exit_With IO_FAILURE)
      | Some s \<Rightarrow> bindR (load_names al s []) (\<lambda>names. access_loop al m st me names NUMACCESSES 0 1 0))"

section \<open>main\<close>

text \<open>
  Joining the threads and adding up. When several threads end the process, which of them does is
  the scheduler's choice; here it is the first one joined.
\<close>

fun join_threads :: "(nat \<Rightarrow> int result) \<Rightarrow> nat \<Rightarrow> nat \<Rightarrow> int \<Rightarrow> int result" where
  "join_threads run 0 i acc = Inr acc"
| "join_threads run (Suc k) i acc = bindR (run i) (\<lambda>r. join_threads run k (Suc i) (acc + r))"

definition client_setting :: "string list \<Rightarrow> setting option" where
  "client_setting argv =
     (if length argv = 5 then
        Some \<lparr>server = argv ! 1, port = atoi (argv ! 2), proxy = None, numThreads = atoi (argv ! 3),
              fileList = argv ! 4\<rparr>
      else if length argv = 8 then
        Some \<lparr>server = argv ! 4, port = atoi (argv ! 5), proxy = Some (argv ! 2, atoi (argv ! 3)),
              numThreads = atoi (argv ! 6), fileList = argv ! 7\<rparr>
      else None)"

definition client_main :: "allocator \<Rightarrow> machine \<Rightarrow> string list \<Rightarrow> int result" where
  "client_main al m argv =
     (case client_setting argv of
        None \<Rightarrow> Inl (Exit_With INCORRECT_ARGS)
      | Some st \<Rightarrow>
          if \<not> al (8 * numThreads st) then Inl (Exit_With MEMALLOC_FAILURE)
          else if \<not> resolves m (case proxy st of Some p \<Rightarrow> fst p | None \<Rightarrow> server st)
          then Inl (Exit_With INCORRECT_ARGS)
          else join_threads (accessServer al m st) (nat (numThreads st)) 0 0)"

section \<open>What it computes\<close>

text \<open>A list with one name a line.\<close>

definition name_line :: "string \<Rightarrow> bool" where
  "name_line f \<longleftrightarrow> NUL \<notin> set f \<and> LF \<notin> set f \<and> length f < 9998 \<and> take 1 f \<noteq> [SP]"

lemma fgets_line:
  assumes "name_line f"
  shows "fgets 9999 (f @ LF # s) = Some (f @ [LF], s)"
  using assms by (simp add: fgets_def name_line_def Let_def)

lemma chopped_line:
  assumes "name_line f"
  shows "chopped (f @ [LF]) = f"
proof -
  have "takeWhile (\<lambda>c. c \<noteq> LF) (f @ [LF]) = f @ takeWhile (\<lambda>c. c \<noteq> LF) [LF]"
    using assms by (intro takeWhile_append2) (auto simp: name_line_def)
  then show ?thesis
    using assms by (simp add: chopped_def name_line_def)
qed

lemma take_1_notin: "c \<notin> set s \<Longrightarrow> take 1 s \<noteq> [c]"
  by (cases s) auto

lemma load_names_lines:
  assumes "ample al" and "\<forall>f \<in> set fs. name_line f"
  shows "load_names al (concat (map (\<lambda>f. f @ [LF]) fs)) xs = Inr (xs @ map Some fs)"
  using assms(2)
proof (induction fs arbitrary: xs)
  case Nil
  then show ?case
    by (simp add: load_names.simps [of al "[]"] fgets_def)
next
  case (Cons f fs)
  then have f: "name_line f" "LF \<notin> set f" "take 1 f \<noteq> [SP]"
    by (auto simp: name_line_def)
  have "fgets 9999 (concat (map (\<lambda>f. f @ [LF]) (f # fs))) = Some (f @ [LF], concat (map (\<lambda>f. f @ [LF]) fs))"
    using fgets_line [OF f(1)] by simp
  moreover have "al (8 * (int (length xs) + 1))" "al (int (length f) + 1)"
    using assms(1) by (simp_all add: ample_grants)
  ultimately have "load_names al (concat (map (\<lambda>f. f @ [LF]) (f # fs))) xs =
      load_names al (concat (map (\<lambda>f. f @ [LF]) fs)) (xs @ [Some f])"
    using f chopped_line [OF f(1)] take_1_notin [OF f(2)] by (subst load_names.simps) (simp add: Let_def)
  then show ?case
    using Cons by simp
qed

text \<open>A complete answer is counted.\<close>

definition answers :: "(string \<Rightarrow> chunk list) \<Rightarrow> string \<Rightarrow> string \<Rightarrow> bool" where
  "answers reply req body \<longleftrightarrow> clean (reply req) \<and> in_int (int (length body)) \<and>
     (\<exists>status title headers mime. wf_response status title headers mime \<and>
        stream (reply req) = response_text status title headers (int (length body)) mime @ body)"

lemma client_access_counts:
  assumes "ample al" and "client_request st entry = Inr req" and "Tx_Error \<notin> set os"
    and "length req < 20000" and "answers reply req body"
  shows "client_access al st entry (Peer os reply) = Inr (int (length body))"
proof -
  obtain s where s: "sendAll req (int (length req)) \<lparr>rx = [], tx = [], txo = os\<rparr> = Inr (0, int (length req), s)"
    "tx s = req"
    using sendAll_ok [of "int (length req)" req "\<lparr>rx = [], tx = [], txo = os\<rparr>"] assms(3,4)
    by (auto simp: in_int_def)
  obtain cs' where "recvAll_NoData al (reply req) = Inr (int (length (stream (reply req))), int (length body), cs')"
    using assms(1,5) recvAll_NoData_response unfolding answers_def by blast
  then show ?thesis
    using s assms(2) by (simp add: client_access_def)
qed

lemma client_request_short: "client_request st entry = Inr req \<Longrightarrow> length req < 20000"
  by (auto simp: client_request_def snprintf_def split: option.splits if_splits)

lemma access_loop_counts:
  assumes "names \<noteq> []"
    and "\<And>j n. n < length names \<Longrightarrow> client_access al st (names ! n) (attempts m me j) = Inr (count j)"
  shows "access_loop al m st me names k i seed retVal = Inr (retVal + (\<Sum>j = i ..< i + k. count j))"
proof (induction k arbitrary: i seed retVal)
  case (Suc k)
  obtain r seed' where r: "rand_r m seed = (r, seed')"
    by (cases "rand_r m seed")
  have "nat (r mod int (length names)) < length names"
    using assms(1) by (simp add: nat_less_iff)
  then have "client_access al st (names ! nat (r mod int (length names))) (attempts m me i) = Inr (count i)"
    by (rule assms(2))
  moreover have "(\<Sum>j = i ..< i + Suc k. count j) = count i + (\<Sum>j = Suc i ..< Suc i + k. count j)"
    by (simp add: sum.atLeast_Suc_lessThan)
  ultimately show ?case
    using assms(1) Suc.IH [of "Suc i" seed' "retVal + count i"] r by simp
qed simp

lemma join_threads_sum:
  assumes "\<And>i. run i = Inr (count i)"
  shows "join_threads run k i acc = Inr (acc + (\<Sum>j = i ..< i + k. count j))"
proof (induction k arbitrary: i acc)
  case (Suc k)
  have "(\<Sum>j = i ..< i + Suc k. count j) = count i + (\<Sum>j = Suc i ..< Suc i + k. count j)"
    by (simp add: sum.atLeast_Suc_lessThan)
  then show ?case
    using Suc.IH [of "Suc i" "acc + count i"] by (simp add: assms)
qed simp

end
