(* ===== verification/Forward.thy ===== *)
theory Forward
  imports Response
begin

text \<open>
  \<open>recvAll_Forward\<close> (src/functions/xmlrpc.c): the proxy passes the server's response on to the
  client while it arrives, or buffers an image and has it compressed by the image server first. The
  image server is reached through the Xmlrpc-c library and is a parameter: what it makes of an
  image, or \<open>None\<close> for a fault.
\<close>

section \<open>The function\<close>

text \<open>
  \<open>imgBuffer\<close> is \<open>None\<close> as long as the pointer was not assigned, which it is not on entry;
  \<open>realloc\<close> and the image server read it.
\<close>

definition grow_image :: "allocator \<Rightarrow> buffer option \<Rightarrow> buffer \<Rightarrow> buffer option result" where
  "grow_image al imgBuffer bytes =
     (case imgBuffer of
        None \<Rightarrow> Inl Uninit_Read
      | Some b \<Rightarrow>
          if \<not> al (int (length b) + int (length bytes)) then Inl Null_Deref
          else Inr (Some (b @ bytes)))"

text \<open>
  The image goes out compressed: \<open>-1\<close> (\<open>None\<close>) on a fault or a failed send, else the bytes sent.
  After a fault in the loop \<open>compImgBuffer\<close> is freed, which nothing has assigned either.
\<close>

definition send_image :: "(buffer \<Rightarrow> buffer option) \<Rightarrow> bool \<Rightarrow> buffer option \<Rightarrow> sock \<Rightarrow>
  (int option \<times> sock) result" where
  "send_image compress sudden imgBuffer toSock =
     (case imgBuffer of
        None \<Rightarrow> Inl Uninit_Read
      | Some b \<Rightarrow>
          (case compress b of
             None \<Rightarrow> if sudden then Inl Uninit_Read else Inr (None, toSock)
           | Some c \<Rightarrow> bindR (sendAll c (int (length c)) toSock) (\<lambda>(ret, n, toSock').
               Inr (if ret < 0 then None else Some n, toSock'))))"

text \<open>
  The loop: what came of \<open>bytesSent\<close> and \<open>imgBuffer\<close>, or \<open>None\<close> for a return of \<open>-1\<close>; the flag
  says that the server closed the connection, which returns from inside the loop.
\<close>

type_synonym forward_end = "((int \<times> buffer option \<times> bool) option \<times> sock \<times> chunk list) result"

function forward_loop :: "allocator \<Rightarrow> (buffer \<Rightarrow> buffer option) \<Rightarrow> bool \<Rightarrow> int \<Rightarrow> int \<Rightarrow> int \<Rightarrow>
  buffer option \<Rightarrow> chunk list \<Rightarrow> sock \<Rightarrow> forward_end" where
  "forward_loop al compress compression bodyLength bytesReceived bytesSent imgBuffer cs toSock =
     (if bytesReceived < bodyLength \<or> bodyLength < 0 then
        (case recv 19999 cs of
           (Failed, cs') \<Rightarrow> Inr (None, toSock, cs')
         | (Closed, cs') \<Rightarrow>
             if compression then
               bindR (send_image compress True imgBuffer toSock) (\<lambda>(r, toSock').
                 Inr (map_option (\<lambda>n. (n, imgBuffer, True)) r, toSock', cs'))
             else Inr (Some (bytesSent, imgBuffer, True), toSock, cs')
         | (Got b, cs') \<Rightarrow>
             if compression then
               bindR (grow_image al imgBuffer b) (\<lambda>imgBuffer'.
                 forward_loop al compress compression bodyLength (bytesReceived + int (length b))
                   (bytesSent + int (length b)) imgBuffer' cs' toSock)
             else bindR (sendAll b (int (length b)) toSock) (\<lambda>(ret, n, toSock').
               if ret < 0 then Inr (None, toSock', cs')
               else forward_loop al compress compression bodyLength (bytesReceived + int (length b))
                      (bytesSent + n) imgBuffer cs' toSock'))
      else Inr (Some (bytesSent, imgBuffer, False), toSock, cs))"
  by pat_completeness auto
termination
  by (relation "measure (\<lambda>(al, f, c, n, r, s, i, cs, t). rx_size cs)") (auto dest: recv_Got(5) [OF sym])

declare forward_loop.simps [simp del]

text \<open>The return value, converted to \<open>int\<close>, the client's socket, and what is left to receive.\<close>

definition recvAll_Forward :: "allocator \<Rightarrow> (buffer \<Rightarrow> buffer option) \<Rightarrow> bool \<Rightarrow> buffer \<Rightarrow> int \<Rightarrow> int \<Rightarrow>
  chunk list \<Rightarrow> sock \<Rightarrow> (int \<times> sock \<times> chunk list) result" where
  "recvAll_Forward al compress compression header headerLength bodyLength cs toSock =
     bindR (sendAll header headerLength toSock) (\<lambda>(ret, hLen, to1).
       if ret < 0 then Inr (- 1, to1, cs)
       else bindR (forward_loop al compress compression bodyLength 0 0 None cs to1) (\<lambda>(r, to2, cs').
         case r of
           None \<Rightarrow> Inr (- 1, to2, cs')
         | Some (bytesSent, imgBuffer, closed) \<Rightarrow>
             if \<not> closed \<and> compression \<and> 0 < bytesSent then
               bindR (send_image compress False imgBuffer to2) (\<lambda>(q, to3).
                 Inr (case q of None \<Rightarrow> - 1 | Some n \<Rightarrow> c_int (hLen + n), to3, cs'))
             else Inr (c_int (hLen + bytesSent), to2, cs')))"

section \<open>An image over shared memory\<close>

text \<open>
  What \<open>sharedProxy\<close> (src/proxy.c) does with the segments of a response that is to be compressed:
  it collects them, header and all, behind \<open>imageBuffer\<close>, whose pointer and count are locals that
  nothing has assigned (\<open>None\<close>; \<open>Some []\<close> is a stack that holds zeros by chance), and sends what the
  image server makes of them. Faults are only printed: the result is then taken from a pointer that
  was not assigned either.
\<close>

fun shared_image_loop :: "allocator \<Rightarrow> buffer option \<Rightarrow> buffer list \<Rightarrow> buffer option result" where
  "shared_image_loop al imageBuffer [] = Inr imageBuffer"
| "shared_image_loop al imageBuffer (seg # segs) =
     bindR (grow_image al imageBuffer seg) (\<lambda>b. shared_image_loop al b segs)"

definition shared_image_end :: "(buffer \<Rightarrow> buffer option) \<Rightarrow> buffer option \<Rightarrow> sock \<Rightarrow> sock result" where
  "shared_image_end compress imageBuffer toSock =
     (case imageBuffer of
        None \<Rightarrow> Inl Uninit_Read
      | Some b \<Rightarrow>
          (case compress b of
             None \<Rightarrow> Inl Uninit_Read
           | Some compImg \<Rightarrow>
               bindR (sendAll compImg (int (length compImg)) toSock) (\<lambda>(ret, n, toSock'). Inr toSock')))"

definition shared_image :: "allocator \<Rightarrow> (buffer \<Rightarrow> buffer option) \<Rightarrow> buffer option \<Rightarrow> buffer list \<Rightarrow> sock \<Rightarrow> sock result" where
  "shared_image al compress imageBuffer rs toSock =
     bindR (shared_image_loop al imageBuffer rs) (\<lambda>b. shared_image_end compress b toSock)"

section \<open>What it does\<close>

text \<open>
  Without compression the whole body passes: all that arrives until the end when its length was not
  announced, and until the announced length otherwise.
\<close>

lemma in_int_mono: "in_int (int (length (a @ b))) \<Longrightarrow> in_int (int (length a)) \<and> in_int (int (length b))"
  by (simp add: in_int_def)

lemma forward_loop_passes:
  assumes "clean cs" and "txo toSock = []" and "in_int (int (length (stream cs)))"
    and "bodyLength < 0 \<or> int (length (stream cs)) = bodyLength - bytesReceived" and "0 \<le> bytesReceived"
  shows "\<exists>closed cs'. forward_loop al compress False bodyLength bytesReceived bytesSent img cs toSock =
    Inr (Some (bytesSent + int (length (stream cs)), img, closed), toSock\<lparr>tx := tx toSock @ stream cs\<rparr>, cs') \<and>
    stream cs' = []"
  using assms
proof (induction "rx_size cs" arbitrary: cs toSock bytesReceived bytesSent rule: less_induct)
  case less
  show ?case
  proof (cases "bytesReceived < bodyLength \<or> bodyLength < 0")
    case False
    then have "int (length (stream cs)) \<le> 0"
      using less.prems(4) by linarith
    then have "stream cs = []"
      by simp
    then show ?thesis
      using False by (subst forward_loop.simps) auto
  next
    case on: True
    obtain r cs1 where r: "recv 19999 cs = (r, cs1)"
      by (cases "recv 19999 cs")
    show ?thesis
    proof (cases r)
      case (Got b)
      note g = recv_Got [OF r [unfolded Got], simplified]
      have len: "in_int (int (length b))" "in_int (int (length (stream cs1)))"
        using less.prems(3) in_int_mono [of b "stream cs1"] g(3) by simp_all
      let ?t = "toSock\<lparr>tx := tx toSock @ b\<rparr>"
      have "\<exists>closed cs'. forward_loop al compress False bodyLength (bytesReceived + int (length b))
          (bytesSent + int (length b)) img cs1 ?t =
        Inr (Some (bytesSent + int (length b) + int (length (stream cs1)), img, closed),
          ?t\<lparr>tx := tx ?t @ stream cs1\<rparr>, cs') \<and> stream cs' = []"
        by (rule less.hyps [OF g(5)]) (use g len less.prems in auto)
      then obtain closed cs' where IH: "forward_loop al compress False bodyLength (bytesReceived + int (length b))
          (bytesSent + int (length b)) img cs1 ?t =
        Inr (Some (bytesSent + int (length b) + int (length (stream cs1)), img, closed),
          ?t\<lparr>tx := tx ?t @ stream cs1\<rparr>, cs')" "stream cs' = []"
        by (elim exE conjE) (rule that)
      have "sendAll b (int (length b)) toSock = Inr (0, int (length b), ?t)"
        using less.prems(2) len(1) by (rule sendAll_plain)
      then have "forward_loop al compress False bodyLength bytesReceived bytesSent img cs toSock =
          forward_loop al compress False bodyLength (bytesReceived + int (length b))
            (bytesSent + int (length b)) img cs1 ?t"
        using on r Got by (subst forward_loop.simps) simp
      then show ?thesis
        using IH g(3) by (intro exI [of _ closed] exI [of _ cs']) simp
    next
      case Closed
      then show ?thesis
        using on r recv_Closed [of 19999 cs cs1] by (subst forward_loop.simps) auto
    next
      case Failed
      then show ?thesis
        using r less.prems(1) recv_Failed [of 19999 cs cs1] by simp
    qed
  qed
qed

lemma recvAll_Forward_passes:
  assumes "clean cs" and "txo toSock = []" and "in_int (int (length (h @ stream cs)))"
    and "bodyLength < 0 \<or> int (length (stream cs)) = bodyLength"
  shows "\<exists>cs'. recvAll_Forward al compress False h (int (length h)) bodyLength cs toSock =
    Inr (int (length (h @ stream cs)), toSock\<lparr>tx := tx toSock @ h @ stream cs\<rparr>, cs')"
proof -
  let ?t = "toSock\<lparr>tx := tx toSock @ h\<rparr>"
  have len: "in_int (int (length h))" "in_int (int (length (stream cs)))"
    using in_int_mono [OF assms(3)] by simp_all
  obtain closed cs' where "forward_loop al compress False bodyLength 0 0 None cs ?t =
      Inr (Some (int (length (stream cs)), None, closed), ?t\<lparr>tx := tx ?t @ stream cs\<rparr>, cs')"
    using forward_loop_passes [OF assms(1) _ len(2), of ?t bodyLength 0 al compress 0 None] assms(2,4) by auto
  then show ?thesis
    using sendAll_plain [OF assms(2) len(1)] assms(3) by (simp add: recvAll_Forward_def)
qed

text \<open>With compression the first byte of the body is the end: the buffer was never assigned.\<close>

lemma recvAll_Forward_image:
  assumes "sendAll h hLen toSock = Inr (0, hLen, to1)" and "bodyLength \<noteq> 0" and "clean cs"
  shows "recvAll_Forward al compress True h hLen bodyLength cs toSock = Inl Uninit_Read"
proof -
  have "recv 19999 cs = (r, cs1) \<Longrightarrow> r \<noteq> Failed" for r cs1
    using assms(3) recv_Failed [of 19999 cs cs1] by auto
  then have "forward_loop al compress True bodyLength 0 0 None cs to1 = Inl Uninit_Read"
    using assms(2)
    by (cases "recv 19999 cs"; cases "fst (recv 19999 cs)")
      (subst forward_loop.simps, auto simp: grow_image_def send_image_def split: received.split)+
  then show ?thesis
    using assms(1) by (simp add: recvAll_Forward_def)
qed

lemma shared_image_collects:
  "ample al \<Longrightarrow> shared_image_loop al (Some b) rs = Inr (Some (b @ concat rs))"
  by (induction rs arbitrary: b) (simp_all add: grow_image_def ample_grants)

section \<open>Properties\<close>

text \<open>
  Without compression the proxy passes the server's header and the whole body on to the client
  byte by byte, however the bytes arrive, whether the length was announced or not, and returns how
  many they are.
\<close>

theorem forward_verbatim:
  assumes "clean cs" and "txo toSock = []" and "in_int (int (length (h @ stream cs)))"
    and "bodyLength < 0 \<or> int (length (stream cs)) = bodyLength"
  shows "\<exists>cs'. recvAll_Forward al compress False h (int (length h)) bodyLength cs toSock =
    Inr (int (length (h @ stream cs)), toSock\<lparr>tx := tx toSock @ h @ stream cs\<rparr>, cs')"
  using assms by (rule recvAll_Forward_passes)

theorem forward_verbatim_witness:
  "\<exists>cs'. recvAll_Forward (\<lambda>n. 0 \<le> n) (\<lambda>b. None) False ''head'' 4 3 [Data ''ab'', Data ''c''] \<lparr>rx = [], tx = [], txo = []\<rparr> =
    Inr (7, \<lparr>rx = [], tx = ''headabc'', txo = []\<rparr>, cs')"
  using forward_verbatim [of "[Data ''ab'', Data ''c'']" "\<lparr>rx = [], tx = [], txo = []\<rparr>" "''head''" 3]
  by (simp add: in_int_def)

text \<open>
  C38: a response that is to be compressed never reaches the image server: with the first bytes of its
  body, or with the end of the connection in their place, the uninitialised pointer to the image's
  buffer is read.
\<close>

theorem forward_image_uninit:
  assumes "txo toSock = []" and "in_int (int (length h))" and "bodyLength \<noteq> 0" and "clean cs"
  shows "recvAll_Forward al compress True h (int (length h)) bodyLength cs toSock = Inl Uninit_Read"
  using sendAll_plain [OF assms(1,2)] assms(3,4) by (rule recvAll_Forward_image)

theorem forward_image_uninit_witness:
  "recvAll_Forward (\<lambda>n. 0 \<le> n) Some True ''head'' 4 3 [Data ''abc''] \<lparr>rx = [], tx = [], txo = []\<rparr> = Inl Uninit_Read"
  using forward_image_uninit [of "\<lparr>rx = [], tx = [], txo = []\<rparr>" "''head''" 3 "[Data ''abc'']"]
  by (simp add: in_int_def)

text \<open>
  C39: an image over shared memory fares no better: the first segment is put behind a pointer that
  nothing has assigned; and were it null by chance, the response's header would go into the image
  server together with the image, and the client would receive the compressed bytes alone, without
  any header.
\<close>

theorem shared_image_headless:
  assumes "ample al" and "compress (header @ body) = Some img" and "txo toSock = []" and "in_int (int (length img))"
    and "concat rs = header @ body" and "rs \<noteq> []"
  shows "shared_image al compress None rs toSock = Inl Uninit_Read \<and>
    shared_image al compress (Some []) rs toSock = Inr (toSock\<lparr>tx := tx toSock @ img\<rparr>)"
proof -
  have "shared_image al compress (Some []) rs toSock = Inr (toSock\<lparr>tx := tx toSock @ img\<rparr>)"
    using shared_image_collects [OF assms(1), of "[]" rs] assms(2,5) sendAll_plain [OF assms(3,4)]
    by (simp add: shared_image_def shared_image_end_def)
  moreover have "shared_image al compress None rs toSock = Inl Uninit_Read"
    using assms(6) by (cases rs) (simp_all add: shared_image_def grow_image_def)
  ultimately show ?thesis
    by blast
qed

theorem shared_image_headless_witness:
  "shared_image (\<lambda>n. 0 \<le> n) (\<lambda>b. Some (take 2 b)) (Some []) [''HTTP'', ''jpg''] \<lparr>rx = [], tx = [], txo = []\<rparr> =
     Inr \<lparr>rx = [], tx = ''HT'', txo = []\<rparr>"
  using shared_image_headless [OF ample_nonneg, of "\<lambda>b. Some (take 2 b)" "''HTTP''" "''jpg''" "''HT''"
      "\<lparr>rx = [], tx = [], txo = []\<rparr>" "[''HTTP'', ''jpg'']"]
  by (simp add: in_int_def)

end
