(* ===== verification/MemList.thy ===== *)
theory MemList
  imports Recv
begin

text \<open>
  The shared memory of src/headers/memList.h and memList.c: the metanode, the nodes, the search
  for a state, the mapping of data into a node, and the creation and removal of the segments over
  a model of the system's shared memory objects.
\<close>

section \<open>Nodes\<close>

datatype flag = OFFLINE | ONLINE

datatype state_t =
    IDLE
  | BUSY
  | WAITING_INIT_SRVR
  | WAITING_CONT_PRXY
  | WAITING_CONT_SRVR
  | COMPLETE

record metanode =
  serverFlag :: flag
  proxyFlag :: flag
  metaNodes :: int

text \<open>
  The mutex holds its owner; the condition variable holds the threads that wait on it, in order.
\<close>

record memnode =
  mem :: buffer
  spaceUsed :: int
  proxyState :: state_t
  serverState :: state_t
  mutex :: "nat option"
  condition :: "nat list"

text \<open>What a run of zero bytes is as a metanode and as a node; the size of a node on x86-64.\<close>

definition zero_meta :: metanode where
  "zero_meta = \<lparr>serverFlag = OFFLINE, proxyFlag = OFFLINE, metaNodes = 0\<rparr>"

definition zero_node :: memnode where
  "zero_node = \<lparr>mem = replicate SEGMENTSIZE NUL, spaceUsed = 0, proxyState = IDLE,
     serverState = IDLE, mutex = None, condition = []\<rparr>"

definition sizeof_metanode :: int where "sizeof_metanode = 12"
definition sizeof_memnode :: int where "sizeof_memnode = 10104"

section \<open>Searching and mapping\<close>

function findState_loop :: "memnode list \<Rightarrow> int \<Rightarrow> state_t \<Rightarrow> nat \<Rightarrow> nat option result" where
  "findState_loop list len s i =
     (if int i < len then
        bindR (rd list i) (\<lambda>n.
          if proxyState n = s then Inr (Some i) else findState_loop list len s (Suc i))
      else Inr None)"
  by pat_completeness auto
termination
  by (relation "measure (\<lambda>(list, len, s, i). nat (len - int i))") auto

declare findState_loop.simps [simp del]

definition findState :: "memnode list \<Rightarrow> int \<Rightarrow> state_t \<Rightarrow> nat option result" where
  "findState list len s = findState_loop list len s 0"

text \<open>
  \<open>memset\<close> and \<open>memcpy\<close> of \<open>dataLength\<close> bytes into the node, with no check against the size of
  its memory; a negative length is converted to a huge one. \<open>memcpy\<close> returns its destination, so
  the error branch is never taken.
\<close>

definition setMapping :: "memnode \<Rightarrow> buffer \<Rightarrow> int \<Rightarrow> (int \<times> memnode) result" where
  "setMapping node data dataLength =
     (if dataLength < 0 \<or> int (length (mem node)) < dataLength then Inl Over_Write
      else if int (length data) < dataLength then Inl Over_Read
      else
        let n = nat dataLength;
            cleared = replicate n NUL @ drop n (mem node);
            copied = take n data @ drop n cleared
        in Inr (dataLength, node\<lparr>mem := copied, spaceUsed := dataLength\<rparr>))"

subsection \<open>What they give\<close>

lemma findState_loop_find:
  "len \<le> int (length ns) \<Longrightarrow>
     findState_loop ns len s i = Inr (List.find (\<lambda>j. proxyState (ns ! j) = s) [i ..< nat len])"
proof (induction ns len s i rule: findState_loop.induct)
  case (1 ns len s i)
  show ?case
  proof (cases "int i < len")
    case False
    then show ?thesis
      by (subst findState_loop.simps) simp
  next
    case True
    then have i: "i < length ns" "[i ..< nat len] = i # [Suc i ..< nat len]"
      using "1.prems" by (simp_all add: upt_conv_Cons zless_nat_eq_int_zless)
    have IH: "findState_loop ns len s (Suc i) =
        Inr (List.find (\<lambda>j. proxyState (ns ! j) = s) [Suc i ..< nat len])"
      if "proxyState (ns ! i) \<noteq> s"
      using "1.IH" [OF True] i(1) that "1.prems" by simp
    show ?thesis
      using i True IH by (subst findState_loop.simps) simp
  qed
qed

lemma findState_find:
  "len \<le> int (length ns) \<Longrightarrow>
     findState ns len s = Inr (List.find (\<lambda>j. proxyState (ns ! j) = s) [0 ..< nat len])"
  by (simp add: findState_def findState_loop_find)

lemma findState_Some:
  assumes "len \<le> int (length ns)"
  shows "findState ns len s = Inr (Some k) \<longleftrightarrow>
    int k < len \<and> proxyState (ns ! k) = s \<and> (\<forall>j < k. proxyState (ns ! j) \<noteq> s)"
  using assms by (auto simp: findState_find find_Some_iff zless_nat_eq_int_zless)

lemma findState_None:
  assumes "len \<le> int (length ns)"
  shows "findState ns len s = Inr None \<longleftrightarrow> (\<forall>j. int j < len \<longrightarrow> proxyState (ns ! j) \<noteq> s)"
  using assms by (auto simp: findState_find find_None_iff zless_nat_eq_int_zless)

lemma setMapping_fits:
  assumes "length (mem node) = SEGMENTSIZE" and "length d \<le> SEGMENTSIZE"
  shows "setMapping node d (int (length d)) =
    Inr (int (length d),
         node\<lparr>mem := d @ drop (length d) (mem node), spaceUsed := int (length d)\<rparr>)"
  using assms by (simp add: setMapping_def Let_def)

section \<open>Shared memory objects\<close>

text \<open>
  A shared memory object has a size and, in its typed view, a content; \<open>calls\<close> says which of the
  system calls to come succeed (past its end they all do).
\<close>

datatype segment = Meta metanode | Nodes "memnode list"

record shm =
  objs :: "string \<Rightarrow> (int \<times> segment) option"
  calls :: "bool list"

definition granted_call :: "shm \<Rightarrow> bool" where
  "granted_call os = (case calls os of [] \<Rightarrow> True | c # cs \<Rightarrow> c)"

definition called :: "shm \<Rightarrow> shm" where
  "called os = os\<lparr>calls := tl (calls os)\<rparr>"

text \<open>
  The name stands for the returned pointer: the mapping shows the object of that name. \<open>zero\<close> is
  the caller's view of \<open>blockSize\<close> zero bytes. A failed \<open>ftruncate\<close> leaves an object of no bytes
  behind, a failed \<open>mmap\<close> or \<open>close\<close> a full one.
\<close>

definition memOps_Create :: "string \<Rightarrow> int \<Rightarrow> segment \<Rightarrow> shm \<Rightarrow> string option \<times> bool \<times> shm" where
  "memOps_Create name blockSize zero os =
     (let mapped = (\<lambda>exists os.
            if \<not> granted_call os then (None, exists, called os)
            else if \<not> granted_call (called os) then (None, exists, called (called os))
            else (Some name, exists, called (called os)))
      in case objs os name of
           Some _ \<Rightarrow>
             if \<not> granted_call os then (None, True, called os) else mapped True (called os)
         | None \<Rightarrow>
             if \<not> granted_call os then (None, False, called os)
             else
               let os1 = called os in
               if \<not> granted_call os1 then
                 (None, False, (called os1)\<lparr>objs := (objs os1)(name \<mapsto> (0, zero))\<rparr>)
               else mapped False ((called os1)\<lparr>objs := (objs os1)(name \<mapsto> (blockSize, zero))\<rparr>))"

text \<open>\<open>munmap\<close>, then \<open>shm_unlink\<close>.\<close>

definition memOps_Destroy :: "string \<Rightarrow> shm \<Rightarrow> int \<times> shm" where
  "memOps_Destroy name os =
     (if \<not> granted_call os then (- 1, called os)
      else if objs os name = None \<or> \<not> granted_call (called os) then (- 1, called (called os))
      else (0, (called (called os))\<lparr>objs := (objs os)(name := None)\<rparr>))"

text \<open>The nodes a mapping of \<open>numNodes\<close> nodes can touch: those that the object's size covers.\<close>

definition mapped_nodes :: "shm \<Rightarrow> memnode list" where
  "mapped_nodes os = (case objs os SEGMENTNAME of
     Some (sz, Nodes ns) \<Rightarrow> take (nat (sz div sizeof_memnode)) ns
   | _ \<Rightarrow> [])"

text \<open>The initialisation of a new list, node by node.\<close>

primrec init_nodes :: "nat \<Rightarrow> memnode list \<Rightarrow> memnode list result" where
  "init_nodes 0 ns = Inr ns"
| "init_nodes (Suc i) ns =
     bindR (init_nodes i ns) (\<lambda>ns'.
       bindR (rd ns' i) (\<lambda>n.
         wr ns' i (n\<lparr>mutex := None, condition := [], spaceUsed := 0,
                     proxyState := IDLE, serverState := IDLE\<rparr>)))"

definition getMemList :: "int \<Rightarrow> shm \<Rightarrow> (string option \<times> shm) result" where
  "getMemList numNodes os =
     (case memOps_Create SEGMENTNAME (sizeof_memnode * numNodes)
             (Nodes (replicate (nat numNodes) zero_node)) os of
        (None, exists, os1) \<Rightarrow> Inr (None, os1)
      | (Some name, exists, os1) \<Rightarrow>
          if exists then Inr (Some name, os1)
          else bindR (init_nodes (nat numNodes) (mapped_nodes os1)) (\<lambda>ns.
            Inr (Some name,
                 os1\<lparr>objs := (objs os1)(SEGMENTNAME \<mapsto> (sizeof_memnode * numNodes, Nodes ns))\<rparr>)))"

text \<open>
  The results of destroying the synchronisation variables are ignored, but the nodes they are in
  are touched.
\<close>

definition destroyMemList :: "int \<Rightarrow> shm \<Rightarrow> (int \<times> shm) result" where
  "destroyMemList len os =
     (if int (length (mapped_nodes os)) < len then Inl Over_Read
      else case memOps_Destroy SEGMENTNAME os of
        (r, os') \<Rightarrow> Inr (if r < 0 then - 1 else 0, os'))"

definition getMetanode :: "shm \<Rightarrow> string option \<times> shm" where
  "getMetanode os =
     (case memOps_Create METANODENAME sizeof_metanode (Meta zero_meta) os of
        (None, exists, os1) \<Rightarrow> (None, os1)
      | (Some name, exists, os1) \<Rightarrow>
          (Some name,
           if exists then os1
           else os1\<lparr>objs := (objs os1)(METANODENAME \<mapsto> (sizeof_metanode, Meta zero_meta))\<rparr>))"

definition destroyMetanode :: "shm \<Rightarrow> int \<times> shm" where
  "destroyMetanode os =
     (case memOps_Destroy METANODENAME os of (r, os') \<Rightarrow> (if r < 0 then - 1 else 0, os'))"

text \<open>The metanode as the processes that mapped it see it.\<close>

definition the_meta :: "shm \<Rightarrow> metanode result" where
  "the_meta os = (case objs os METANODENAME of Some (sz, Meta m) \<Rightarrow> Inr m | _ \<Rightarrow> Inl Over_Read)"

definition set_meta :: "(metanode \<Rightarrow> metanode) \<Rightarrow> shm \<Rightarrow> shm result" where
  "set_meta f os = bindR (the_meta os) (\<lambda>m.
     Inr (os\<lparr>objs := (objs os)(METANODENAME \<mapsto> (sizeof_metanode, Meta (f m)))\<rparr>))"


subsection \<open>Creating and removing the list\<close>

lemmas memOps_defs = memOps_Create_def granted_call_def called_def Let_def

lemma init_nodes_zero:
  "k \<le> n \<Longrightarrow> init_nodes k (replicate n zero_node) = Inr (replicate n zero_node)"
proof (induction k)
  case (Suc k)
  moreover have "(replicate n zero_node)[k := zero_node] = replicate n zero_node"
    by (metis Suc.prems list_update_id nth_replicate Suc_le_lessD)
  ultimately show ?case
    by (simp add: zero_node_def)
qed simp

lemma mapped_all:
  assumes "objs os SEGMENTNAME = Some (sizeof_memnode * n, Nodes ns)" and "length ns = nat n"
  shows "mapped_nodes os = ns"
  using assms by (simp add: mapped_nodes_def sizeof_memnode_def)

lemma getMemList_new:
  assumes "objs os SEGMENTNAME = None" and "calls os = []"
  shows "\<exists>os'. getMemList n os = Inr (Some SEGMENTNAME, os') \<and>
    mapped_nodes os' = replicate (nat n) zero_node \<and> objs os' = (objs os)
      (SEGMENTNAME \<mapsto> (sizeof_memnode * n, Nodes (replicate (nat n) zero_node))) \<and> calls os' = []"
proof -
  define os1 where "os1 = os\<lparr>objs := (objs os)
      (SEGMENTNAME \<mapsto> (sizeof_memnode * n, Nodes (replicate (nat n) zero_node)))\<rparr>"
  have c: "memOps_Create SEGMENTNAME (sizeof_memnode * n) (Nodes (replicate (nat n) zero_node)) os =
      (Some SEGMENTNAME, False, os1)"
    using assms by (simp add: memOps_defs os1_def)
  have m: "mapped_nodes os1 = replicate (nat n) zero_node"
    by (rule mapped_all [where n = n]) (simp_all add: os1_def)
  then show ?thesis
    using assms(2) by (simp add: getMemList_def c init_nodes_zero mapped_all os1_def)
qed

lemma getMemList_again:
  assumes "objs os SEGMENTNAME = Some obj" and "calls os = []"
  shows "getMemList n os = Inr (Some SEGMENTNAME, os)"
  using assms by (simp add: getMemList_def memOps_defs)

lemma getMetanode_new:
  assumes "objs os METANODENAME = None" and "calls os = []"
  shows "getMetanode os = (Some METANODENAME,
    os\<lparr>objs := (objs os)(METANODENAME \<mapsto> (sizeof_metanode, Meta zero_meta))\<rparr>)"
  using assms by (simp add: getMetanode_def memOps_defs)

lemma getMetanode_again:
  assumes "objs os METANODENAME = Some obj" and "calls os = []"
  shows "getMetanode os = (Some METANODENAME, os)"
  using assms by (simp add: getMetanode_def memOps_defs)

text \<open>
  When \<open>ftruncate\<close> fails the object stays, with no bytes: the next attempt finds it, does not
  initialise it, and gives a pointer through which not even the first node can be read.
\<close>

lemma getMemList_truncate_fails:
  assumes "objs os SEGMENTNAME = None" and "calls os = [True, False]"
  shows "\<exists>os'. getMemList n os = Inr (None, os') \<and> getMemList m os' = Inr (Some SEGMENTNAME, os') \<and>
    (\<forall>s. 0 < m \<longrightarrow> findState (mapped_nodes os') m s = Inl Over_Read)"
proof -
  let ?os = "\<lparr>objs = (objs os)(SEGMENTNAME \<mapsto> (0, Nodes (replicate (nat n) zero_node))), calls = []\<rparr>"
  have "getMemList n os = Inr (None, ?os)"
    using assms by (simp add: getMemList_def memOps_defs)
  moreover have "getMemList m ?os = Inr (Some SEGMENTNAME, ?os)"
    by (rule getMemList_again) auto
  moreover have "findState (mapped_nodes ?os) m s = Inl Over_Read" if "0 < m" for s
    using that by (simp add: mapped_nodes_def findState_def findState_loop.simps rd_def)
  ultimately show ?thesis
    by blast
qed

lemma memOps_Destroy_present:
  assumes "objs os name = Some obj" and "calls os = []"
  shows "memOps_Destroy name os = (0, os\<lparr>objs := (objs os)(name := None)\<rparr>)"
  using assms by (simp add: memOps_Destroy_def granted_call_def called_def)

lemma destroyMemList_all:
  assumes "objs os SEGMENTNAME = Some (sizeof_memnode * n, Nodes ns)" and "length ns = nat n"
    and "calls os = []"
  shows "destroyMemList n os = Inr (0, os\<lparr>objs := (objs os)(SEGMENTNAME := None)\<rparr>)"
  using assms mapped_all [OF assms(1,2)] by (simp add: destroyMemList_def memOps_Destroy_present)

end
