(* ===== verification/Requests.thy ===== *)
theory Requests
  imports Response
begin

text \<open>
  Requests as src/client.c writes them, on the receiving side: the request line and a \<open>Host\<close> line.
  \<open>recvHeader\<close> takes such a request off a connection whole; in looking for a body's length it reads
  the second word of the first line as a status code, and runs behind its copy when the first 100
  bytes hold one blank only.
\<close>

definition request_text :: "string \<Rightarrow> string \<Rightarrow> string \<Rightarrow> string" where
  "request_text meth url host = text_lines [meth @ SP # url @ '' HTTP/1.0'', ''Host: '' @ host]"

text \<open>A word of a request: no blank, line end or NUL, and no dash.\<close>

definition word_text :: "string \<Rightarrow> bool" where
  "word_text w \<longleftrightarrow> SP \<notin> set w \<and> field_text w \<and> CHR ''-'' \<notin> set w"

lemma request_text_eq: "request_text meth url host =
    meth @ SP # url @ SP # ''HTTP/1.0'' @ EOL @ ''Host: '' @ host @ EOL @ EOL"
  by (simp add: request_text_def text_lines_def)

lemma request_no_dash:
  assumes "word_text meth" and "word_text url" and "word_text host"
  shows "CHR ''-'' \<notin> set (request_text meth url host)" and "NUL \<notin> set (request_text meth url host)"
  using assms by (auto simp: request_text_eq word_text_def field_text_def EOL_def)

lemma request_plain:
  assumes "word_text meth" and "word_text url" and "word_text host"
  shows "\<forall>l \<in> set [meth @ SP # url @ '' HTTP/1.0'', ''Host: '' @ host]. plain_line l"
  using assms by (auto simp: word_text_def field_text_def plain_line_def)

text \<open>No field of such a request announces a body.\<close>

lemma no_dash_absent:
  assumes "CHR ''-'' \<notin> set h" and "j + length ''Content-Length'' < length h"
  shows "\<not> occurs_at h ''Content-Length'' j"
proof -
  have "\<not> occurs_at (h @ (''Content'' @ CHR ''-'' # ''Length'') @ []) (''Content'' @ CHR ''-'' # ''Length'') j"
    using assms by (intro occurs_at_lacks) simp_all
  moreover have "take 14 (drop j (h @ ''Content-Length'')) = take 14 (drop j h)"
    using assms(2) by simp
  ultimately show ?thesis
    using assms(2) by (simp add: occurs_at_def prefix_take_iff take_map)
qed

lemma getStatusCode_request:
  assumes "word_text meth" and "word_text url" and "length meth + length url < 98"
    and "url = c # u" and "\<not> isdigit c" and "\<not> isspace c" and "c \<noteq> CHR ''-''" and "c \<noteq> CHR ''+''" and "ample al"
  shows "getStatusCode al (request_text meth url host) (length (request_text meth url host)) = Inr 0"
proof -
  have "\<exists>r. getStatusCode al (request_text meth url host) (length (request_text meth url host)) =
      c_atoi (url @ drop (length url) (meth @ SP # url @ SP # r))"
    by (rule getStatusCode_word [OF request_text_eq])
      (use assms in \<open>auto simp: word_text_def field_text_def\<close>)
  then show ?thesis
    using assms(4-8)
    by (auto simp: c_atoi_def scan_rest_def atoi_def strtol_val_def clamp_long_def in_int_def)
qed

lemma announced_request:
  assumes "word_text meth" and "word_text url" and "word_text host" and "length meth + length url < 98"
    and "url = c # u" and "\<not> isdigit c" and "\<not> isspace c" and "c \<noteq> CHR ''-''" and "c \<noteq> CHR ''+''" and "ample al"
  shows "announced al (request_text meth url host) = Inr 0"
proof -
  have "getHeaderField al (request_text meth url host) (length (request_text meth url host)) ''Content-Length'' = Inr None"
    using request_no_dash [OF assms(1-3)] no_dash_absent by (intro getHeaderField_absent) auto
  then show ?thesis
    using getStatusCode_request [OF assms(1,2,4-10)] by (simp add: announced_def)
qed

lemma recvHeader_request:
  assumes "word_text meth" and "word_text url" and "word_text host" and "length meth + length url < 98"
    and "url = c # u" and "\<not> isdigit c" and "\<not> isspace c" and "c \<noteq> CHR ''-''" and "c \<noteq> CHR ''+''" and "ample al"
    and "clean cs" and "stream cs = request_text meth url host @ rest"
  shows "\<exists>cs'. recvHeader al cs = Inr (Some (request_text meth url host), int (length (request_text meth url host)), 0, cs') \<and>
    stream cs' = rest \<and> clean cs'"
  using recvHeader_lines [OF request_plain [OF assms(1-3)] _ assms(11) _ assms(10)] assms(12)
    announced_request [OF assms(1-10)]
  unfolding request_text_def by blast

text \<open>A longer first word pair: the code behind the copy of 100 bytes is read.\<close>

lemma recvHeader_long_request:
  assumes "word_text meth" and "word_text url" and "word_text host" and "meth \<noteq> []"
    and "100 \<le> length meth + length url" and "length meth < 99" and "ample al"
    and "clean cs" and "stream cs = request_text meth url host @ rest"
  shows "recvHeader al cs = Inl Over_Read"
proof -
  let ?h = "request_text meth url host"
  have "getHeaderField al ?h (length ?h) ''Content-Length'' = Inr None"
    using request_no_dash [OF assms(1-3)] no_dash_absent by (intro getHeaderField_absent) auto
  moreover have len: "100 < length ?h"
    using assms(5) by (simp add: request_text_eq EOL_def)
  have t: "take (min 100 (length ?h)) ?h = meth @ SP # take (99 - length meth) url"
    using len assms(5,6) by (simp add: request_text_eq take_Cons')
  have "getStatusCode al ?h (length ?h) = Inl Over_Read"
    by (rule getStatusCode_no_blank [OF t])
      (use assms in \<open>auto simp: word_text_def field_text_def dest: in_set_takeD\<close>)
  ultimately have "announced al ?h = Inl Over_Read"
    by (simp add: announced_def)
  moreover have "ends_blank ?h"
    unfolding request_text_def by (rule text_lines_ends) simp
  moreover have "\<not> ends_blank (take k ?h)" if "k < length ?h" for k
    using that request_plain [OF assms(1-3)] unfolding request_text_def by (intro text_lines_first_blank)
  moreover have "?h \<noteq> []"
    using len by auto
  ultimately have "announced al ?h = Inl Over_Read"
    "\<exists>cs'. recvHeader_loop al (replicate 4 NUL) [] cs = (Complete ?h, cs')"
    using recvHeader_loop_complete [of cs al "[]" ?h rest] assms(7-9) by (auto simp: window_Nil)
  then show ?thesis
    by (auto simp: recvHeader_def)
qed

end
