(* ===== verification/Relay.thy ===== *)
theory Relay
  imports Forward MemList Requests
begin

text \<open>
  One connection of the proxy, \<open>handleClient\<close> of src/proxy.c: what is read from the client and
  decided before the server is contacted, with the checks at the head of \<open>sharedProxy\<close>; then the
  relaying over a socket, in steps, because the descriptor of the server's socket is kept in a
  global that every worker thread assigns.
\<close>

section \<open>The machine around it\<close>

text \<open>
  Addresses are texts; \<open>lookup\<close> is the name service, \<open>here\<close> the machine's own address if it has one.
  A server may be up, may refuse the request's bytes, and answers the bytes it got.
\<close>

type_synonym address = "string \<times> int"

record network =
  lookup :: "string \<Rightarrow> string option"
  here :: "string option"
  up :: "address \<Rightarrow> bool"
  takes :: "address \<Rightarrow> tx_event list"
  replies :: "address \<Rightarrow> string \<Rightarrow> chunk list"

section \<open>Before the server is contacted\<close>

text \<open>
  \<open>inet_ntoa\<close> writes its text to one static buffer and returns a pointer to it. \<open>ip\<close> is such a
  pointer; when \<open>strcmp\<close> reads through it, the call for the other operand has written the buffer
  again.
\<close>

definition inet_ntoa :: "string \<Rightarrow> string \<Rightarrow> string" where
  "inet_ntoa addr static = addr"

definition same_machine :: "string \<Rightarrow> string \<Rightarrow> bool" where
  "same_machine own host =
     (let static1 = inet_ntoa own []; static2 = inet_ntoa host static1; ip = static2; other = static2
      in ip = other)"

text \<open>The checks of \<open>sharedProxy\<close> up to the search for an idle node.\<close>

definition shared_wanted :: "allocator \<Rightarrow> network \<Rightarrow> bool \<Rightarrow> flag \<Rightarrow> string \<Rightarrow> bool" where
  "shared_wanted al net opt online host \<longleftrightarrow>
     opt \<and> al 32 \<and> (case here net of None \<Rightarrow> False | Some own \<Rightarrow> same_machine own host) \<and> online \<noteq> OFFLINE"

text \<open>
  What becomes of the connection: an error page, the search for an idle node of the shared memory
  (with the server's name and address, for the socket that is used when there is none), or a
  server's socket; the last two with the client's header and whether an image will be compressed.
\<close>

datatype route =
    Fail int string string
  | Shared_Memory buffer bool string string
  | To_Server buffer bool address

definition proxy_error :: route where
  "proxy_error = Fail 500 ''Internal Server Error'' ''The proxy encountered an error.''"

definition socket_route :: "buffer \<Rightarrow> bool \<Rightarrow> string \<Rightarrow> string \<Rightarrow> route result" where
  "socket_route header jpg full ip =
     bindR (getPortNumber (Some full)) (\<lambda>port. Inr (To_Server header jpg (ip, port)))"

definition proxy_route :: "allocator \<Rightarrow> network \<Rightarrow> bool \<Rightarrow> bool \<Rightarrow> flag \<Rightarrow> chunk list \<Rightarrow> route result" where
  "proxy_route al net opt COMPRESS online cs =
     bindR (recvHeader al cs) (\<lambda>(header, headerLen, bodyLen, cs1).
       case header of
         None \<Rightarrow> Inr proxy_error
       | Some h \<Rightarrow>
           bindR (if COMPRESS then isJPG al h (nat headerLen) else Inr 0) (\<lambda>jpg.
           bindR (getHeaderField al h (nat headerLen) (LF # ''Host'')) (\<lambda>fullServer.
             case fullServer of
               None \<Rightarrow> Inr proxy_error
             | Some full \<Rightarrow>
                 bindR (chopPortNum al (Some full)) (\<lambda>uriServer.
                   if \<not> al 32 then Inr (Fail 500 ''Internal Server Error'' (''The proxy has encountered an error.'' @ [LF]))
                   else case uriServer of
                     None \<Rightarrow> Inl Null_Deref
                   | Some uri \<Rightarrow>
                       (case lookup net uri of
                          None \<Rightarrow> Inr (Fail 404 ''Not Found'' (''Server not found.'' @ [LF]))
                        | Some ip \<Rightarrow>
                            if shared_wanted al net opt online ip then Inr (Shared_Memory h (jpg = 1) full ip)
                            else socket_route h (jpg = 1) full ip)))))"

section \<open>The relaying\<close>

text \<open>
  A server's socket, connected or not; the worker's place and its locals. A descriptor, once closed,
  is not given out again.
\<close>

record endpoint =
  peer :: "address option"
  wire :: sock

datatype relay_pc =
  R_Open | R_Connect | R_Strip | R_Send | R_Header | R_Forward int | R_Close | R_Done

record relay =
  rpc :: relay_pc
  dest :: address
  rheader :: buffer
  compressed :: bool
  rclient :: sock

record sockets =
  serverSock :: int
  open_socks :: "int \<Rightarrow> endpoint option"
  fresh_fd :: int
  socket_fails :: bool

definition closed_sock :: "int \<Rightarrow> sockets \<Rightarrow> sockets" where
  "closed_sock fd g = g\<lparr>open_socks := (open_socks g)(fd := None)\<rparr>"

text \<open>An error page for the client, and the end of the connection.\<close>

definition refuse :: "int \<Rightarrow> string \<Rightarrow> string \<Rightarrow> relay \<Rightarrow> sockets \<Rightarrow> (relay \<times> sockets) result option" where
  "refuse status title msg r g =
     Some (bindR (sendError status title None msg) (\<lambda>page.
       bindR (sendResponse_socket page (rclient r)) (\<lambda>c. Inr (r\<lparr>rpc := R_Done, rclient := c\<rparr>, g))))"

text \<open>
  A step reads \<open>serverSock\<close> as the argument of one library call. A connection on which nothing was
  sent has no answer to read yet: the worker waits (\<open>None\<close>). A port is converted to 16 bits; SIGPIPE
  is taken to be ignored. A call that fails is one step with the error page and the closing that follow
  it, although the code reads \<open>serverSock\<close> again for the closing.
\<close>

definition relay_step :: "allocator \<Rightarrow> network \<Rightarrow> (buffer \<Rightarrow> buffer option) \<Rightarrow> relay \<Rightarrow> sockets \<Rightarrow>
  (relay \<times> sockets) result option" where
  "relay_step al net compress r g = (case rpc r of
     R_Open \<Rightarrow>
       if socket_fails g then
         refuse 500 ''Internal Server Error'' (''The proxy encountered an error.'' @ [LF]) r (g\<lparr>serverSock := - 1\<rparr>)
       else Some (Inr (r\<lparr>rpc := R_Connect\<rparr>,
         g\<lparr>serverSock := fresh_fd g, fresh_fd := fresh_fd g + 1,
           open_socks := (open_socks g)(fresh_fd g \<mapsto> \<lparr>peer = None, wire = \<lparr>rx = [], tx = [], txo = []\<rparr>\<rparr>)\<rparr>))
   | R_Connect \<Rightarrow>
       let a = (fst (dest r), snd (dest r) mod 65536) in
       (case open_socks g (serverSock g) of
          Some e \<Rightarrow>
            if peer e = None \<and> up net a then
              Some (Inr (r\<lparr>rpc := R_Strip\<rparr>, g\<lparr>open_socks := (open_socks g)
                (serverSock g \<mapsto> \<lparr>peer = Some a, wire = \<lparr>rx = [], tx = [], txo = takes net a\<rparr>\<rparr>)\<rparr>))
            else refuse 408 ''Request Timeout'' (''The server did not respond to proxy requests.'' @ [LF]) r
                   (closed_sock (serverSock g) g)
        | None \<Rightarrow> refuse 408 ''Request Timeout'' (''The server did not respond to proxy requests.'' @ [LF]) r g)
   | R_Strip \<Rightarrow>
       (case stripAbsURL al (rheader r) (length (rheader r)) of
          Inl e \<Rightarrow> Some (Inl e)
        | Inr (None, len) \<Rightarrow>
            refuse 500 ''Internal Server Error'' (''The proxy encountered an error.'' @ [LF]) r
              (closed_sock (serverSock g) g)
        | Inr (Some h, len) \<Rightarrow>
            if len < 0 \<or> int (length h) < len then Some (Inl Over_Read)
            else Some (Inr (r\<lparr>rpc := R_Send, rheader := take (nat len) h\<rparr>, g)))
   | R_Send \<Rightarrow>
       (case open_socks g (serverSock g) of
          Some e \<Rightarrow>
            if peer e = None then
              refuse 500 ''Internal Server Error'' (''The proxy encountered an error.'' @ [LF]) r
                (closed_sock (serverSock g) g)
            else Some (bindR (sendAll (rheader r) (int (length (rheader r))) (wire e)) (\<lambda>(ret, n, s).
              let a = the (peer e); g' = g\<lparr>open_socks := (open_socks g)
                    (serverSock g \<mapsto> \<lparr>peer = Some a, wire = s\<lparr>rx := replies net a (tx s)\<rparr>\<rparr>)\<rparr>
              in if ret < 0
                 then the (refuse 500 ''Internal Server Error'' (''The proxy encountered an error.'' @ [LF]) r
                             (closed_sock (serverSock g) g'))
                 else Inr (r\<lparr>rpc := R_Header\<rparr>, g')))
        | None \<Rightarrow>
            refuse 500 ''Internal Server Error'' (''The proxy encountered an error.'' @ [LF]) r g)
   | R_Header \<Rightarrow>
       (case open_socks g (serverSock g) of
          Some e \<Rightarrow>
            if peer e \<noteq> None \<and> tx (wire e) = [] then None
            else Some (bindR (recvHeader al (rx (wire e))) (\<lambda>(header, headerLen, bodyLen, cs).
              let g' = g\<lparr>open_socks := (open_socks g)(serverSock g \<mapsto> e\<lparr>wire := (wire e)\<lparr>rx := cs\<rparr>\<rparr>)\<rparr> in
              case header of
                None \<Rightarrow> the (refuse 500 ''Internal Server Error'' (''The proxy encountered an error.'' @ [LF]) r
                               (closed_sock (serverSock g) g'))
              | Some h \<Rightarrow> Inr (r\<lparr>rpc := R_Forward bodyLen, rheader := h\<rparr>, g')))
        | None \<Rightarrow>
            refuse 500 ''Internal Server Error'' (''The proxy encountered an error.'' @ [LF]) r g)
   | R_Forward bodyLen \<Rightarrow>
       let cs = (case open_socks g (serverSock g) of Some e \<Rightarrow> rx (wire e) | None \<Rightarrow> [Rx_Error]) in
       Some (bindR (recvAll_Forward al compress (compressed r) (rheader r) (int (length (rheader r))) bodyLen cs (rclient r))
         (\<lambda>(bytes, c, cs').
            let g' = g\<lparr>open_socks := (open_socks g)(serverSock g :=
                  map_option (\<lambda>e. e\<lparr>wire := (wire e)\<lparr>rx := cs'\<rparr>\<rparr>) (open_socks g (serverSock g)))\<rparr>
            in if bytes < 0
               then the (refuse 500 ''Internal Server Error'' (''The proxy encountered an error.'' @ [LF])
                           (r\<lparr>rclient := c\<rparr>) (closed_sock (serverSock g) g'))
               else Inr (r\<lparr>rpc := R_Close, rclient := c\<rparr>, g')))
   | R_Close \<Rightarrow> Some (Inr (r\<lparr>rpc := R_Done\<rparr>, closed_sock (serverSock g) g))
   | R_Done \<Rightarrow> None)"

text \<open>Several workers share the sockets; a schedule names who moves.\<close>

fun relay_run :: "allocator \<Rightarrow> network \<Rightarrow> (buffer \<Rightarrow> buffer option) \<Rightarrow> nat list \<Rightarrow> relay list \<times> sockets \<Rightarrow>
  (relay list \<times> sockets) result option" where
  "relay_run al net compress [] (rs, g) = Some (Inr (rs, g))"
| "relay_run al net compress (i # is) (rs, g) =
     (if length rs \<le> i then None
      else case relay_step al net compress (rs ! i) g of
        None \<Rightarrow> None
      | Some (Inl e) \<Rightarrow> Some (Inl e)
      | Some (Inr (r, g')) \<Rightarrow> relay_run al net compress is (rs[i := r], g'))"


section \<open>What passes\<close>

text \<open>A server that answers the request \<open>req\<close> with the whole response \<open>resp\<close>.\<close>

definition responds :: "network \<Rightarrow> address \<Rightarrow> string \<Rightarrow> string \<Rightarrow> bool" where
  "responds net a req resp \<longleftrightarrow> Tx_Error \<notin> set (takes net a) \<and> clean (replies net a req) \<and>
     stream (replies net a req) = resp \<and> in_int (int (length resp)) \<and>
     (\<exists>status title headers mime body. wf_response status title headers mime \<and>
        resp = response_text status title headers (int (length body)) mime @ body)"

lemma relay_finish:
  assumes "ample al" and "rpc r = R_Strip" and "compressed r = False" and "txo (rclient r) = []"
    and "open_socks g (serverSock g) = Some \<lparr>peer = Some a, wire = \<lparr>rx = [], tx = [], txo = takes net a\<rparr>\<rparr>"
    and "stripAbsURL al (rheader r) (length (rheader r)) = Inr (Some req, int (length req))"
    and "req \<noteq> []" and "in_int (int (length req))" and "responds net a req resp"
    and "i < length rs" and "rs ! i = r"
  shows "\<exists>r' g'. relay_run al net compress (replicate 5 i) (rs, g) = Some (Inr (rs[i := r'], g')) \<and>
    rpc r' = R_Done \<and> rclient r' = (rclient r)\<lparr>tx := tx (rclient r) @ resp\<rparr> \<and>
    serverSock g' = serverSock g \<and> fresh_fd g' = fresh_fd g \<and>
    open_socks g' = (open_socks g)(serverSock g := None)"
proof -
  obtain status title headers mime body where wf: "wf_response status title headers mime"
    and resp: "resp = response_text status title headers (int (length body)) mime @ body"
    using assms(9) by (auto simp: responds_def)
  let ?h = "response_text status title headers (int (length body)) mime"
  have ans: "clean (replies net a req)" "stream (replies net a req) = ?h @ body" "in_int (int (length (?h @ body)))"
    using assms(9) resp by (simp_all add: responds_def)
  have len: "in_int (int (length body))"
    using in_int_mono [OF ans(3)] by simp
  let ?r1 = "r\<lparr>rpc := R_Send, rheader := req\<rparr>"
  have s1: "relay_step al net compress r g = Some (Inr (?r1, g))"
    using assms(2,6) by (simp add: relay_step_def)
  obtain s where s: "sendAll req (int (length req)) \<lparr>rx = [], tx = [], txo = takes net a\<rparr> = Inr (0, int (length req), s)"
    "tx s = req"
    using sendAll_ok [of "int (length req)" req "\<lparr>rx = [], tx = [], txo = takes net a\<rparr>"] assms(8,9)
    by (auto simp: responds_def)
  let ?e2 = "\<lparr>peer = Some a, wire = s\<lparr>rx := replies net a req\<rparr>\<rparr>"
  let ?g2 = "g\<lparr>open_socks := (open_socks g)(serverSock g \<mapsto> ?e2)\<rparr>"
  let ?r2 = "?r1\<lparr>rpc := R_Header\<rparr>"
  have s2: "relay_step al net compress ?r1 g = Some (Inr (?r2, ?g2))"
    using assms(5) s by (simp add: relay_step_def)
  obtain cs where cs: "recvHeader al (replies net a req) = Inr (Some ?h, int (length ?h), int (length body), cs)"
    "stream cs = body" "clean cs"
    using recvHeader_response [OF wf len assms(1) ans(1,2)] by blast
  let ?g3 = "?g2\<lparr>open_socks := (open_socks ?g2)(serverSock g \<mapsto> ?e2\<lparr>wire := (wire ?e2)\<lparr>rx := cs\<rparr>\<rparr>)\<rparr>"
  let ?r3 = "?r2\<lparr>rpc := R_Forward (int (length body)), rheader := ?h\<rparr>"
  have s3: "relay_step al net compress ?r2 ?g2 = Some (Inr (?r3, ?g3))"
    using s(2) assms(7) cs(1) by (simp add: relay_step_def)
  obtain cs' where f: "recvAll_Forward al compress False ?h (int (length ?h)) (int (length body)) cs (rclient r) =
      Inr (int (length (?h @ body)), (rclient r)\<lparr>tx := tx (rclient r) @ ?h @ body\<rparr>, cs')"
    using recvAll_Forward_passes [OF cs(3) assms(4), of ?h "int (length body)" al compress] cs(2) ans(3) by auto
  let ?r4 = "?r3\<lparr>rpc := R_Close, rclient := (rclient r)\<lparr>tx := tx (rclient r) @ resp\<rparr>\<rparr>"
  let ?g4 = "?g3\<lparr>open_socks := (open_socks ?g3)(serverSock g :=
      map_option (\<lambda>e. e\<lparr>wire := (wire e)\<lparr>rx := cs'\<rparr>\<rparr>) (open_socks ?g3 (serverSock g)))\<rparr>"
  have s4: "relay_step al net compress ?r3 ?g3 = Some (Inr (?r4, ?g4))"
    using f assms(3) resp by (simp add: relay_step_def Let_def)
  let ?r5 = "?r4\<lparr>rpc := R_Done\<rparr>"
  have s5: "relay_step al net compress ?r4 ?g4 = Some (Inr (?r5, closed_sock (serverSock g) ?g4))"
    by (simp add: relay_step_def)
  have five: "replicate 5 i = [i, i, i, i, i]"
    by (simp add: numeral_eq_Suc)
  have "relay_run al net compress (replicate 5 i) (rs, g) =
      Some (Inr (rs[i := ?r5], closed_sock (serverSock g) ?g4))"
    unfolding five using assms(10,11) s1 s2 s3 s4 s5 by simp
  moreover have "open_socks (closed_sock (serverSock g) ?g4) = (open_socks g)(serverSock g := None)"
    by (simp add: closed_sock_def)
  ultimately show ?thesis
    by (intro exI [of _ ?r5] exI [of _ "closed_sock (serverSock g) ?g4"]) (simp add: closed_sock_def)
qed

text \<open>Opening and connecting.\<close>

lemma relay_opens:
  assumes "rpc r = R_Open" and "\<not> socket_fails g"
  shows "relay_step al net compress r g = Some (Inr (r\<lparr>rpc := R_Connect\<rparr>,
    g\<lparr>serverSock := fresh_fd g, fresh_fd := fresh_fd g + 1,
      open_socks := (open_socks g)(fresh_fd g \<mapsto> \<lparr>peer = None, wire = \<lparr>rx = [], tx = [], txo = []\<rparr>\<rparr>)\<rparr>))"
  using assms by (simp add: relay_step_def)

lemma relay_connects:
  assumes "rpc r = R_Connect" and "open_socks g (serverSock g) = Some e" and "peer e = None"
    and "dest r = (ip, port)" and "0 \<le> port" and "port < 65536" and "up net (ip, port)"
  shows "relay_step al net compress r g = Some (Inr (r\<lparr>rpc := R_Strip\<rparr>, g\<lparr>open_socks := (open_socks g)
    (serverSock g \<mapsto> \<lparr>peer = Some (ip, port), wire = \<lparr>rx = [], tx = [], txo = takes net (ip, port)\<rparr>\<rparr>)\<rparr>))"
  using assms by (simp add: relay_step_def Let_def)

section \<open>Where a request goes\<close>

lemma fmt_d_digits: "0 \<le> port \<Longrightarrow> c \<in> set (fmt_d port) \<Longrightarrow> isdigit c"
  by (auto simp: fmt_d_def dest: dec_nat_digits)

text \<open>
  The name of a host, and its port, in a \<open>Host\<close> field. Of a name that ends in the letter p the code
  does not read the port, so a request to such a host goes to port 80; a \<open>good_host\<close> is another.
\<close>

definition host_port :: "string \<Rightarrow> int \<Rightarrow> string" where
  "host_port h port = h @ CHR '':'' # fmt_d port"

definition good_host :: "string \<Rightarrow> int \<Rightarrow> bool" where
  "good_host h port \<longleftrightarrow> h \<noteq> [] \<and> last h \<noteq> CHR ''p'' \<and> CR \<notin> set h \<and> hd h \<noteq> SP \<and> 0 \<le> port \<and> port < 65536 \<and>
     length h < 9000"

lemma port_length: "good_host h port \<Longrightarrow> length (fmt_d port) \<le> 5"
  using dec_nat_length [of "nat port" 4] by (auto simp: good_host_def fmt_d_def)

lemma host_split:
  assumes "good_host h port" and "ample al"
  shows "chopPortNum al (Some (host_port h port)) = Inr (Some h)"
    and "getPortNumber (Some (host_port h port)) = Inr port"
proof -
  show "chopPortNum al (Some (host_port h port)) = Inr (Some h)"
    using assms chop_spec_port [of "fmt_d port" h] fmt_d_digits [of port]
    by (auto simp: host_port_def chopPortNum_spec good_host_def)
  show "getPortNumber (Some (host_port h port)) = Inr port"
    unfolding host_port_def using assms port_length [OF assms(1)]
    by (intro getPortNumber_port) (auto simp: good_host_def in_int_def)
qed

text \<open>A request in the form a client sends to a proxy, and the request in the form for a server.\<close>

definition proxied :: "string \<Rightarrow> string \<Rightarrow> string \<Rightarrow> string \<Rightarrow> bool" where
  "proxied hdr meth host rest \<longleftrightarrow>
     hdr = meth @ SP # ''http://'' @ host @ rest \<and> SP \<notin> set meth \<and> NUL \<notin> set hdr \<and>
     (\<exists>first k post. hdr = first @ EOL @ ''Host:'' @ replicate k SP @ host @ EOL @ post \<and> LF \<notin> set first)"

lemma proxiedD:
  assumes "proxied hdr meth host rest"
  shows "hdr = meth @ SP # ''http://'' @ host @ rest" and "SP \<notin> set meth" and "NUL \<notin> set hdr"
  by (rule assms [unfolded proxied_def, THEN conjunct1],
      rule assms [unfolded proxied_def, THEN conjunct2, THEN conjunct1],
      rule assms [unfolded proxied_def, THEN conjunct2, THEN conjunct2, THEN conjunct1])

lemma proxied_parts:
  assumes "proxied hdr meth (host_port h port) rest" and "good_host h port" and "ample al"
  shows "getHeaderField al hdr (length hdr) (LF # ''Host'') = Inr (Some (host_port h port))"
    and "stripAbsURL al hdr (length hdr) = Inr (Some (meth @ SP # rest), int (length (meth @ SP # rest)))"
proof -
  obtain first k post where hdr: "hdr = first @ EOL @ ''Host:'' @ replicate k SP @ host_port h port @ EOL @ post"
    "LF \<notin> set first"
    using assms(1) by (auto simp: proxied_def)
  have host: "CR \<notin> set (host_port h port)" "hd (host_port h port) \<noteq> SP" "length (host_port h port) \<le> 9991"
    using assms(2) port_length [OF assms(2)] fmt_d_plain(1) by (auto simp: host_port_def good_host_def hd_append)
  show f: "getHeaderField al hdr (length hdr) (LF # ''Host'') = Inr (Some (host_port h port))"
  proof (rule getHeaderField_Host [OF hdr host(1) _ _ assms(3)])
    show "NUL \<notin> set hdr"
      by (rule proxiedD [OF assms(1)])
  qed (use host(2) in simp)
  have meth: "hdr = meth @ SP # ''http://'' @ host_port h port @ rest" "SP \<notin> set meth" "NUL \<notin> set hdr"
    by (rule proxiedD [OF assms(1)])+
  then have "NUL \<notin> set meth"
    by (metis UnI1 set_append)
  with meth(1,2) show "stripAbsURL al hdr (length hdr) = Inr (Some (meth @ SP # rest), int (length (meth @ SP # rest)))"
    using stripAbsURL_absolute [OF _ f _ _ host(3) assms(3), of meth rest] by simp
qed

lemma proxy_route_host:
  assumes "proxied hdr meth (host_port h port) rest" and "good_host h port" and "ample al"
    and "recvHeader al cs = Inr (Some hdr, int (length hdr), b, cs1)" and "lookup net h = Some ip"
  shows "proxy_route al net opt False online cs =
    Inr (if shared_wanted al net opt online ip then Shared_Memory hdr False (host_port h port) ip
         else To_Server hdr False (ip, port))"
  using assms(4,5) proxied_parts(1) [OF assms(1-3)] host_split [OF assms(2,3)] assms(3)
  by (simp add: proxy_route_def socket_route_def ample_grants)

text \<open>The request a client writes for a proxy is of that form.\<close>

definition origin_form :: "string \<Rightarrow> string \<Rightarrow> string" where
  "origin_form path host = path @ SP # ''HTTP/1.0'' @ EOL @ ''Host: '' @ host @ EOL @ EOL"

lemma proxied_request:
  assumes "word_text meth" and "word_text host" and "word_text path"
  shows "proxied (request_text meth (''http://'' @ host @ path) host) meth host (origin_form path host)"
  unfolding proxied_def
proof (intro conjI exI)
  let ?first = "meth @ SP # ''http://'' @ host @ path @ '' HTTP/1.0''"
  show "request_text meth (''http://'' @ host @ path) host = ?first @ EOL @ ''Host:'' @ replicate 1 SP @ host @ EOL @ EOL"
    by (simp add: request_text_eq)
  show "request_text meth (''http://'' @ host @ path) host = meth @ SP # ''http://'' @ host @ origin_form path host"
    by (simp add: request_text_eq origin_form_def)
  show "NUL \<notin> set (request_text meth (''http://'' @ host @ path) host)" "SP \<notin> set meth" "LF \<notin> set ?first"
    using assms by (auto simp: request_text_eq word_text_def field_text_def EOL_def)
qed

section \<open>Properties\<close>

definition new_relay :: "address \<Rightarrow> buffer \<Rightarrow> sock \<Rightarrow> relay" where
  "new_relay a hdr c = \<lparr>rpc = R_Open, dest = a, rheader = hdr, compressed = False, rclient = c\<rparr>"

text \<open>A worker that opens and connects its socket while no one else moves.\<close>

definition connected :: "network \<Rightarrow> address \<Rightarrow> sockets \<Rightarrow> sockets" where
  "connected net a g = g\<lparr>serverSock := fresh_fd g, fresh_fd := fresh_fd g + 1,
     open_socks := (open_socks g)(fresh_fd g \<mapsto> \<lparr>peer = Some a, wire = \<lparr>rx = [], tx = [], txo = takes net a\<rparr>\<rparr>)\<rparr>"

lemma relay_contacts:
  assumes "i < length rs" and "rs ! i = new_relay (ip, port) hdr c" and "\<not> socket_fails g"
    and "0 \<le> port" and "port < 65536" and "up net (ip, port)"
  shows "relay_run al net compress (i # i # is) (rs, g) =
    relay_run al net compress is (rs[i := (new_relay (ip, port) hdr c)\<lparr>rpc := R_Strip\<rparr>], connected net (ip, port) g)"
proof -
  let ?r0 = "new_relay (ip, port) hdr c"
  let ?g1 = "g\<lparr>serverSock := fresh_fd g, fresh_fd := fresh_fd g + 1,
      open_socks := (open_socks g)(fresh_fd g \<mapsto> \<lparr>peer = None, wire = \<lparr>rx = [], tx = [], txo = []\<rparr>\<rparr>)\<rparr>"
  have "relay_step al net compress ?r0 g = Some (Inr (?r0\<lparr>rpc := R_Connect\<rparr>, ?g1))"
    using assms(3) by (intro relay_opens) (simp_all add: new_relay_def)
  moreover have "relay_step al net compress (?r0\<lparr>rpc := R_Connect\<rparr>) ?g1 =
      Some (Inr (?r0\<lparr>rpc := R_Strip\<rparr>, connected net (ip, port) g))"
    using relay_connects [of "?r0\<lparr>rpc := R_Connect\<rparr>" ?g1 "\<lparr>peer = None, wire = \<lparr>rx = [], tx = [], txo = []\<rparr>\<rparr>" ip port]
      assms(4-6) by (simp add: new_relay_def connected_def)
  ultimately show ?thesis
    using assms(1,2) by simp
qed

lemma relay_finishes:
  assumes "ample al" and "proxied hdr meth (host_port h port) rest" and "good_host h port" and "txo c = []"
    and "in_int (int (length hdr))" and "responds net a (meth @ SP # rest) resp"
    and "open_socks g (serverSock g) = Some \<lparr>peer = Some a, wire = \<lparr>rx = [], tx = [], txo = takes net a\<rparr>\<rparr>"
    and "i < length rs" and "rs ! i = (new_relay d hdr c)\<lparr>rpc := R_Strip\<rparr>"
  shows "\<exists>r' g'. relay_run al net compress (replicate 5 i) (rs, g) = Some (Inr (rs[i := r'], g')) \<and>
    rpc r' = R_Done \<and> tx (rclient r') = tx c @ resp \<and> serverSock g' = serverSock g \<and>
    open_socks g' = (open_socks g)(serverSock g := None)"
proof -
  let ?req = "meth @ SP # rest"
  let ?r = "(new_relay d hdr c)\<lparr>rpc := R_Strip\<rparr>"
  have "length ?req \<le> length hdr"
    using assms(2) by (auto simp: proxied_def)
  then have "in_int (int (length ?req))"
    using assms(5) by (simp add: in_int_def)
  moreover have "stripAbsURL al (rheader ?r) (length (rheader ?r)) = Inr (Some ?req, int (length ?req))"
    using proxied_parts(2) [OF assms(2,3,1)] by (simp add: new_relay_def)
  ultimately obtain r' g' where "relay_run al net compress (replicate 5 i) (rs, g) = Some (Inr (rs[i := r'], g'))"
    "rpc r' = R_Done" "rclient r' = (rclient ?r)\<lparr>tx := tx (rclient ?r) @ resp\<rparr>" "serverSock g' = serverSock g"
    "open_socks g' = (open_socks g)(serverSock g := None)"
    using relay_finish [where compress = compress, OF assms(1) _ _ _ assms(7) _ _ _ assms(6,8,9)] assms(4)
    by (auto simp: new_relay_def)
  then show ?thesis
    by (auto simp: new_relay_def)
qed

text \<open>A network of one server that answers everything with two bytes, and a request for it.\<close>

definition small_answer :: string where
  "small_answer = response_text 200 ''OK'' None 2 ''text/html'' @ ''hi''"

definition small_net :: network where
  "small_net = \<lparr>lookup = \<lambda>n. Some ''10.0.0.1'', here = Some ''10.0.0.2'', up = \<lambda>a. True, takes = \<lambda>a. [],
     replies = \<lambda>a req. [Data small_answer]\<rparr>"

definition no_socks :: sockets where
  "no_socks = \<lparr>serverSock = 0, open_socks = Map.empty, fresh_fd = 3, socket_fails = False\<rparr>"

definition small_request :: string where
  "small_request = request_text ''GET'' (''http://'' @ host_port ''h'' 80 @ ''/f'') (host_port ''h'' 80)"

lemma small_host: "good_host ''h'' 80" "host_port ''h'' 80 = ''h:80''"
  by (simp_all add: good_host_def host_port_def fmt_d_def dec_nat.simps digit_char_def)

lemma small_words: "word_text ''GET''" "word_text (host_port ''h'' 80)" "word_text ''/f''" "word_text ''http://h:80/f''"
  by (simp_all add: word_text_def field_text_def small_host)

lemma small_proxied:
  "proxied small_request ''GET'' (host_port ''h'' 80) (origin_form ''/f'' (host_port ''h'' 80))"
  unfolding small_request_def by (intro proxied_request small_words)

lemma small_responds: "responds small_net a req small_answer"
proof -
  have wf: "wf_response 200 ''OK'' None ''text/html''"
    by (simp add: wf_response_def field_text_def)
  have "fmt_d 200 = ''200''" "fmt_d 2 = ''2''"
    by (simp_all add: fmt_d_def dec_nat.simps digit_char_def)
  then have "in_int (int (length small_answer))"
    by (simp add: small_answer_def response_text_def before_length_def PROTOCOL_def EOL_def in_int_def)
  then show ?thesis
    using wf unfolding responds_def
    by (intro conjI exI [of _ 200] exI [of _ "''OK''"] exI [of _ None] exI [of _ "''text/html''"] exI [of _ "''hi''"])
      (simp_all add: small_net_def small_answer_def)
qed

lemma small_received:
  "\<exists>cs'. recvHeader (\<lambda>n. 0 \<le> n) [Data small_request] = Inr (Some small_request, int (length small_request), 0, cs')"
proof -
  have "small_request = request_text ''GET'' ''http://h:80/f'' (host_port ''h'' 80)"
    by (simp add: small_request_def small_host)
  then show ?thesis
    using recvHeader_request [OF small_words(1,4,2) _ _ _ _ _ _ ample_nonneg,
        of "CHR ''h''" "''ttp://h:80/f''" "[Data small_request]" "[]"]
    by (auto simp: isdigit_def isspace_def less_eq_char_def)
qed

lemma small_length: "in_int (int (length small_request))"
  by (simp add: small_request_def small_host request_text_eq EOL_def in_int_def)

lemma relay_alone:
  assumes "ample al" and "proxied hdr meth (host_port h port) rest" and "good_host h port"
    and "\<not> socket_fails g" and "up net (ip, port)" and "txo c = []"
    and "in_int (int (length hdr))" and "responds net (ip, port) (meth @ SP # rest) resp"
  shows "\<exists>r g'. relay_run al net compress (replicate 7 0) ([new_relay (ip, port) hdr c], g) = Some (Inr ([r], g')) \<and>
       rpc r = R_Done \<and> tx (rclient r) = tx c @ resp \<and> open_socks g' = (open_socks g)(fresh_fd g := None)"
proof -
  let ?r0 = "new_relay (ip, port) hdr c"
  obtain r g' where "relay_run al net compress (replicate 5 0) ([?r0\<lparr>rpc := R_Strip\<rparr>], connected net (ip, port) g) =
      Some (Inr ([r], g'))" "rpc r = R_Done" "tx (rclient r) = tx c @ resp"
    "open_socks g' = (open_socks (connected net (ip, port) g))(fresh_fd g := None)"
    using relay_finishes [OF assms(1,2,3,6,7,8), of "connected net (ip, port) g" 0 "[?r0\<lparr>rpc := R_Strip\<rparr>]" "(ip, port)" compress]
    by (auto simp: connected_def)
  moreover have "replicate 7 (0::nat) = 0 # 0 # replicate 5 0"
    by (simp add: numeral_eq_Suc)
  ultimately show ?thesis
    using relay_contacts [of 0 "[?r0]" ip port hdr c g net al compress "replicate 5 0"] assms(3,4,5)
    by (auto simp: good_host_def connected_def)
qed

text \<open>
  C17: a worker of the proxy that no other worker runs against relays faithfully: a request whose
  Host field and absolute URL name host and port, the host not ending in the letter p, goes, without
  the scheme and the host, to that port of the address of that host, the client receives exactly the response of that server, and the
  server's socket is closed again.
\<close>

theorem proxy_relays:
  assumes "ample al" and "proxied hdr meth (host_port h port) rest" and "good_host h port"
    and "recvHeader al cs = Inr (Some hdr, int (length hdr), b, cs1)" and "lookup net h = Some ip"
    and "\<not> opt \<or> online = OFFLINE" and "\<not> socket_fails g" and "up net (ip, port)" and "txo c = []"
    and "in_int (int (length hdr))" and "responds net (ip, port) (meth @ SP # rest) resp"
  shows "proxy_route al net opt False online cs = Inr (To_Server hdr False (ip, port)) \<and>
    (\<exists>r g'. relay_run al net compress (replicate 7 0) ([new_relay (ip, port) hdr c], g) = Some (Inr ([r], g')) \<and>
       rpc r = R_Done \<and> tx (rclient r) = tx c @ resp \<and> open_socks g' = (open_socks g)(fresh_fd g := None))"
  using proxy_route_host [OF assms(2,3,1,4,5)] assms(6) relay_alone [OF assms(1,2,3,7,8,9,10,11)]
  by (auto simp: shared_wanted_def)

theorem proxy_relays_witness:
  "\<exists>r g'. relay_run (\<lambda>n. 0 \<le> n) small_net Some (replicate 7 0)
       ([new_relay (''10.0.0.1'', 80) small_request \<lparr>rx = [], tx = [], txo = []\<rparr>], no_socks) = Some (Inr ([r], g')) \<and>
     tx (rclient r) = small_answer \<and> open_socks g' = Map.empty"
proof -
  obtain cs' where cs: "recvHeader (\<lambda>n. 0 \<le> n) [Data small_request] = Inr (Some small_request, int (length small_request), 0, cs')"
    using small_received by blast
  show ?thesis
    using proxy_relays [OF ample_nonneg small_proxied small_host(1) cs, of small_net "''10.0.0.1''" False OFFLINE no_socks
        "\<lparr>rx = [], tx = [], txo = []\<rparr>" small_answer Some] small_responds small_length
    by (auto simp: small_net_def no_socks_def)
qed

text \<open>
  C30: because the server's socket is one global of all workers, a worker can be given another's
  server: when a second worker has opened and connected its socket before the first one sends, the
  first one sends its request to the second one's server, passes that server's answer to its own
  client, and closes the socket that the second worker is about to use, while its own stays open.
\<close>

theorem proxy_wrong_server:
  assumes "ample al" and "proxied hdrA meth (host_port h portA) rest" and "good_host h portA"
    and "in_int (int (length hdrA))" and "txo cA = []" and "\<not> socket_fails g"
    and "0 \<le> portB" and "portB < 65536" and "up net (ipA, portA)" and "up net (ipB, portB)"
    and "responds net (ipB, portB) (meth @ SP # rest) resp"
  shows "\<exists>r r1 g'. relay_run al net compress ([0, 0, 1, 1] @ replicate 5 0)
      ([new_relay (ipA, portA) hdrA cA, new_relay (ipB, portB) hdrB cB], g) = Some (Inr ([r, r1], g')) \<and>
    rpc r = R_Done \<and> tx (rclient r) = tx cA @ resp \<and>
    rpc r1 = R_Strip \<and> open_socks g' (serverSock g') = None \<and> open_socks g' (fresh_fd g) \<noteq> None"
proof -
  let ?a = "new_relay (ipA, portA) hdrA cA" and ?b = "new_relay (ipB, portB) hdrB cB"
  let ?g1 = "connected net (ipA, portA) g" and ?g2 = "connected net (ipB, portB) (connected net (ipA, portA) g)"
  let ?rs = "[?a\<lparr>rpc := R_Strip\<rparr>, ?b\<lparr>rpc := R_Strip\<rparr>]"
  have "relay_run al net compress (0 # 0 # 1 # 1 # replicate 5 0) ([?a, ?b], g) =
      relay_run al net compress (1 # 1 # replicate 5 0) ([?a\<lparr>rpc := R_Strip\<rparr>, ?b], ?g1)"
    using relay_contacts [of 0 "[?a, ?b]" ipA portA hdrA cA g net al compress] assms(3,6,9)
    by (simp add: good_host_def)
  also have "\<dots> = relay_run al net compress (replicate 5 0) (?rs, ?g2)"
    using relay_contacts [of 1 "[?a\<lparr>rpc := R_Strip\<rparr>, ?b]" ipB portB hdrB cB ?g1 net al compress] assms(6-8,10)
    by (simp add: connected_def)
  finally have start: "relay_run al net compress ([0, 0, 1, 1] @ replicate 5 0) ([?a, ?b], g) =
      relay_run al net compress (replicate 5 0) (?rs, ?g2)"
    by simp
  obtain r g' where "relay_run al net compress (replicate 5 0) (?rs, ?g2) = Some (Inr (?rs[0 := r], g'))"
    "rpc r = R_Done" "tx (rclient r) = tx cA @ resp" "serverSock g' = serverSock ?g2"
    "open_socks g' = (open_socks ?g2)(serverSock ?g2 := None)"
    using relay_finishes [OF assms(1,2,3,5,4,11), of ?g2 0 ?rs "(ipA, portA)" compress]
    by (auto simp: connected_def)
  then show ?thesis
    unfolding start by (auto simp: connected_def new_relay_def)
qed

theorem proxy_wrong_server_witness:
  "\<exists>r r1 g'. relay_run (\<lambda>n. 0 \<le> n) small_net Some ([0, 0, 1, 1] @ replicate 5 0)
       ([new_relay (''10.0.0.1'', 80) small_request \<lparr>rx = [], tx = [], txo = []\<rparr>,
         new_relay (''10.0.0.9'', 8080) small_request \<lparr>rx = [], tx = [], txo = []\<rparr>], no_socks) = Some (Inr ([r, r1], g')) \<and>
     tx (rclient r) = small_answer \<and> open_socks g' (serverSock g') = None \<and> open_socks g' 3 \<noteq> None"
  using proxy_wrong_server [OF ample_nonneg small_proxied small_host(1) small_length, of "\<lparr>rx = [], tx = [], txo = []\<rparr>"
      no_socks 8080 small_net "''10.0.0.1''" "''10.0.0.9''" small_answer Some small_request "\<lparr>rx = [], tx = [], txo = []\<rparr>"]
    small_responds
  by (auto simp: small_net_def no_socks_def)

text \<open>
  C31: an optimised proxy takes every server for its own machine: \<open>inet_ntoa\<close> gives one static buffer
  for both addresses that are compared, so that, once a local server has been online, a request for
  whatever host that the name service knows goes into the local server's shared memory.
\<close>

theorem proxy_always_shared:
  assumes "ample al" and "proxied hdr meth (host_port h port) rest" and "good_host h port"
    and "recvHeader al cs = Inr (Some hdr, int (length hdr), b, cs1)" and "lookup net h = Some ip" and "here net = Some own"
  shows "proxy_route al net True False ONLINE cs = Inr (Shared_Memory hdr False (host_port h port) ip)"
  using proxy_route_host [OF assms(2,3,1,4,5)] assms(1,6)
  by (simp add: shared_wanted_def same_machine_def ample_grants)

theorem proxy_always_shared_witness:
  "proxy_route (\<lambda>n. 0 \<le> n) small_net True False ONLINE [Data small_request] =
     Inr (Shared_Memory small_request False (host_port ''h'' 80) ''10.0.0.1'') \<and> here small_net = Some ''10.0.0.2''"
proof -
  obtain cs' where cs: "recvHeader (\<lambda>n. 0 \<le> n) [Data small_request] = Inr (Some small_request, int (length small_request), 0, cs')"
    using small_received by blast
  show ?thesis
    using proxy_always_shared [OF ample_nonneg small_proxied small_host(1) cs, of small_net "''10.0.0.1''" "''10.0.0.2''"]
    by (simp add: small_net_def)
qed

text \<open>
  C40: a request whose method and URL fill the first 100 bytes makes the proxy read behind a heap
  object, before it has looked at the request: its header is searched for a status code.
\<close>

theorem proxy_long_url_overread:
  assumes "word_text meth" and "word_text url" and "word_text host" and "meth \<noteq> []"
    and "100 \<le> length meth + length url" and "length meth < 99" and "ample al"
    and "clean cs" and "stream cs = request_text meth url host @ rest"
  shows "proxy_route al net opt COMPRESS online cs = Inl Over_Read"
  using recvHeader_long_request [OF assms] by (simp add: proxy_route_def)

theorem proxy_long_url_overread_witness:
  "proxy_route (\<lambda>n. 0 \<le> n) small_net False False OFFLINE
     [Data (request_text ''GET'' (''http://h:80/'' @ replicate 90 (CHR ''a'')) (host_port ''h'' 80))] = Inl Over_Read"
  by (rule proxy_long_url_overread [OF small_words(1) _ small_words(2), where rest = "[]"])
    (simp_all add: word_text_def field_text_def ample_nonneg)

end
