(* ===== verification/Shared.thy ===== *)
theory Shared
  imports MemList
begin

text \<open>
  The exchange over shared memory: \<open>sendShared\<close> and \<open>receiveShared\<close>
  (src/functions/processShared.c), the proxy's side of the exchange (\<open>sharedProxy\<close> in
  src/proxy.c, from the search for an idle node on), the server's side (the poll of \<open>main\<close>, the
  \<open>SHARED\<close> branch of \<open>handleClient\<close> and the receiving loop of \<open>checkAndSend\<close> in src/server.c).
  Threads run interleaved; a thread's step goes to the next place where it can block or where
  another thread can see what it did.
\<close>

section \<open>Mutex and condition variable of a node\<close>

definition locked :: "nat \<Rightarrow> memnode \<Rightarrow> memnode option" where
  "locked t n = (if mutex n = None then Some (n\<lparr>mutex := Some t\<rparr>) else None)"

definition unlocked :: "memnode \<Rightarrow> memnode" where
  "unlocked n = n\<lparr>mutex := None\<rparr>"

text \<open>\<open>pthread_cond_signal\<close> wakes one waiter (the longest waiting), if there is one.\<close>

definition signalled :: "memnode \<Rightarrow> memnode" where
  "signalled n = n\<lparr>condition := tl (condition n)\<rparr>"

text \<open>
  \<open>pthread_cond_wait\<close> releases the mutex and waits; a woken thread returns once it has the mutex
  again.
\<close>

definition waiting :: "nat \<Rightarrow> memnode \<Rightarrow> memnode" where
  "waiting t n = n\<lparr>mutex := None, condition := condition n @ [t]\<rparr>"

definition woken :: "nat \<Rightarrow> memnode \<Rightarrow> memnode option" where
  "woken t n = (if t \<in> set (condition n) then None else locked t n)"

section \<open>sendShared and receiveShared\<close>

text \<open>
  A send in progress: the whole message, how much of it was mapped, and whose state it sets, which
  is decided by the proxy's state on entry.
\<close>

record sending =
  msg :: buffer
  totalBytes :: int
  isServer :: bool

definition set_theState :: "bool \<Rightarrow> state_t \<Rightarrow> memnode \<Rightarrow> memnode" where
  "set_theState srv st n =
     (if srv then n\<lparr>serverState := st\<rparr> else n\<lparr>proxyState := st\<rparr>)"

text \<open>The entry: when the buffer for the message cannot be had, nothing is sent.\<close>

definition sendShared_start :: "allocator \<Rightarrow> buffer \<Rightarrow> buffer \<Rightarrow> memnode \<Rightarrow> sending option" where
  "sendShared_start al header body n =
     (if al (int (length header) + int (length body)) then
        Some \<lparr>msg = header @ body, totalBytes = 0, isServer = (proxyState n = COMPLETE)\<rparr>
      else None)"

text \<open>
  One turn of the loop: it ends the send, or goes on after having sent all or a part of what was
  left, in which cases the sender may have to wait first.
\<close>

datatype turn = Sent_All | Go_On bool

definition sendShared_turn :: "sending \<Rightarrow> memnode \<Rightarrow> (turn \<times> sending \<times> memnode) result" where
  "sendShared_turn s n =
     (let len = int (length (msg s)) in
      if totalBytes s < len then
        let n1 = set_theState (isServer s) BUSY n;
            left = len - totalBytes s;
            toWrite = (if int SEGMENTSIZE < left then int SEGMENTSIZE else left)
        in bindR (setMapping n1 (drop (nat (totalBytes s)) (msg s)) toWrite) (\<lambda>(written, n2).
             let s' = s\<lparr>totalBytes := totalBytes s + written\<rparr> in
             if totalBytes s' < 0 then Inl (Exit_With MEMALLOC_FAILURE)
             else if totalBytes s' = len then
               Inr (Go_On (isServer s), s', signalled (set_theState (isServer s) COMPLETE n2))
             else
               Inr (Go_On True, s', signalled (set_theState (isServer s)
                 (if isServer s then WAITING_CONT_PRXY else WAITING_CONT_SRVR) n2)))
      else Inr (Sent_All, s, n))"

definition receiveShared :: "allocator \<Rightarrow> memnode \<Rightarrow> buffer option result" where
  "receiveShared al n =
     (if spaceUsed n = 0 then Inr None
      else if \<not> al (spaceUsed n) then Inr None
      else if spaceUsed n < 0 \<or> int (length (mem n)) < spaceUsed n then Inl Over_Read
      else Inr (Some (take (nat (spaceUsed n)) (mem n))))"

section \<open>The threads\<close>

text \<open>
  The proxy's thread: where it is, its node, the client's header, the send, and the socket to the
  client. \<open>P_Sockets\<close> is the return that makes the caller use sockets.
\<close>

datatype proxy_pc =
    P_Find | P_Sockets | P_Lock | P_Check | P_Wait0 | P_Strip | P_Send | P_SendWait
  | P_Recv | P_RecvWait | P_Read | P_Reset | P_Done

record pthread =
  ppc :: proxy_pc
  pnode :: nat
  request :: buffer
  psend :: sending
  compressing :: bool
  client :: sock

datatype worker_pc =
    W_Idle | W_Pick | W_Lock | W_Loop | W_LoopWait | W_Read | W_Reply | W_Send | W_SendWait
  | W_Unlock | W_Reset

record wthread =
  wpc :: worker_pc
  wnode :: nat
  line :: buffer
  wsend :: sending

record world =
  nodes :: "memnode list"
  numNodes' :: int
  proxies :: "pthread list"
  workers :: "wthread list"
  tokens :: nat

text \<open>Thread numbers: the workers come after the proxy's threads.\<close>

definition pid :: "nat \<Rightarrow> nat" where "pid i = 2 * i"
definition wid :: "nat \<Rightarrow> nat" where "wid j = 2 * j + 1"

definition no_send :: sending where
  "no_send = \<lparr>msg = [], totalBytes = 0, isServer = False\<rparr>"

definition new_proxy :: "buffer \<Rightarrow> sock \<Rightarrow> pthread" where
  "new_proxy h c = \<lparr>ppc = P_Find, pnode = 0, request = h, psend = no_send, compressing = False,
     client = c\<rparr>"

definition new_worker :: wthread where
  "new_worker = \<lparr>wpc = W_Idle, wnode = 0, line = [], wsend = no_send\<rparr>"

text \<open>
  A step of a thread on its node gives the thread and the node, or is blocked (\<open>None\<close>), or ends
  the process.
\<close>

definition pmove :: "pthread \<Rightarrow> proxy_pc \<Rightarrow> memnode \<Rightarrow> (pthread \<times> memnode) result option" where
  "pmove p pc n = Some (Inr (p\<lparr>ppc := pc\<rparr>, n))"

definition wmove :: "wthread \<Rightarrow> worker_pc \<Rightarrow> memnode \<Rightarrow> (wthread \<times> memnode) result option" where
  "wmove s pc n = Some (Inr (s\<lparr>wpc := pc\<rparr>, n))"

text \<open>
  The proxy's side. \<open>imageBuffer\<close> and \<open>bytes\<close> are never initialised, and buffering an image
  starts by reading the first.
\<close>

fun proxy_step :: "allocator \<Rightarrow> nat \<Rightarrow> pthread \<Rightarrow> memnode \<Rightarrow> (pthread \<times> memnode) result option" where
  "proxy_step al me p n = (case ppc p of
     P_Lock \<Rightarrow> (case locked me n of
       None \<Rightarrow> None
     | Some n1 \<Rightarrow> pmove p P_Check (n1\<lparr>proxyState := WAITING_INIT_SRVR\<rparr>))
   | P_Check \<Rightarrow>
       if serverState n \<noteq> WAITING_CONT_PRXY then pmove p P_Wait0 (waiting me n)
       else pmove p P_Strip n
   | P_Wait0 \<Rightarrow> (case woken me n of None \<Rightarrow> None | Some n1 \<Rightarrow> pmove p P_Strip n1)
   | P_Strip \<Rightarrow> (case stripAbsURL al (request p) (length (request p)) of
       Inl e \<Rightarrow> Some (Inl e)
     | Inr (None, len) \<Rightarrow>
         if al len \<and> len \<noteq> 0 then Some (Inl Null_Deref) else pmove p P_Recv n
     | Inr (Some h, len) \<Rightarrow>
         if len < 0 \<or> int (length h) < len then Some (Inl Over_Read)
         else (case sendShared_start al (take (nat len) h) [] n of
           None \<Rightarrow> pmove p P_Recv n
         | Some s \<Rightarrow> pmove (p\<lparr>psend := s\<rparr>) P_Send n))
   | P_Send \<Rightarrow> (case sendShared_turn (psend p) n of
       Inl e \<Rightarrow> Some (Inl e)
     | Inr (Sent_All, s, n1) \<Rightarrow> pmove (p\<lparr>psend := s\<rparr>) P_Recv n1
     | Inr (Go_On wait, s, n1) \<Rightarrow>
         if wait then pmove (p\<lparr>psend := s\<rparr>) P_SendWait (waiting me n1)
         else pmove (p\<lparr>psend := s\<rparr>) P_Send n1)
   | P_SendWait \<Rightarrow> (case woken me n of None \<Rightarrow> None | Some n1 \<Rightarrow> pmove p P_Send n1)
   | P_Recv \<Rightarrow>
       if serverState n \<noteq> COMPLETE then pmove p P_RecvWait (waiting me n) else pmove p P_Read n
   | P_RecvWait \<Rightarrow> (case woken me n of None \<Rightarrow> None | Some n1 \<Rightarrow> pmove p P_Read n1)
   | P_Read \<Rightarrow> (case receiveShared al n of
       Inl e \<Rightarrow> Some (Inl e)
     | Inr None \<Rightarrow> Some (Inl (Exit_With MEMALLOC_FAILURE))
     | Inr (Some response) \<Rightarrow>
         if compressing p then Some (Inl Uninit_Read)
         else (case sendAll response (spaceUsed n) (client p) of
           Inl e \<Rightarrow> Some (Inl e)
         | Inr (r, sent, c) \<Rightarrow>
             let n1 = signalled (n\<lparr>spaceUsed := sent\<rparr>) in
             if serverState n1 \<noteq> COMPLETE then pmove (p\<lparr>client := c\<rparr>) P_Recv n1
             else pmove (p\<lparr>client := c\<rparr>) P_Reset (unlocked n1)))
   | P_Reset \<Rightarrow> pmove p P_Done (n\<lparr>proxyState := IDLE\<rparr>)
   | _ \<Rightarrow> None)"

declare proxy_step.simps [simp del]

text \<open>
  The worker's side, from the lock on. \<open>reply\<close> is what the rest of \<open>checkAndSend\<close> makes of the
  20000 bytes of \<open>line\<close>: the header and the body of the response.
\<close>

fun worker_step :: "allocator \<Rightarrow> (buffer \<Rightarrow> (buffer \<times> buffer) result) \<Rightarrow> nat \<Rightarrow> wthread \<Rightarrow> memnode \<Rightarrow>
  (wthread \<times> memnode) result option" where
  "worker_step al reply me s n = (case wpc s of
     W_Lock \<Rightarrow> (case locked me n of
       None \<Rightarrow> None
     | Some n1 \<Rightarrow> wmove (s\<lparr>line := []\<rparr>) W_Loop (signalled n1))
   | W_Loop \<Rightarrow>
       if proxyState n \<noteq> COMPLETE then wmove s W_LoopWait (waiting me n) else wmove s W_Read n
   | W_LoopWait \<Rightarrow> (case woken me n of None \<Rightarrow> None | Some n1 \<Rightarrow> wmove s W_Read n1)
   | W_Read \<Rightarrow> (case receiveShared al n of
       Inl e \<Rightarrow> Some (Inl e)
     | Inr None \<Rightarrow> Some (Inl (Exit_With MEMALLOC_FAILURE))
     | Inr (Some chunk) \<Rightarrow>
         if 20000 < length (line s) + length chunk then Some (Inl Over_Write)
         else
           let s' = s\<lparr>line := line s @ chunk\<rparr> in
           if proxyState n \<noteq> COMPLETE then wmove s' W_Loop (signalled n)
           else wmove s' W_Reply (n\<lparr>serverState := BUSY\<rparr>))
   | W_Reply \<Rightarrow> (case reply (line s @ replicate (20000 - length (line s)) NUL) of
       Inl e \<Rightarrow> Some (Inl e)
     | Inr (header, body) \<Rightarrow> (case sendShared_start al header body n of
         None \<Rightarrow> wmove s W_Unlock n
       | Some d \<Rightarrow> wmove (s\<lparr>wsend := d\<rparr>) W_Send n))
   | W_Send \<Rightarrow> (case sendShared_turn (wsend s) n of
       Inl e \<Rightarrow> Some (Inl e)
     | Inr (Sent_All, d, n1) \<Rightarrow> wmove (s\<lparr>wsend := d\<rparr>) W_Unlock n1
     | Inr (Go_On wait, d, n1) \<Rightarrow>
         if wait then wmove (s\<lparr>wsend := d\<rparr>) W_SendWait (waiting me n1)
         else wmove (s\<lparr>wsend := d\<rparr>) W_Send n1)
   | W_SendWait \<Rightarrow> (case woken me n of None \<Rightarrow> None | Some n1 \<Rightarrow> wmove s W_Send n1)
   | W_Unlock \<Rightarrow> wmove s W_Reset (unlocked n)
   | W_Reset \<Rightarrow> wmove s W_Idle (n\<lparr>serverState := IDLE\<rparr>)
   | _ \<Rightarrow> None)"

declare worker_step.simps [simp del]

section \<open>The processes\<close>

text \<open>A thread's step in the world: the searches see all nodes, the rest only the thread's own.\<close>

definition pstep :: "allocator \<Rightarrow> nat \<Rightarrow> world \<Rightarrow> world result option" where
  "pstep al i w =
     (let p = proxies w ! i in
      if length (proxies w) \<le> i then None
      else if ppc p = P_Find then
        Some (bindR (findState (nodes w) (numNodes' w) IDLE) (\<lambda>found.
          Inr (w\<lparr>proxies := (proxies w)[i := (case found of
                   None \<Rightarrow> p\<lparr>ppc := P_Sockets\<rparr>
                 | Some k \<Rightarrow> p\<lparr>ppc := P_Lock, pnode := k\<rparr>)]\<rparr>)))
      else map_option (\<lambda>r. bindR r (\<lambda>(p', n').
             Inr (w\<lparr>nodes := (nodes w)[pnode p := n'], proxies := (proxies w)[i := p']\<rparr>)))
           (proxy_step al (pid i) p (nodes w ! pnode p)))"

definition wstep :: "allocator \<Rightarrow> (buffer \<Rightarrow> (buffer \<times> buffer) result) \<Rightarrow> nat \<Rightarrow> world \<Rightarrow>
  world result option" where
  "wstep al reply j w =
     (let s = workers w ! j in
      if length (workers w) \<le> j then None
      else if wpc s = W_Idle then
        (case tokens w of
           0 \<Rightarrow> None
         | Suc t \<Rightarrow> Some (Inr (w\<lparr>tokens := t, workers := (workers w)[j := s\<lparr>wpc := W_Pick\<rparr>]\<rparr>)))
      else if wpc s = W_Pick then
        Some (bindR (findState (nodes w) (numNodes' w) WAITING_INIT_SRVR) (\<lambda>found.
          case found of
            None \<Rightarrow> Inl Null_Deref
          | Some k \<Rightarrow>
              Inr (w\<lparr>nodes := (nodes w)[k := (nodes w ! k)\<lparr>serverState := WAITING_CONT_PRXY\<rparr>],
                     workers := (workers w)[j := s\<lparr>wpc := W_Lock, wnode := k\<rparr>]\<rparr>)))
      else map_option (\<lambda>r. bindR r (\<lambda>(s', n').
             Inr (w\<lparr>nodes := (nodes w)[wnode s := n'], workers := (workers w)[j := s']\<rparr>)))
           (worker_step al reply (wid j) s (nodes w ! wnode s)))"

text \<open>The poll of the server's main loop.\<close>

definition mstep :: "world \<Rightarrow> world result option" where
  "mstep w =
     (case findState (nodes w) (numNodes' w) WAITING_INIT_SRVR of
        Inl e \<Rightarrow> Some (Inl e)
      | Inr None \<Rightarrow> None
      | Inr (Some k) \<Rightarrow>
          if serverState (nodes w ! k) = IDLE then
            Some (Inr (w\<lparr>nodes := (nodes w)[k := (nodes w ! k)\<lparr>serverState := BUSY\<rparr>],
                         tokens := Suc (tokens w)\<rparr>))
          else None)"

datatype actor = Proxy nat | Worker nat | Main

fun act :: "allocator \<Rightarrow> (buffer \<Rightarrow> (buffer \<times> buffer) result) \<Rightarrow> actor \<Rightarrow> world \<Rightarrow>
  world result option" where
  "act al reply (Proxy i) w = pstep al i w"
| "act al reply (Worker j) w = wstep al reply j w"
| "act al reply Main w = mstep w"

inductive step :: "allocator \<Rightarrow> (buffer \<Rightarrow> (buffer \<times> buffer) result) \<Rightarrow> world \<Rightarrow> world \<Rightarrow> bool"
  for al reply where
  step: "act al reply a w = Some (Inr w') \<Longrightarrow> step al reply w w'"

inductive_cases stepE: "step al reply w w'"

text \<open>A run under a given schedule: \<open>None\<close> when the next thread of it is blocked.\<close>

fun schedule :: "allocator \<Rightarrow> (buffer \<Rightarrow> (buffer \<times> buffer) result) \<Rightarrow> actor list \<Rightarrow> world \<Rightarrow>
  world result option" where
  "schedule al reply [] w = Some (Inr w)"
| "schedule al reply (a # as) w =
     (case act al reply a w of
        None \<Rightarrow> None
      | Some (Inl e) \<Rightarrow> Some (Inl e)
      | Some (Inr w') \<Rightarrow> schedule al reply as w')"

section \<open>One request after the other\<close>

text \<open>
  A worker of the proxy comes back to \<open>sharedProxy\<close> with the header and the connection of its next
  client; the node it finds may be one that the server has not left yet. \<open>past\<close> has the connections
  of the clients before.
\<close>

record serial =
  now :: world
  todo :: "(buffer \<times> sock) list"
  past :: "sock list"

definition next_request :: "serial \<Rightarrow> serial result option" where
  "next_request s =
     (case todo s of
        [] \<Rightarrow> None
      | (h, c) # xs \<Rightarrow>
          if proxies (now s) \<noteq> [] \<and> ppc (hd (proxies (now s))) = P_Done then
            Some (Inr (s\<lparr>now := (now s)\<lparr>proxies := new_proxy h c # tl (proxies (now s))\<rparr>, todo := xs,
                         past := past s @ [client (hd (proxies (now s)))]\<rparr>))
          else None)"

inductive serial_step :: "allocator \<Rightarrow> (buffer \<Rightarrow> (buffer \<times> buffer) result) \<Rightarrow> serial \<Rightarrow> serial \<Rightarrow> bool"
  for al reply where
  same_request: "act al reply a (now s) = Some (Inr w) \<Longrightarrow> serial_step al reply s (s\<lparr>now := w\<rparr>)"
| other_request: "next_request s = Some (Inr s') \<Longrightarrow> serial_step al reply s s'"

inductive_cases serial_stepE: "serial_step al reply s s'"

end
