(* ===== verification/Exchange.thy ===== *)
theory Exchange
  imports Shared
begin

text \<open>
  What the exchange over shared memory guarantees, for one proxy thread and one worker and a request
  that fits a segment: an invariant over the phases of the exchange, which every interleaving keeps,
  progress, and a measure that every step decreases. Crew.thy takes it to any number of workers, and
  Races.thy has the runs that break the exchange.
\<close>

section \<open>One proxy thread and one worker\<close>

definition one :: "memnode \<Rightarrow> memnode list \<Rightarrow> pthread \<Rightarrow> wthread \<Rightarrow> nat \<Rightarrow> world" where
  "one n rest p s t = \<lparr>nodes = n # rest, numNodes' = 1 + int (length rest), proxies = [p],
     workers = [s], tokens = t\<rparr>"

abbreviation (input) P :: nat where "P \<equiv> 0"
abbreviation (input) W :: nat where "W \<equiv> 1"

text \<open>The server has not yet come to the node: how far it is.\<close>

fun early :: "worker_pc \<Rightarrow> nat \<Rightarrow> state_t \<Rightarrow> bool" where
  "early W_Idle t ss = (t = 0 \<and> ss = IDLE \<or> t = 1 \<and> ss = BUSY)"
| "early W_Pick t ss = (t = 0 \<and> ss = BUSY)"
| "early W_Lock t ss = (t = 0 \<and> ss = WAITING_CONT_PRXY)"
| "early _ t ss = False"

text \<open>
  A response was read to its end: how far the server is with leaving the node. The proxy may have come
  back with the next request meanwhile.
\<close>

fun leaving :: "worker_pc \<Rightarrow> state_t \<Rightarrow> nat option \<Rightarrow> bool" where
  "leaving W_SendWait ss mu = (ss = COMPLETE \<and> mu = None)"
| "leaving W_Send ss mu = (ss = COMPLETE \<and> mu = Some W)"
| "leaving W_Unlock ss mu = (ss = COMPLETE \<and> mu = Some W)"
| "leaving W_Reset ss mu = (ss = COMPLETE \<and> mu = None)"
| "leaving W_Idle ss mu = (ss = IDLE \<and> mu = None)"
| "leaving _ ss mu = False"

fun control :: "proxy_pc \<Rightarrow> worker_pc \<Rightarrow> nat \<Rightarrow> state_t \<Rightarrow> state_t \<Rightarrow> nat option \<Rightarrow> nat list \<Rightarrow> bool" where
  "control P_Find w t ps ss mu co = (t = 0 \<and> ps = IDLE \<and> co = [] \<and> leaving w ss mu)"
| "control P_Lock w t ps ss mu co = (t = 0 \<and> ps = IDLE \<and> co = [] \<and> leaving w ss mu)"
| "control P_Check w t ps ss mu co =
     (ps = WAITING_INIT_SRVR \<and> mu = Some P \<and> co = [] \<and> (early w t ss \<or> t = 0 \<and> leaving w ss None))"
| "control P_Wait0 w t ps ss mu co =
     (ps = WAITING_INIT_SRVR \<and>
      (mu = None \<and> co = [P] \<and> early w t ss \<or>
       t = 0 \<and> co = [P] \<and> leaving w ss mu \<or>
       w = W_Loop \<and> t = 0 \<and> ss = WAITING_CONT_PRXY \<and> mu = Some W \<and> co = [] \<or>
       w = W_LoopWait \<and> t = 0 \<and> ss = WAITING_CONT_PRXY \<and> mu = None \<and> co = [W]))"
| "control P_Strip w t ps ss mu co =
     (ps = WAITING_INIT_SRVR \<and> t = 0 \<and> ss = WAITING_CONT_PRXY \<and> mu = Some P \<and>
      (w = W_Lock \<and> co = [] \<or> w = W_LoopWait \<and> co = [W]))"
| "control P_Send w t ps ss mu co =
     (t = 0 \<and> ss = WAITING_CONT_PRXY \<and> mu = Some P \<and>
      (ps = WAITING_INIT_SRVR \<and> (w = W_Lock \<and> co = [] \<or> w = W_LoopWait \<and> co = [W]) \<or>
       ps = COMPLETE \<and> (w = W_Lock \<or> w = W_LoopWait) \<and> co = []))"
| "control P_Recv w t ps ss mu co =
     (t = 0 \<and> ps = COMPLETE \<and> ss = WAITING_CONT_PRXY \<and> mu = Some P \<and> co = [] \<and>
      (w = W_Lock \<or> w = W_LoopWait \<or> w = W_SendWait))"
| "control P_RecvWait w t ps ss mu co =
     (t = 0 \<and> ps = COMPLETE \<and>
      ((w = W_Lock \<or> w = W_LoopWait) \<and> ss = WAITING_CONT_PRXY \<and> mu = None \<and> co = [P] \<or>
       (w = W_Loop \<or> w = W_Read) \<and> ss = WAITING_CONT_PRXY \<and> mu = Some W \<and> (co = [] \<or> co = [P]) \<or>
       w = W_Reply \<and> ss = BUSY \<and> mu = Some W \<and> (co = [] \<or> co = [P]) \<or>
       w = W_Send \<and> (ss = BUSY \<or> ss = WAITING_CONT_PRXY) \<and> mu = Some W \<and> (co = [] \<or> co = [P]) \<or>
       w = W_SendWait \<and> (ss = COMPLETE \<or> ss = WAITING_CONT_PRXY) \<and> mu = None \<and> co = [W] \<or>
       w = W_SendWait \<and> ss = WAITING_CONT_PRXY \<and> mu = None \<and> co = [P]))"
| "control P_Read w t ps ss mu co =
     (t = 0 \<and> ps = COMPLETE \<and> w = W_SendWait \<and> (ss = COMPLETE \<or> ss = WAITING_CONT_PRXY) \<and>
      mu = Some P \<and> co = [W])"
| "control P_Reset w t ps ss mu co = (t = 0 \<and> ps = COMPLETE \<and> co = [] \<and> leaving w ss mu)"
| "control P_Done w t ps ss mu co = (t = 0 \<and> ps = IDLE \<and> co = [] \<and> leaving w ss mu)"
| "control P_Sockets w t ps ss mu co = False"
| "control P_SendWait w t ps ss mu co = False"

text \<open>The node holds these bytes.\<close>

definition holds :: "memnode \<Rightarrow> buffer \<Rightarrow> bool" where
  "holds n d \<longleftrightarrow> spaceUsed n = int (length d) \<and> take (length d) (mem n) = d"

text \<open>
  What the data are in each phase, for a request \<open>R\<close>, a response \<open>A\<close> and what the client has
  received of it.
\<close>

definition sent_upto :: "buffer \<Rightarrow> sending \<Rightarrow> nat \<Rightarrow> bool" where
  "sent_upto A s k \<longleftrightarrow> s = \<lparr>msg = A, totalBytes = int k, isServer = True\<rparr> \<and> k \<le> length A"

fun request_phase :: "buffer \<Rightarrow> proxy_pc \<Rightarrow> worker_pc \<Rightarrow> memnode \<Rightarrow> pthread \<Rightarrow> wthread \<Rightarrow> bool" where
  "request_phase R pp W_Loop n p s = (line s = [] \<and> (pp = P_RecvWait \<longrightarrow> holds n R))"
| "request_phase R pp W_LoopWait n p s =
     (line s = [] \<and> (proxyState n = COMPLETE \<longrightarrow> holds n R))"
| "request_phase R pp W_Read n p s = (line s = [] \<and> holds n R)"
| "request_phase R pp w n p s = (proxyState n = COMPLETE \<longrightarrow> holds n R)"

definition in_request :: "worker_pc \<Rightarrow> bool" where
  "in_request w \<longleftrightarrow> w \<in> {W_Idle, W_Pick, W_Lock, W_Loop, W_LoopWait, W_Read}"

definition is_ended :: "proxy_pc \<Rightarrow> bool" where
  "is_ended pp \<longleftrightarrow> pp = P_Reset \<or> pp = P_Done"

text \<open>The worker still has to leave the node after the response before.\<close>

definition is_new :: "proxy_pc \<Rightarrow> bool" where
  "is_new pp \<longleftrightarrow> pp \<in> {P_Find, P_Lock, P_Check, P_Wait0}"

definition is_old :: "proxy_pc \<Rightarrow> worker_pc \<Rightarrow> bool" where
  "is_old pp w \<longleftrightarrow> is_new pp \<and> w \<in> {W_SendWait, W_Send, W_Unlock, W_Reset}"

definition sent_out :: "wthread \<Rightarrow> bool" where
  "sent_out s \<longleftrightarrow> (wpc s \<in> {W_SendWait, W_Send} \<longrightarrow> totalBytes (wsend s) = int (length (msg (wsend s))))"

definition data :: "buffer \<Rightarrow> buffer \<Rightarrow> memnode \<Rightarrow> pthread \<Rightarrow> wthread \<Rightarrow> buffer \<Rightarrow> bool" where
  "data R A n p s got \<longleftrightarrow>
     (if is_ended (ppc p) then
        got = A \<and> line s = R \<and> sent_out s
      else if is_old (ppc p) (wpc s) then got = [] \<and> sent_out s
      else if in_request (wpc s) then
        got = [] \<and> request_phase R (ppc p) (wpc s) n p s \<and>
        (ppc p = P_Send \<longrightarrow> psend p = \<lparr>msg = R,
           totalBytes = (if proxyState n = COMPLETE then int (length R) else 0), isServer = False\<rparr>)
      else line s = R \<and>
        (if wpc s = W_Reply then got = []
         else if wpc s = W_Send \<or> condition n \<noteq> [W] then
           sent_upto A (wsend s) (length got) \<and> got = take (length got) A \<and> length got < length A
         else \<exists>c. holds n c \<and> c \<noteq> [] \<and> sent_upto A (wsend s) (length got + length c) \<and>
           got @ c = take (length got + length c) A \<and>
           (serverState n = COMPLETE \<longleftrightarrow> length got + length c = length A)))"

definition phase :: "buffer \<Rightarrow> buffer \<Rightarrow> buffer \<Rightarrow> string \<Rightarrow> memnode \<Rightarrow> pthread \<Rightarrow> wthread \<Rightarrow> nat \<Rightarrow> bool" where
  "phase hdr R A out n p s t \<longleftrightarrow>
     control (ppc p) (wpc s) t (proxyState n) (serverState n) (mutex n) (condition n) \<and>
     (wpc s \<notin> {W_Idle, W_Pick} \<longrightarrow> wnode s = 0) \<and> (ppc p \<noteq> P_Find \<longrightarrow> pnode p = 0) \<and>
     length (mem n) = SEGMENTSIZE \<and> request p = hdr \<and> \<not> compressing p \<and> txo (client p) = [] \<and>
     (\<exists>got. tx (client p) = out @ got \<and> data R A n p s got)"


section \<open>What one turn of a send does\<close>

lemmas node_ops = locked_def unlocked_def signalled_def waiting_def woken_def

lemma sendShared_turn_request:
  assumes "s = \<lparr>msg = R, totalBytes = 0, isServer = False\<rparr>" and "R \<noteq> []"
    and "length R \<le> SEGMENTSIZE" and "length (mem n) = SEGMENTSIZE"
  shows "sendShared_turn s n = Inr (Go_On False, s\<lparr>totalBytes := int (length R)\<rparr>,
    signalled (n\<lparr>proxyState := COMPLETE, mem := R @ drop (length R) (mem n),
                 spaceUsed := int (length R)\<rparr>))"
proof -
  have "setMapping (n\<lparr>proxyState := BUSY\<rparr>) R (int (length R)) =
      Inr (int (length R), n\<lparr>proxyState := BUSY, mem := R @ drop (length R) (mem n),
         spaceUsed := int (length R)\<rparr>)"
    using assms(3,4) by (subst setMapping_fits) simp_all
  moreover have "\<not> int SEGMENTSIZE < int (length R)"
    using assms(3) by simp
  ultimately show ?thesis
    using assms(1,2) by (cases n) (simp add: sendShared_turn_def set_theState_def Let_def)
qed

lemma sendShared_turn_done:
  "totalBytes s = int (length (msg s)) \<Longrightarrow> sendShared_turn s n = Inr (Sent_All, s, n)"
  by (simp add: sendShared_turn_def Let_def)

lemma sendShared_turn_response:
  assumes "sent_upto A s k" and "k < length A" and "length (mem n) = SEGMENTSIZE"
  obtains c s' where "c \<noteq> []" and "take (k + length c) A = take k A @ c"
    and "sent_upto A s' (k + length c)" and "length c \<le> SEGMENTSIZE"
    and "sendShared_turn s n = Inr (Go_On True, s',
      signalled (n\<lparr>serverState := (if k + length c = length A then COMPLETE else WAITING_CONT_PRXY),
                   mem := c @ drop (length c) (mem n), spaceUsed := int (length c)\<rparr>))"
proof
  define c where "c = take SEGMENTSIZE (drop k A)"
  have seg: "0 < SEGMENTSIZE"
    by (simp add: SEGMENTSIZE_def)
  have len: "length c = min (length A - k) SEGMENTSIZE"
    by (simp add: c_def)
  show ne: "c \<noteq> []"
    using assms(2) seg by (simp add: c_def)
  show "length c \<le> SEGMENTSIZE"
    by (simp add: len)
  have c_take: "c = take (length c) (drop k A)"
    by (metis append_eq_conv_conj append_take_drop_id c_def)
  show "take (k + length c) A = take k A @ c"
    by (subst (2) c_take) (simp add: take_add)
  define s' where "s' = s\<lparr>totalBytes := int (k + length c)\<rparr>"
  have s: "s = \<lparr>msg = A, totalBytes = int k, isServer = True\<rparr>"
    using assms(1) by (simp add: sent_upto_def)
  show "sent_upto A s' (k + length c)"
    using assms(2) by (simp add: s'_def s sent_upto_def len)
  have m: "setMapping (n\<lparr>serverState := BUSY\<rparr>) (drop k A) (int (length c)) =
      Inr (int (length c), n\<lparr>serverState := BUSY, mem := c @ drop (length c) (mem n),
         spaceUsed := int (length c)\<rparr>)"
    using assms(3) c_take by (simp add: setMapping_def Let_def len)
  have w: "(if int SEGMENTSIZE < int (length A) - int k then int SEGMENTSIZE else int (length A) - int k)
      = int (length c)"
    using assms(2) by (auto simp: len min_def)
  show "sendShared_turn s n = Inr (Go_On True, s',
      signalled (n\<lparr>serverState := (if k + length c = length A then COMPLETE else WAITING_CONT_PRXY),
                   mem := c @ drop (length c) (mem n), spaceUsed := int (length c)\<rparr>))"
    using assms(2) m unfolding sendShared_turn_def s Let_def sending.simps w
    by (cases n) (simp add: set_theState_def s'_def s of_nat_add [symmetric] del: of_nat_add)
qed

lemma receiveShared_holds:
  assumes "holds n d" and "d \<noteq> []" and "length (mem n) = SEGMENTSIZE" and "ample al"
    and "length d \<le> SEGMENTSIZE"
  shows "receiveShared al n = Inr (Some d)"
  using assms by (simp add: receiveShared_def holds_def ample_grants)

lemma holds_length: "holds n d \<Longrightarrow> length (mem n) = SEGMENTSIZE \<Longrightarrow> length d \<le> SEGMENTSIZE"
  by (metis holds_def length_take min.cobounded1)

section \<open>The invariant\<close>

text \<open>What the run is given: room for every object, and a request and a response that exist.\<close>

definition exchange :: "allocator \<Rightarrow> (buffer \<Rightarrow> (buffer \<times> buffer) result) \<Rightarrow> buffer \<Rightarrow> buffer \<Rightarrow> buffer \<Rightarrow> bool" where
  "exchange al reply hdr R A \<longleftrightarrow> ample al \<and>
     stripAbsURL al hdr (length hdr) = Inr (Some R, int (length R)) \<and> R \<noteq> [] \<and> length R \<le> SEGMENTSIZE \<and>
     (case reply (R @ replicate (20000 - length R) NUL) of
        Inl e \<Rightarrow> False
      | Inr (H, B) \<Rightarrow> H @ B = A) \<and> A \<noteq> []"

lemma segment_room: "SEGMENTSIZE \<le> 20000" "in_int (int SEGMENTSIZE)"
  by (simp_all add: SEGMENTSIZE_def in_int_def)

lemma holds_upd [simp]:
  "holds (n\<lparr>mutex := m\<rparr>) d = holds n d" "holds (n\<lparr>condition := c\<rparr>) d = holds n d"
  "holds (n\<lparr>proxyState := ps\<rparr>) d = holds n d" "holds (n\<lparr>serverState := ss\<rparr>) d = holds n d"
  by (simp_all add: holds_def)

lemmas phase_defs = phase_def data_def in_request_def is_ended_def is_old_def is_new_def sent_out_def

text \<open>
  The measure: the bytes of the response not yet mapped count most, then the place of each thread,
  and whether it still waits to be woken.
\<close>

fun proxy_rank :: "proxy_pc \<Rightarrow> nat" where
  "proxy_rank P_Find = 40" | "proxy_rank P_Lock = 39" | "proxy_rank P_Check = 38"
| "proxy_rank P_Wait0 = 35" | "proxy_rank P_Strip = 34" | "proxy_rank P_Send = 33"
| "proxy_rank P_Recv = 8" | "proxy_rank P_RecvWait = 6" | "proxy_rank P_Read = 5"
| "proxy_rank P_Reset = 4" | "proxy_rank P_Done = 0" | "proxy_rank P_SendWait = 0"
| "proxy_rank P_Sockets = 0"

fun worker_rank :: "worker_pc \<Rightarrow> nat" where
  "worker_rank W_Idle = 120" | "worker_rank W_Pick = 110" | "worker_rank W_Lock = 100"
| "worker_rank W_Loop = 90" | "worker_rank W_LoopWait = 70" | "worker_rank W_Read = 65"
| "worker_rank W_Reply = 60" | "worker_rank W_Send = 50" | "worker_rank W_SendWait = 52"
| "worker_rank W_Unlock = 40" | "worker_rank W_Reset = 30"

definition mapped :: "buffer \<Rightarrow> pthread \<Rightarrow> wthread \<Rightarrow> nat" where
  "mapped A p s = (if is_ended (ppc p) then length A
     else if in_request (wpc s) \<or> wpc s = W_Reply \<or> is_old (ppc p) (wpc s) then 0 else nat (totalBytes (wsend s)))"

definition rank :: "buffer \<Rightarrow> memnode \<Rightarrow> pthread \<Rightarrow> wthread \<Rightarrow> nat \<Rightarrow> nat" where
  "rank A n p s t = 20 * (length A - mapped A p s) + proxy_rank (ppc p) +
     (if wpc s = W_Idle then (if is_ended (ppc p) then 20 else 120 - t)
      else worker_rank (wpc s) + (if is_old (ppc p) (wpc s) then 100 else 0)) +
     (if W \<in> set (condition n) then 10 else 0) + (if P \<in> set (condition n) then 1 else 0) +
     (if proxyState n = COMPLETE then 0 else 2)"

lemmas rank_defs = rank_def mapped_def

text \<open>A thread's step keeps the phases and decreases the measure.\<close>

definition pkeeps :: "nat \<Rightarrow> buffer \<Rightarrow> buffer \<Rightarrow> buffer \<Rightarrow> string \<Rightarrow> wthread \<Rightarrow> nat \<Rightarrow> (pthread \<times> memnode) result option \<Rightarrow> bool" where
  "pkeeps k hdr R A out s t r = (case r of
     None \<Rightarrow> True
   | Some (Inl e) \<Rightarrow> False
   | Some (Inr (p', n')) \<Rightarrow> phase hdr R A out n' p' s t \<and> rank A n' p' s t < k)"

lemma proxy_quiet:
  assumes "phase hdr R A out n p s t"
    and "ppc p \<in> {P_Lock, P_Check, P_Wait0, P_RecvWait, P_Reset}"
  shows "pkeeps (rank A n p s t) hdr R A out s t (proxy_step al P p n)"
proof (cases "ppc p")
  case P_Lock
  then show ?thesis
    using assms(1) by (cases "wpc s") (auto simp: phase_defs rank_defs proxy_step.simps pmove_def pkeeps_def node_ops)
next
  case P_Check
  then show ?thesis
    using assms(1) by (cases "wpc s") (auto simp: phase_defs rank_defs proxy_step.simps pmove_def pkeeps_def node_ops)
next
  case P_Wait0
  then show ?thesis
    using assms(1) by (cases "wpc s") (auto simp: phase_defs rank_defs proxy_step.simps pmove_def pkeeps_def node_ops)
next
  case P_RecvWait
  then show ?thesis
    using assms(1) by (cases "wpc s") (auto simp: phase_defs rank_defs proxy_step.simps pmove_def pkeeps_def node_ops)
next
  case P_Reset
  then show ?thesis
    using assms(1) by (cases "wpc s") (auto simp: phase_defs rank_defs proxy_step.simps pmove_def pkeeps_def node_ops)
qed (use assms in auto)

lemma proxy_recv:
  assumes "phase hdr R A out n p s t" and "ppc p = P_Recv"
  shows "pkeeps (rank A n p s t) hdr R A out s t (proxy_step al P p n)"
  using assms by (cases "wpc s") (auto simp: phase_defs rank_defs proxy_step.simps pmove_def pkeeps_def node_ops)

lemma proxy_strip:
  assumes "phase hdr R A out n p s t" and "ppc p = P_Strip" and "exchange al reply hdr R A"
  shows "pkeeps (rank A n p s t) hdr R A out s t (proxy_step al P p n)"
proof -
  have "sendShared_start al R [] n = Some \<lparr>msg = R, totalBytes = 0, isServer = False\<rparr>"
    using assms by (auto simp: sendShared_start_def exchange_def ample_grants phase_def)
  then have "proxy_step al P p n = pmove (p\<lparr>psend := \<lparr>msg = R, totalBytes = 0, isServer = False\<rparr>\<rparr>) P_Send n"
    using assms by (auto simp: proxy_step.simps exchange_def phase_def)
  then show ?thesis
    using assms(1,2)
    by (cases "wpc s") (auto simp: phase_defs rank_defs pmove_def pkeeps_def)
qed

lemma proxy_send:
  assumes "phase hdr R A out n p s t" and "ppc p = P_Send" and "exchange al reply hdr R A"
  shows "pkeeps (rank A n p s t) hdr R A out s t (proxy_step al P p n)"
proof (cases "proxyState n = COMPLETE")
  case True
  then have "psend p = \<lparr>msg = R, totalBytes = int (length R), isServer = False\<rparr>"
    using assms(1,2) by (auto simp: phase_defs rank_defs split: if_splits)
  then have "proxy_step al P p n = pmove (p\<lparr>psend := psend p\<rparr>) P_Recv n"
    using assms(2) by (simp add: proxy_step.simps sendShared_turn_done)
  then show ?thesis
    using assms(1,2) True
    by (cases "wpc s") (auto simp: phase_defs rank_defs pmove_def pkeeps_def)
next
  case False
  then have psend: "psend p = \<lparr>msg = R, totalBytes = 0, isServer = False\<rparr>"
    using assms(1,2) by (auto simp: phase_defs rank_defs split: if_splits)
  have "R \<noteq> []" "length R \<le> SEGMENTSIZE" "length (mem n) = SEGMENTSIZE"
    using assms(1,3) by (auto simp: phase_def exchange_def)
  note turn = sendShared_turn_request [OF psend this]
  have held: "holds (signalled (n\<lparr>proxyState := COMPLETE, mem := R @ drop (length R) (mem n),
                 spaceUsed := int (length R)\<rparr>)) R"
    by (simp add: holds_def signalled_def)
  have "proxy_step al P p n = pmove (p\<lparr>psend := psend p\<lparr>totalBytes := int (length R)\<rparr>\<rparr>) P_Send
      (signalled (n\<lparr>proxyState := COMPLETE, mem := R @ drop (length R) (mem n),
                 spaceUsed := int (length R)\<rparr>))"
    using assms(2) turn by (simp add: proxy_step.simps)
  then show ?thesis
    using assms(1,2,3) False held psend
    by (cases "wpc s") (auto simp: phase_defs rank_defs pmove_def pkeeps_def signalled_def exchange_def)
qed

lemma proxy_read:
  assumes "phase hdr R A out n p s t" and "ppc p = P_Read" and "exchange al reply hdr R A"
  shows "pkeeps (rank A n p s t) hdr R A out s t (proxy_step al P p n)"
proof -
  obtain got c where d: "tx (client p) = out @ got" "holds n c" "c \<noteq> []"
      "sent_upto A (wsend s) (length got + length c)" "got @ c = take (length got + length c) A"
      "serverState n = COMPLETE \<longleftrightarrow> length got + length c = length A"
      "line s = R" "wpc s = W_SendWait"
    using assms(1,2) by (auto simp: phase_defs rank_defs)
  have m: "length (mem n) = SEGMENTSIZE" "txo (client p) = []" "\<not> compressing p"
    using assms(1) by (auto simp: phase_def)
  have c: "length c \<le> SEGMENTSIZE" "spaceUsed n = int (length c)"
    using holds_length [OF d(2) m(1)] d(2) by (simp_all add: holds_def)
  have "receiveShared al n = Inr (Some c)"
    using d m c assms(3) by (intro receiveShared_holds) (auto simp: exchange_def)
  moreover have "in_int (int (length c))"
    using c(1) by (simp add: in_int_def SEGMENTSIZE_def)
  then have "sendAll c (spaceUsed n) (client p) =
      Inr (0, int (length c), client p\<lparr>tx := tx (client p) @ c\<rparr>)"
    using c(2) m(2) by (simp add: sendAll_plain)
  moreover have upd: "n\<lparr>spaceUsed := int (length c)\<rparr> = n"
    using c(2) by (cases n) simp
  ultimately have step: "proxy_step al P p n =
      (if serverState n \<noteq> COMPLETE
       then pmove (p\<lparr>client := client p\<lparr>tx := tx (client p) @ c\<rparr>\<rparr>) P_Recv (signalled n)
       else pmove (p\<lparr>client := client p\<lparr>tx := tx (client p) @ c\<rparr>\<rparr>) P_Reset (unlocked (signalled n)))"
    using assms(2) m(3) by (simp add: proxy_step.simps Let_def signalled_def)
  have got: "got @ c = take (length (got @ c)) A" "length got + length c \<le> length A"
    using d(4,5) by (auto simp: sent_upto_def)
  show ?thesis
  proof (cases "serverState n = COMPLETE")
    case True
    then have "got @ c = A"
      using got d(6) by simp
    then show ?thesis
      using assms(1,2) True d step
      by (auto simp: phase_defs rank_defs pmove_def pkeeps_def node_ops sent_upto_def)
  next
    case False
    then have "length (got @ c) < length A"
      using got(2) d(6) by auto
    then show ?thesis
      using assms(1,2) False d step got
      by (auto simp: phase_defs rank_defs pmove_def pkeeps_def node_ops intro!: exI [of _ "got @ c"])
  qed
qed


definition wkeeps :: "nat \<Rightarrow> buffer \<Rightarrow> buffer \<Rightarrow> buffer \<Rightarrow> string \<Rightarrow> pthread \<Rightarrow> nat \<Rightarrow> (wthread \<times> memnode) result option \<Rightarrow> bool" where
  "wkeeps k hdr R A out p t r = (case r of
     None \<Rightarrow> True
   | Some (Inl e) \<Rightarrow> False
   | Some (Inr (s', n')) \<Rightarrow> phase hdr R A out n' p s' t \<and> rank A n' p s' t < k)"

lemma worker_quiet:
  assumes "phase hdr R A out n p s t"
    and "wpc s \<in> {W_Lock, W_Loop, W_LoopWait, W_Unlock, W_Reset}"
  shows "wkeeps (rank A n p s t) hdr R A out p t (worker_step al reply W s n)"
proof (cases "wpc s")
  case W_Lock
  then show ?thesis
    using assms(1) by (cases "ppc p") (auto simp: phase_defs rank_defs worker_step.simps wmove_def wkeeps_def node_ops)
next
  case W_Loop
  then show ?thesis
    using assms(1) by (cases "ppc p") (auto simp: phase_defs rank_defs worker_step.simps wmove_def wkeeps_def node_ops)
next
  case W_LoopWait
  then show ?thesis
    using assms(1) by (cases "ppc p") (auto simp: phase_defs rank_defs worker_step.simps wmove_def wkeeps_def node_ops)
next
  case W_Unlock
  then show ?thesis
    using assms(1) by (cases "ppc p") (auto simp: phase_defs rank_defs worker_step.simps wmove_def wkeeps_def node_ops)
next
  case W_Reset
  then show ?thesis
    using assms(1) by (cases "ppc p") (auto simp: phase_defs rank_defs worker_step.simps wmove_def wkeeps_def node_ops)
qed (use assms in auto)

lemma worker_read:
  assumes "phase hdr R A out n p s t" and "wpc s = W_Read" and "exchange al reply hdr R A"
  shows "wkeeps (rank A n p s t) hdr R A out p t (worker_step al reply W s n)"
proof -
  have d: "holds n R" "line s = []" "ppc p = P_RecvWait" "proxyState n = COMPLETE"
    "length (mem n) = SEGMENTSIZE"
    using assms(1,2) by (cases "ppc p"; auto simp: phase_defs rank_defs)+
  have R: "length R \<le> SEGMENTSIZE" "R \<noteq> []" "ample al"
    using assms(3) by (auto simp: exchange_def)
  have "receiveShared al n = Inr (Some R)"
    using d R by (intro receiveShared_holds) auto
  then have "worker_step al reply W s n = wmove (s\<lparr>line := R\<rparr>) W_Reply (n\<lparr>serverState := BUSY\<rparr>)"
    using assms(2) d R(1) segment_room(1) by (simp add: worker_step.simps Let_def)
  then show ?thesis
    using assms(1,2) d by (auto simp: phase_defs rank_defs wmove_def wkeeps_def)
qed

lemma worker_reply:
  assumes "phase hdr R A out n p s t" and "wpc s = W_Reply" and "exchange al reply hdr R A"
  shows "wkeeps (rank A n p s t) hdr R A out p t (worker_step al reply W s n)"
proof -
  have d: "line s = R" "ppc p = P_RecvWait" "proxyState n = COMPLETE"
    using assms(1,2) by (cases "ppc p"; auto simp: phase_defs rank_defs)+
  obtain H B where r: "reply (R @ replicate (20000 - length R) NUL) = Inr (H, B)" "H @ B = A"
    using assms(3) by (auto simp: exchange_def split: sum.splits)
  have "sendShared_start al H B n = Some \<lparr>msg = A, totalBytes = 0, isServer = True\<rparr>"
    using assms(3) r d by (simp add: sendShared_start_def exchange_def ample_grants)
  then have "worker_step al reply W s n =
      wmove (s\<lparr>wsend := \<lparr>msg = A, totalBytes = 0, isServer = True\<rparr>\<rparr>) W_Send n"
    using assms(2) d r by (simp add: worker_step.simps)
  then show ?thesis
    using assms d by (auto simp: phase_defs rank_defs wmove_def wkeeps_def sent_upto_def exchange_def)
qed

lemma worker_send:
  assumes "phase hdr R A out n p s t" and "wpc s = W_Send"
  shows "wkeeps (rank A n p s t) hdr R A out p t (worker_step al reply W s n)"
proof (cases "is_ended (ppc p) \<or> is_new (ppc p)")
  case True
  then have "totalBytes (wsend s) = int (length (msg (wsend s)))"
    using assms by (auto simp: phase_defs split: if_splits)
  then have "worker_step al reply W s n = wmove (s\<lparr>wsend := wsend s\<rparr>) W_Unlock n"
    using assms(2) by (simp add: worker_step.simps sendShared_turn_done)
  then show ?thesis
    using assms True by (cases "ppc p") (auto simp: phase_defs rank_defs wmove_def wkeeps_def)
next
  case False
  then have pp: "ppc p = P_RecvWait"
    using assms by (cases "ppc p") (auto simp: phase_defs rank_defs)
  obtain got where d: "tx (client p) = out @ got" "sent_upto A (wsend s) (length got)"
      "got = take (length got) A" "length got < length A" "line s = R"
    using assms pp by (auto simp: phase_defs rank_defs)
  have m: "length (mem n) = SEGMENTSIZE"
    using assms(1) by (simp add: phase_def)
  obtain c s' where c: "c \<noteq> []" "take (length got + length c) A = take (length got) A @ c"
    "sent_upto A s' (length got + length c)" "length c \<le> SEGMENTSIZE"
    and turn: "sendShared_turn (wsend s) n = Inr (Go_On True, s',
      signalled (n\<lparr>serverState := (if length got + length c = length A then COMPLETE else WAITING_CONT_PRXY),
                   mem := c @ drop (length c) (mem n), spaceUsed := int (length c)\<rparr>))"
    using sendShared_turn_response [OF d(2,4) m] by blast
  define n' where "n' = waiting W (
      signalled (n\<lparr>serverState := (if length got + length c = length A then COMPLETE else WAITING_CONT_PRXY),
                   mem := c @ drop (length c) (mem n), spaceUsed := int (length c)\<rparr>))"
  have "worker_step al reply W s n = wmove (s\<lparr>wsend := s'\<rparr>) W_SendWait n'"
    using assms(2) turn by (simp add: worker_step.simps n'_def)
  moreover have n': "proxyState n' = COMPLETE" "mutex n' = None" "condition n' = [W]"
    "serverState n' = (if length got + length c = length A then COMPLETE else WAITING_CONT_PRXY)"
    "length (mem n') = SEGMENTSIZE" "holds n' c"
    using assms pp m c(4) by (auto simp: phase_def n'_def node_ops holds_def)
  have "got @ c = take (length got + length c) A"
    using c(2) d(3) by simp
  then have "data R A n' p (s\<lparr>wsend := s', wpc := W_SendWait\<rparr>) got"
    using pp d(5) c(1,3) n' by (auto simp: data_def in_request_def is_ended_def is_old_def is_new_def)
  then have "phase hdr R A out n' p (s\<lparr>wsend := s', wpc := W_SendWait\<rparr>) t"
    using assms pp n' d(1) by (auto simp: phase_def)
  moreover have "rank A n' p (s\<lparr>wsend := s', wpc := W_SendWait\<rparr>) t < rank A n p s t"
  proof -
    have "length got + length c \<le> length A" "0 < length c"
      using c(1,3) by (auto simp: sent_upto_def)
    then have "12 + 20 * (length A - (length got + length c)) < 20 * (length A - length got)"
      by linarith
    moreover have "mapped A p s = length got"
      "mapped A p (s\<lparr>wsend := s', wpc := W_SendWait\<rparr>) = length got + length c"
      using assms(2) pp d(2) c(3)
      by (simp_all add: mapped_def is_ended_def in_request_def is_old_def is_new_def sent_upto_def nat_int_add)
    ultimately show ?thesis
      using assms pp n'(1,3) by (auto simp: rank_def phase_def is_old_def is_new_def)
  qed
  ultimately show ?thesis
    by (simp add: wkeeps_def wmove_def)
qed

lemma worker_sendwait:
  assumes "phase hdr R A out n p s t" and "wpc s = W_SendWait"
  shows "wkeeps (rank A n p s t) hdr R A out p t (worker_step al reply W s n)"
  using assms by (cases "ppc p") (auto simp: phase_defs rank_defs worker_step.simps wmove_def wkeeps_def node_ops)


text \<open>The steps in the world of one proxy thread and one worker.\<close>

definition idle_rest :: "memnode list \<Rightarrow> bool" where
  "idle_rest rest = list_all (\<lambda>n. proxyState n = IDLE) rest"

lemma findState_one:
  "findState (n # rest) (1 + int (length rest)) (proxyState n) = Inr (Some 0)"
  by (simp add: findState_Some)

lemma findState_one_None:
  assumes "idle_rest rest" and "proxyState n \<noteq> st" and "st \<noteq> IDLE"
  shows "findState (n # rest) (1 + int (length rest)) st = Inr None"
  using assms by (auto simp: findState_None idle_rest_def list_all_length nth_Cons split: nat.splits)

definition good :: "buffer \<Rightarrow> buffer \<Rightarrow> buffer \<Rightarrow> string \<Rightarrow> memnode list \<Rightarrow> world \<Rightarrow> bool" where
  "good hdr R A out rest w \<longleftrightarrow>
     (\<exists>n p s t. w = one n rest p s t \<and> phase hdr R A out n p s t)"

definition wrank :: "buffer \<Rightarrow> world \<Rightarrow> nat" where
  "wrank A w = rank A (nodes w ! 0) (proxies w ! 0) (workers w ! 0) (tokens w)"

definition keeps :: "buffer \<Rightarrow> buffer \<Rightarrow> buffer \<Rightarrow> string \<Rightarrow> memnode list \<Rightarrow> world \<Rightarrow> world result option \<Rightarrow> bool" where
  "keeps hdr R A out rest w r = (case r of
     None \<Rightarrow> True
   | Some (Inl e) \<Rightarrow> False
   | Some (Inr w') \<Rightarrow> good hdr R A out rest w' \<and> wrank A w' < wrank A w)"

lemma proxy_keeps:
  assumes "phase hdr R A out n p s t" and "exchange al reply hdr R A"
  shows "keeps hdr R A out rest (one n rest p s t) (act al reply (Proxy i) (one n rest p s t))"
proof (cases "i = 0 \<and> ppc p \<noteq> P_Find")
  case True
  have k: "pkeeps (rank A n p s t) hdr R A out s t (proxy_step al P p n)"
  proof (cases "ppc p \<in> {P_Done, P_Sockets, P_SendWait}")
    case True
    then show ?thesis
      using assms(1) by (auto simp: phase_def pkeeps_def proxy_step.simps)
  next
    case False
    then show ?thesis
      using assms \<open>i = 0 \<and> ppc p \<noteq> P_Find\<close> proxy_quiet [OF assms(1)] proxy_recv [OF assms(1)]
        proxy_strip [OF assms(1) _ assms(2)] proxy_send [OF assms(1) _ assms(2)]
        proxy_read [OF assms(1) _ assms(2)]
      by (cases "ppc p") auto
  qed
  have "pnode p = 0"
    using True assms(1) by (simp add: phase_def)
  then have "act al reply (Proxy i) (one n rest p s t) =
      map_option (\<lambda>r. bindR r (\<lambda>(p', n'). Inr (one n' rest p' s t))) (proxy_step al P p n)"
    using True by (simp add: pstep_def one_def pid_def Let_def)
  then show ?thesis
    using k by (auto simp: keeps_def pkeeps_def good_def wrank_def one_def split: option.splits sum.splits)
next
  case False
  then show ?thesis
  proof (cases "i = 0")
    case True
    then have pf: "ppc p = P_Find" "proxyState n = IDLE"
      using False assms(1) by (auto simp: phase_def)
    then have "act al reply (Proxy i) (one n rest p s t) =
        Some (Inr (one n rest (p\<lparr>ppc := P_Lock, pnode := 0\<rparr>) s t))"
      using True findState_one [of n rest] by (simp add: pstep_def one_def Let_def)
    moreover have "phase hdr R A out n (p\<lparr>ppc := P_Lock, pnode := 0\<rparr>) s t"
      using assms(1) pf by (cases "wpc s") (auto simp: phase_defs)
    moreover have "rank A n (p\<lparr>ppc := P_Lock, pnode := 0\<rparr>) s t < rank A n p s t"
      using assms(1) pf by (cases "wpc s") (auto simp: rank_defs phase_defs)
    ultimately show ?thesis
      by (auto simp: keeps_def good_def wrank_def one_def)
  qed (simp add: keeps_def pstep_def one_def Let_def)
qed

lemma worker_keeps:
  assumes "phase hdr R A out n p s t" and "exchange al reply hdr R A" and "idle_rest rest"
  shows "keeps hdr R A out rest (one n rest p s t) (act al reply (Worker j) (one n rest p s t))"
proof (cases "j = 0 \<and> wpc s \<noteq> W_Idle \<and> wpc s \<noteq> W_Pick")
  case True
  have k: "wkeeps (rank A n p s t) hdr R A out p t (worker_step al reply W s n)"
    using assms True worker_quiet [OF assms(1)] worker_read [OF assms(1) _ assms(2)]
      worker_reply [OF assms(1) _ assms(2)] worker_send [OF assms(1)] worker_sendwait [OF assms(1)]
    by (cases "wpc s") auto
  have "wnode s = 0"
    using True assms(1) by (simp add: phase_def)
  then have "act al reply (Worker j) (one n rest p s t) =
      map_option (\<lambda>r. bindR r (\<lambda>(s', n'). Inr (one n' rest p s' t))) (worker_step al reply W s n)"
    using True by (simp add: wstep_def one_def wid_def Let_def)
  then show ?thesis
    using k by (auto simp: keeps_def wkeeps_def good_def wrank_def one_def split: option.splits sum.splits)
next
  case False
  consider (other) "j \<noteq> 0" | (idle) "j = 0" "wpc s = W_Idle" | (pick) "j = 0" "wpc s = W_Pick"
    using False by auto
  then show ?thesis
  proof cases
    case other
    then show ?thesis
      by (simp add: keeps_def wstep_def one_def Let_def)
  next
    case idle
    show ?thesis
    proof (cases t)
      case 0
      then show ?thesis
        using idle by (simp add: keeps_def wstep_def one_def Let_def)
    next
      case (Suc t')
      then have "act al reply (Worker j) (one n rest p s t) =
          Some (Inr (one n rest p (s\<lparr>wpc := W_Pick\<rparr>) t'))"
        using idle by (simp add: wstep_def one_def Let_def)
      moreover have "phase hdr R A out n p (s\<lparr>wpc := W_Pick\<rparr>) t' \<and>
          rank A n p (s\<lparr>wpc := W_Pick\<rparr>) t' < rank A n p s t"
        using assms(1) idle Suc by (cases "ppc p") (auto simp: phase_defs rank_defs)
      ultimately show ?thesis
        by (auto simp: keeps_def good_def wrank_def one_def)
    qed
  next
    case pick
    have ps: "proxyState n = WAITING_INIT_SRVR"
      using assms(1) pick by (cases "ppc p") (auto simp: phase_defs)
    let ?n = "n\<lparr>serverState := WAITING_CONT_PRXY\<rparr>"
    let ?s = "s\<lparr>wpc := W_Lock, wnode := 0\<rparr>"
    have "act al reply (Worker j) (one n rest p s t) = Some (Inr (one ?n rest p ?s t))"
      using pick ps findState_one [of n rest] by (simp add: wstep_def one_def Let_def)
    moreover have "phase hdr R A out ?n p ?s t \<and> rank A ?n p ?s t < rank A n p s t"
      using assms(1) pick by (cases "ppc p") (auto simp: phase_defs rank_defs)
    ultimately show ?thesis
      by (auto simp: keeps_def good_def wrank_def one_def)
  qed
qed

lemma main_keeps:
  assumes "phase hdr R A out n p s t" and "idle_rest rest"
  shows "keeps hdr R A out rest (one n rest p s t) (act al reply Main (one n rest p s t))"
proof (cases "proxyState n = WAITING_INIT_SRVR")
  case False
  then show ?thesis
    using findState_one_None [OF assms(2) False] by (simp add: keeps_def mstep_def one_def)
next
  case ps: True
  show ?thesis
  proof (cases "serverState n = IDLE")
    case False
    then show ?thesis
      using ps findState_one [of n rest] by (simp add: keeps_def mstep_def one_def)
  next
    case True
    let ?n = "n\<lparr>serverState := BUSY\<rparr>"
    have "act al reply Main (one n rest p s t) = Some (Inr (one ?n rest p s (Suc t)))"
      using True ps findState_one [of n rest] by (simp add: mstep_def one_def)
    moreover have "phase hdr R A out ?n p s (Suc t) \<and> rank A ?n p s (Suc t) < rank A n p s t"
      using assms(1) True ps
      by (cases "ppc p"; cases "wpc s") (auto simp: phase_defs rank_defs)
    ultimately show ?thesis
      by (auto simp: keeps_def good_def wrank_def one_def)
  qed
qed

lemma act_keeps:
  assumes "good hdr R A out rest w" and "exchange al reply hdr R A" and "idle_rest rest"
  shows "keeps hdr R A out rest w (act al reply a w)"
  using assms proxy_keeps worker_keeps main_keeps by (cases a) (auto simp: good_def)

lemma proxy_never_blocked:
  assumes "ppc p \<in> {P_Check, P_Recv, P_Reset, P_Strip, P_Send, P_Read}"
  shows "proxy_step al me p n \<noteq> None"
proof -
  consider "ppc p \<in> {P_Check, P_Recv, P_Reset}" | "ppc p = P_Strip" | "ppc p = P_Send" | "ppc p = P_Read"
    using assms by auto
  then show ?thesis
  proof cases
    case 1
    then show ?thesis
      by (auto simp: proxy_step.simps pmove_def)
  next
    case 2
    then show ?thesis
      by (simp add: proxy_step.simps pmove_def split: sum.split option.split prod.split)
  next
    case 3
    then show ?thesis
      by (simp add: proxy_step.simps pmove_def split: sum.split prod.split turn.split)
  next
    case 4
    then show ?thesis
      by (simp add: proxy_step.simps pmove_def Let_def split: sum.split option.split prod.split)
  qed
qed

lemma worker_never_blocked:
  assumes "wpc s \<in> {W_Loop, W_Unlock, W_Reset, W_Read, W_Reply, W_Send}"
  shows "worker_step al reply me s n \<noteq> None"
proof -
  consider "wpc s \<in> {W_Loop, W_Unlock, W_Reset}" | "wpc s = W_Read" | "wpc s = W_Reply" | "wpc s = W_Send"
    using assms by auto
  then show ?thesis
  proof cases
    case 1
    then show ?thesis
      by (auto simp: worker_step.simps wmove_def)
  next
    case 2
    then show ?thesis
      by (simp add: worker_step.simps wmove_def Let_def split: sum.split option.split)
  next
    case 3
    then show ?thesis
      by (simp add: worker_step.simps wmove_def split: sum.split option.split prod.split)
  next
    case 4
    then show ?thesis
      by (simp add: worker_step.simps wmove_def split: sum.split prod.split turn.split)
  qed
qed

lemma phase_progress:
  assumes "phase hdr R A out n p s t" and "idle_rest rest"
  shows "ppc p = P_Done \<and> wpc s = W_Idle \<or> (\<exists>a. act al reply a (one n rest p s t) \<noteq> None)"
proof -
  let ?w = "one n rest p s t"
  have pn: "ppc p \<noteq> P_Find \<Longrightarrow> pnode p = 0" and wn: "wpc s \<notin> {W_Idle, W_Pick} \<Longrightarrow> wnode s = 0"
    using assms(1) by (auto simp: phase_def)
  have pa: "act al reply (Proxy 0) ?w \<noteq> None" if "ppc p \<noteq> P_Find" "proxy_step al P p n \<noteq> None"
    using that pn by (simp add: pstep_def one_def pid_def Let_def)
  have wa: "act al reply (Worker 0) ?w \<noteq> None"
    if "wpc s \<notin> {W_Idle, W_Pick}" "worker_step al reply W s n \<noteq> None"
    using that wn by (simp add: wstep_def one_def wid_def Let_def)
  have idle: "act al reply (Worker 0) ?w \<noteq> None" if "wpc s = W_Idle" "0 < t"
    using that by (cases t) (simp_all add: wstep_def one_def Let_def)
  have pick: "act al reply (Worker 0) ?w \<noteq> None" if "wpc s = W_Pick"
    using that by (simp add: wstep_def one_def Let_def)
  have main: "act al reply Main ?w \<noteq> None"
    if "proxyState n = WAITING_INIT_SRVR" "serverState n = IDLE"
    using that findState_one [of n rest] by (simp add: mstep_def one_def)
  have find: "act al reply (Proxy 0) ?w \<noteq> None" if "ppc p = P_Find"
    using that by (simp add: pstep_def one_def Let_def)
  have c: "control (ppc p) (wpc s) t (proxyState n) (serverState n) (mutex n) (condition n)"
    using assms(1) by (simp add: phase_def)
  have p_quiet: "proxy_step al P p n \<noteq> None"
    if "ppc p \<in> {P_Check, P_Recv, P_Reset, P_Strip, P_Send, P_Read}"
    using that proxy_never_blocked by blast
  have w_quiet: "worker_step al reply W s n \<noteq> None"
    if "wpc s \<in> {W_Loop, W_Unlock, W_Reset, W_Read, W_Reply, W_Send}"
    using that worker_never_blocked by blast
  have p_wait: "proxy_step al P p n \<noteq> None"
    if "ppc p \<in> {P_Lock, P_Wait0, P_RecvWait}" "mutex n = None" "P \<notin> set (condition n)"
    using that by (auto simp: proxy_step.simps pmove_def node_ops)
  have w_wait: "worker_step al reply W s n \<noteq> None"
    if "wpc s \<in> {W_Lock, W_LoopWait, W_SendWait}" "mutex n = None" "W \<notin> set (condition n)"
    using that by (auto simp: worker_step.simps wmove_def node_ops)
  define can_p where "can_p \<longleftrightarrow> act al reply (Proxy 0) ?w \<noteq> None"
  define can_w where "can_w \<longleftrightarrow> act al reply (Worker 0) ?w \<noteq> None"
  define can_m where "can_m \<longleftrightarrow> act al reply Main ?w \<noteq> None"
  have P1: can_p if "ppc p \<in> {P_Find, P_Check, P_Recv, P_Reset, P_Strip, P_Send, P_Read}"
    unfolding can_p_def using that pa find p_quiet by (cases "ppc p = P_Find") auto
  have P2: can_p if "ppc p \<in> {P_Lock, P_Wait0, P_RecvWait}" "mutex n = None" "P \<notin> set (condition n)"
    unfolding can_p_def using that by (intro pa p_wait) auto
  have W1: can_w if "wpc s \<in> {W_Pick, W_Loop, W_Unlock, W_Reset, W_Read, W_Reply, W_Send}"
    unfolding can_w_def using that wa pick w_quiet by (cases "wpc s = W_Pick") auto
  have W2: can_w if "wpc s \<in> {W_Lock, W_LoopWait, W_SendWait}" "mutex n = None" "W \<notin> set (condition n)"
    unfolding can_w_def using that by (intro wa w_wait) auto
  have W3: can_w if "wpc s = W_Idle" "0 < t"
    unfolding can_w_def using that by (rule idle)
  have M: can_m if "proxyState n = WAITING_INIT_SRVR" "serverState n = IDLE"
    unfolding can_m_def using that by (rule main)
  have "ppc p = P_Done \<and> wpc s = W_Idle \<or> can_p \<or> can_w \<or> can_m"
  proof (cases "ppc p")
    case P_Lock
    then show ?thesis
      using c P2 W1 by (cases "wpc s") auto
  next
    case P_Wait0
    then show ?thesis
      using c P2 W1 W2 W3 M by (cases "wpc s") auto
  next
    case P_RecvWait
    then show ?thesis
      using c P2 W1 W2 by (cases "wpc s") auto
  next
    case P_Done
    then show ?thesis
      using c W1 W2 by (cases "wpc s") auto
  qed (use c P1 P2 in auto)
  then show ?thesis
    unfolding can_p_def can_w_def can_m_def by blast
qed

text \<open>
  The next request, which comes while the server may still be leaving the node, and the worker that
  will take it, which may be any that is idle.
\<close>

lemma phase_next:
  assumes "phase hdr R A out n p s t" and "ppc p = P_Done" and "txo c = []"
  shows "phase hdr' R' A' (tx c) n (new_proxy hdr' c) s t"
  using assms by (cases "wpc s") (auto simp: phase_defs new_proxy_def split: if_splits)

lemma phase_idle:
  assumes "phase hdr R A out n p s t" and "wpc s = W_Idle" and "\<not> is_ended (ppc p)" and "wpc s' = W_Idle"
  shows "phase hdr R A out n p s' t" and "rank A n p s' t = rank A n p s t"
  using assms by (auto simp: phase_defs rank_defs)

lemma phase_start:
  "txo c = [] \<Longrightarrow> phase hdr R A (tx c) zero_node (new_proxy hdr c) new_worker 0"
  by (simp add: phase_defs new_proxy_def new_worker_def zero_node_def)

section \<open>A request\<close>

text \<open>A request for a page as the client sends it to the proxy, and what the proxy makes of it.\<close>

definition page_header :: "string \<Rightarrow> string" where
  "page_header p = ''GET'' @ SP # ''http://'' @ ''h'' @ p @ '' HTTP/1.0'' @ EOL @ ''Host: h'' @ EOL @ EOL"

definition page_request :: "string \<Rightarrow> string" where
  "page_request p = ''GET'' @ SP # p @ '' HTTP/1.0'' @ EOL @ ''Host: h'' @ EOL @ EOL"

lemma page_strip:
  assumes "ample al" and "NUL \<notin> set p" and "LF \<notin> set p"
  shows "stripAbsURL al (page_header p) (length (page_header p)) = Inr (Some (page_request p), int (length (page_request p)))"
proof -
  let ?line = "''GET'' @ SP # ''http://'' @ ''h'' @ p @ '' HTTP/1.0''"
  have "getHeaderField al (page_header p) (length (page_header p)) (LF # ''Host'') = Inr (Some ''h'')"
  proof (rule getHeaderField_Host)
    show "page_header p = ?line @ EOL @ ''Host:'' @ replicate 1 SP @ ''h'' @ EOL @ EOL"
      by (simp add: page_header_def)
  qed (use assms in \<open>auto simp: page_header_def EOL_def\<close>)
  then have "stripAbsURL al (page_header p) (length (page_header p)) =
      Inr (Some (''GET'' @ SP # (p @ '' HTTP/1.0'' @ EOL @ ''Host: h'' @ EOL @ EOL)),
           int (length (page_header p)) - 7 - int (length ''h''))"
    by (intro stripAbsURL_absolute) (use assms in \<open>simp_all add: page_header_def\<close>)
  then show ?thesis
    by (simp add: page_header_def page_request_def EOL_def)
qed

definition sample_header :: string where
  "sample_header = page_header ''/''"

definition sample_request :: string where
  "sample_request = page_request ''/''"

lemma sample_strip:
  "ample al \<Longrightarrow> stripAbsURL al sample_header (length sample_header) = Inr (Some sample_request, int (length sample_request))"
  by (simp add: sample_header_def sample_request_def page_strip)

lemma page_request_fits:
  "length p < 9000 \<Longrightarrow> page_request p \<noteq> [] \<and> length (page_request p) \<le> SEGMENTSIZE"
  by (simp add: page_request_def EOL_def SEGMENTSIZE_def)

lemma sample_exchange:
  "exchange (\<lambda>n. 0 \<le> n) (\<lambda>b. Inr (''HTTP/1.0 200 OK'', ''body'')) sample_header sample_request
     ''HTTP/1.0 200 OKbody''"
  using sample_strip [OF ample_nonneg]
  by (simp add: exchange_def ample_nonneg) (simp add: sample_request_def page_request_def EOL_def SEGMENTSIZE_def)

end
