(* ===== verification/Fetch.thy ===== *)
theory Fetch
  imports Serve Client Relay Exchange
begin

text \<open>
  The programs together: a request that src/client.c builds goes to src/server.c directly, through
  the sockets of src/proxy.c, or through its shared memory, and what the client counts is the size
  of the file. Each step is one of the components' lemmas; here they are put behind one another.
\<close>

section \<open>A file on the server\<close>

text \<open>
  A name that a client can ask for and the server serves: without escapes, white space or dashes,
  not refused by the check for names outside, a flat file of \<open>b\<close>.
\<close>

definition serves :: "filesystem \<Rightarrow> char \<times> char \<Rightarrow> string \<Rightarrow> buffer \<Rightarrow> bool" where
  "serves fs junk f b \<longleftrightarrow> word_text f \<and> f \<noteq> [] \<and> CHR ''%'' \<notin> set f \<and> length f < 4096 \<and> \<not> forbidden junk False f \<and>
     fstat fs f = Some (False, int (length b)) \<and> readable fs f = Some b \<and> b \<noteq> [] \<and> int (length b) < 2000000000"

definition file_response :: "string \<Rightarrow> buffer \<Rightarrow> string" where
  "file_response f b = response_text 200 ''OK'' None (int (length b)) (contentType f) @ b"

lemma decode_plain: "CHR ''%'' \<notin> set s \<Longrightarrow> decode s = s"
  by (induction s rule: decode.induct) auto

lemma mime_of_plain: "field_text (mime_of e) \<and> length (mime_of e) < 100"
proof -
  have table: "\<forall>m \<in> snd ` set mime_table. field_text m \<and> length m < 100"
    by (simp add: mime_table_def field_text_def)
  show ?thesis
  proof (cases "map_of mime_table e")
    case None
    then show ?thesis
      by (simp add: mime_of_def field_text_def)
  next
    case (Some m)
    then have "field_text m \<and> length m < 100"
      using table by (force dest: map_of_SomeD)
    then show ?thesis
      using Some by (simp add: mime_of_def)
  qed
qed

lemma contentType_plain: "field_text (contentType f)" "length (contentType f) < 100"
proof -
  have "field_text (contentType f) \<and> length (contentType f) < 100"
  proof (cases "CHR ''.'' \<in> set f")
    case True
    then obtain base e where "f = base @ CHR ''.'' # e" "CHR ''.'' \<notin> set e"
      by (meson split_list_last)
    then show ?thesis
      using mime_of_plain [of e] by (simp add: contentType_extension)
  next
    case False
    then show ?thesis
      by (simp add: contentType_no_dot field_text_def)
  qed
  then show "field_text (contentType f)" "length (contentType f) < 100"
    by simp_all
qed

lemma file_wf: "wf_response 200 ''OK'' None (contentType f)"
  using contentType_plain(1) by (simp add: wf_response_def field_text_def)

lemma file_response_length:
  assumes "int (length b) < 2000000000"
  shows "length (response_text 200 ''OK'' None (int (length b)) (contentType f)) < 300"
proof -
  have "length (dec_nat 200) \<le> Suc 2" "length (dec_nat (length b)) \<le> Suc 9"
    using assms by (intro dec_nat_length; simp)+
  then show ?thesis
    using contentType_plain(2) [of f]
    by (simp add: response_text_def before_length_def fmt_d_def PROTOCOL_def EOL_def)
qed

text \<open>The server's answer to a request for the file, whatever follows the request line.\<close>

lemma checkAndSend_file:
  assumes "serves fs junk f b" and "c_string buf = Inr (''GET /'' @ f @ SP # p)"
    and "p \<noteq> []" and "\<not> isspace (hd p)" and "length p < 10000"
  shows "checkAndSend fs al junk buf =
    Inr (response_text 200 ''OK'' None (int (length b)) (contentType f), b)"
proof -
  have f: "SP \<notin> set f" "NUL \<notin> set f" "length f < 9999" "decode f = f" "f \<noteq> []" "\<not> forbidden junk False f"
    using assms(1) by (auto simp: serves_def word_text_def field_text_def decode_plain)
  have "parse_request junk buf = Inr (Serve (CHR ''/'' # f) f)"
    using parse_request_get [OF assms(2-5) f(1-3), of junk] f by (simp add: Let_def)
  moreover have "serve_file fs f (int (length b)) =
      Inr (response_header 200 ''OK'' None (int (length b)) (contentType f), b)"
    using assms(1) by (intro serve_file_content) (simp_all add: serves_def)
  moreover have "response_header 200 ''OK'' None (int (length b)) (contentType f) =
      response_text 200 ''OK'' None (int (length b)) (contentType f)"
    using file_response_length [of b f] assms(1) by (intro response_header_text) (simp add: serves_def)
  ultimately show ?thesis
    using assms(1) by (simp add: checkAndSend_def answer_def serves_def)
qed

lemma cstr_replicate: "cstr (replicate n NUL) = []"
  by (cases n) simp_all

text \<open>A connection of the server: the request arrives in one piece, the server answers and closes.\<close>

definition served :: "filesystem \<Rightarrow> allocator \<Rightarrow> char \<times> char \<Rightarrow> string \<Rightarrow> chunk list" where
  "served fs al junk req =
     (case checkAndSend_socket fs al junk \<lparr>rx = [Data req], tx = [], txo = []\<rparr> of
        Inl e \<Rightarrow> [Rx_Error]
      | Inr c \<Rightarrow> [Data (tx c)])"

lemma served_file:
  assumes "serves fs junk f b" and "req = ''GET /'' @ f @ SP # p" and "NUL \<notin> set req"
    and "p \<noteq> []" and "\<not> isspace (hd p)" and "length p < 10000"
  shows "served fs al junk req = [Data (file_response f b)]"
proof -
  have "length f < 4096" "int (length b) < 2000000000"
    using assms(1) by (simp_all add: serves_def)
  then have len: "length req < 20000" "in_int (int (length b))"
    "in_int (int (length (response_text 200 ''OK'' None (int (length b)) (contentType f))))"
    using assms(2,6) file_response_length [of b f] by (simp_all add: in_int_def)
  have "recv 19999 [Data req] = (Got req, [])"
    using assms(2) len(1) by simp
  moreover have "c_string (req @ replicate (20000 - length req) NUL) = Inr (''GET /'' @ f @ SP # p)"
    using assms(2,3) len(1) by (simp add: c_string_def cstr_replicate)
  then have "checkAndSend fs al junk (req @ replicate (20000 - length req) NUL) =
      Inr (response_text 200 ''OK'' None (int (length b)) (contentType f), b)"
    using assms by (intro checkAndSend_file)
  ultimately have "checkAndSend_socket fs al junk \<lparr>rx = [Data req], tx = [], txo = []\<rparr> =
      Inr \<lparr>rx = [], tx = file_response f b, txo = []\<rparr>"
    using len(2,3) by (simp add: checkAndSend_socket_def sendResponse_socket_ok file_response_def)
  then show ?thesis
    by (simp add: served_def)
qed

lemma served_answers:
  assumes "serves fs junk f b" and "served fs al junk req = [Data (file_response f b)]"
  shows "answers (served fs al junk) req b"
  using assms file_wf [of f] by (auto simp: answers_def serves_def in_int_def file_response_def)

section \<open>Straight from the server\<close>

lemma direct_request:
  assumes "serves fs junk f b" and "proxy st = None" and "NUL \<notin> set (server st)" and "length (server st) < 9000"
  shows "client_request st (Some f) = Inr (''GET /'' @ f @ SP # ''HTTP/1.0'' @ EOL @ ''Host: '' @ server st @ EOL @ EOL)"
  using assms by (simp add: client_request_def serves_def EOL_def)

lemma direct_served:
  assumes "serves fs junk f b" and "proxy st = None" and "NUL \<notin> set (server st)" and "length (server st) < 9000"
  shows "\<exists>req. client_request st (Some f) = Inr req \<and> served fs al junk req = [Data (file_response f b)]"
proof -
  let ?p = "''HTTP/1.0'' @ EOL @ ''Host: '' @ server st @ EOL @ EOL"
  have "served fs al junk (''GET /'' @ f @ SP # ?p) = [Data (file_response f b)]"
    using assms by (intro served_file [OF assms(1) refl])
      (simp_all add: serves_def word_text_def field_text_def EOL_def isspace_def less_eq_char_def)
  then show ?thesis
    using direct_request [OF assms] by blast
qed

lemma direct_access:
  assumes "ample al" and "serves fs junk f b" and "proxy st = None" and "NUL \<notin> set (server st)"
    and "length (server st) < 9000" and "Tx_Error \<notin> set os"
  shows "client_access al st (Some f) (Peer os (served fs al junk)) = Inr (int (length b))"
proof -
  obtain req where req: "client_request st (Some f) = Inr req" "served fs al junk req = [Data (file_response f b)]"
    using direct_served [OF assms(2-5)] by blast
  show ?thesis
    using client_access_counts [OF assms(1) req(1) assms(6) client_request_short [OF req(1)]]
      served_answers [OF assms(2) req(2)] by blast
qed

text \<open>A name the server serves is a line of a list.\<close>

lemma serves_line: "serves fs junk f b \<Longrightarrow> name_line f"
  using take_1_notin [of SP f] by (auto simp: serves_def name_line_def word_text_def field_text_def)

lemma direct_thread:
  assumes "ample al" and "proxy st = None" and "NUL \<notin> set (server st)" and "length (server st) < 9000"
    and "files m (fileList st) = Some (concat (map (\<lambda>f. f @ [LF]) fs))" and "fs \<noteq> []"
    and "\<forall>f \<in> set fs. \<exists>b. serves sys junk f b \<and> int (length b) = len"
    and "\<forall>i k. \<exists>os. attempts m i k = Peer os (served sys al junk) \<and> Tx_Error \<notin> set os"
  shows "accessServer al m st me = Inr (int NUMACCESSES * len)"
proof -
  have "\<forall>f \<in> set fs. name_line f"
    using assms(7) serves_line by blast
  then have "load_names al (concat (map (\<lambda>f. f @ [LF]) fs)) [] = Inr (map Some fs)"
    using load_names_lines [OF assms(1), of fs "[]"] by simp
  moreover have "client_access al st (map Some fs ! n) (attempts m me j) = Inr len" if "n < length (map Some fs)" for n j
  proof -
    obtain os where os: "attempts m me j = Peer os (served sys al junk)" "Tx_Error \<notin> set os"
      using assms(8) by blast
    have "fs ! n \<in> set fs"
      using that by simp
    then obtain b where "serves sys junk (fs ! n) b" "int (length b) = len"
      using assms(7) by blast
    then show ?thesis
      using direct_access [OF assms(1) _ assms(2-4) os(2)] os(1) that by auto
  qed
  then have "access_loop al m st me (map Some fs) NUMACCESSES 0 1 0 = Inr (0 + (\<Sum>j = 0 ..< 0 + NUMACCESSES. len))"
    using assms(6) by (intro access_loop_counts [where count = "\<lambda>j. len"]) simp_all
  ultimately show ?thesis
    using assms(5) by (simp add: accessServer_def)
qed

section \<open>Through the proxy\<close>

lemma word_text_append: "word_text a \<Longrightarrow> word_text b \<Longrightarrow> word_text (a @ b)"
  by (simp add: word_text_def field_text_def)

lemma word_text_port: "0 \<le> i \<Longrightarrow> word_text (fmt_d i)"
  using fmt_d_plain fmt_d_no_dash fmt_d_notin [of SP i] by (simp add: word_text_def field_text_def isdigit_not)

lemma host_port_word: "word_text h \<Longrightarrow> good_host h i \<Longrightarrow> word_text (host_port h i)"
  using word_text_port [of i] by (simp add: host_port_def good_host_def word_text_def field_text_def)

text \<open>What a client that uses a proxy can ask for.\<close>

definition asks :: "setting \<Rightarrow> string \<Rightarrow> string \<Rightarrow> bool" where
  "asks st h f \<longleftrightarrow> proxy st \<noteq> None \<and> server st = ''http://'' @ h \<and> word_text h \<and> good_host h (port st) \<and>
     length h + length f < 80"

definition proxy_text :: "setting \<Rightarrow> string \<Rightarrow> string \<Rightarrow> string" where
  "proxy_text st h f = request_text ''GET'' (''http://'' @ host_port h (port st) @ CHR ''/'' # f) (host_port h (port st))"

lemma proxy_request:
  assumes "serves fs junk f b" and "asks st h f"
  shows "client_request st (Some f) = Inr (proxy_text st h f)"
proof -
  have "take 1 f \<noteq> ''/''"
    using assms(1) by (simp add: serves_def forbidden_def)
  moreover have "length (fmt_d (port st)) \<le> 5"
    using assms(2) port_length by (auto simp: asks_def)
  ultimately show ?thesis
    using assms by (auto simp: client_request_def serves_def asks_def proxy_text_def request_text_eq host_port_def EOL_def)
qed

lemma proxy_text_parts:
  assumes "serves fs junk f b" and "asks st h f"
  shows "word_text (host_port h (port st))" and "word_text (CHR ''/'' # f)"
    and "word_text (''http://'' @ host_port h (port st) @ CHR ''/'' # f)"
    and "length (''http://'' @ host_port h (port st) @ CHR ''/'' # f) < 95"
    and "in_int (int (length (proxy_text st h f)))"
proof -
  show host: "word_text (host_port h (port st))"
    using assms(2) host_port_word by (simp add: asks_def)
  show name: "word_text (CHR ''/'' # f)"
    using assms(1) by (simp add: serves_def word_text_def field_text_def)
  show "word_text (''http://'' @ host_port h (port st) @ CHR ''/'' # f)"
    by (intro word_text_append host name) (simp add: word_text_def field_text_def)
  have "length (fmt_d (port st)) \<le> 5"
    using assms(2) port_length by (auto simp: asks_def)
  then show "length (''http://'' @ host_port h (port st) @ CHR ''/'' # f) < 95"
    "in_int (int (length (proxy_text st h f)))"
    using assms(2) by (simp_all add: asks_def host_port_def proxy_text_def request_text_eq EOL_def in_int_def)
qed

lemma proxy_text_proxied:
  assumes "serves fs junk f b" and "asks st h f"
  shows "proxied (proxy_text st h f) ''GET'' (host_port h (port st)) (origin_form (CHR ''/'' # f) (host_port h (port st)))"
  unfolding proxy_text_def
  by (intro proxied_request proxy_text_parts [OF assms]) (simp add: word_text_def field_text_def)

lemma proxy_text_received:
  assumes "serves fs junk f b" and "asks st h f" and "ample al"
  shows "\<exists>cs'. recvHeader al [Data (proxy_text st h f)] = Inr (Some (proxy_text st h f), int (length (proxy_text st h f)), 0, cs')"
proof -
  have "\<exists>cs'. recvHeader al [Data (proxy_text st h f)] =
      Inr (Some (proxy_text st h f), int (length (proxy_text st h f)), 0, cs') \<and> stream cs' = [] \<and> clean cs'"
    unfolding proxy_text_def
  proof (rule recvHeader_request [OF _ proxy_text_parts(3,1) [OF assms(1,2)] _ _ _ _ _ _ assms(3)])
    show "''http://'' @ host_port h (port st) @ CHR ''/'' # f =
        CHR ''h'' # (''ttp://'' @ host_port h (port st) @ CHR ''/'' # f)"
      by simp
  qed (use proxy_text_parts(4) [OF assms(1,2)]
      in \<open>simp_all add: word_text_def field_text_def isdigit_def isspace_def less_eq_char_def\<close>)
  then show ?thesis
    by blast
qed

text \<open>The request as the server sees it, and its answer.\<close>

definition server_text :: "setting \<Rightarrow> string \<Rightarrow> string \<Rightarrow> string" where
  "server_text st h f = ''GET'' @ SP # origin_form (CHR ''/'' # f) (host_port h (port st))"

lemma server_text_eq: "server_text st h f = ''GET /'' @ f @ SP # ''HTTP/1.0'' @ EOL @ ''Host: '' @ host_port h (port st) @ EOL @ EOL"
  by (simp add: server_text_def origin_form_def)

lemma server_text_fine:
  assumes "serves fs junk f b" and "asks st h f"
  shows "NUL \<notin> set (server_text st h f)" and "length (server_text st h f) < 300"
    and "length (''HTTP/1.0'' @ EOL @ ''Host: '' @ host_port h (port st) @ EOL @ EOL) < 10000"
  using proxy_text_parts(1,2,4) [OF assms]
  by (auto simp: server_text_eq word_text_def field_text_def EOL_def)

lemma server_text_served:
  assumes "serves fs junk f b" and "asks st h f"
  shows "served fs al junk (server_text st h f) = [Data (file_response f b)]"
  by (rule served_file [OF assms(1) server_text_eq server_text_fine(1) [OF assms] _ _ server_text_fine(3) [OF assms]])
    (simp_all add: isspace_def less_eq_char_def)

lemma file_responds:
  assumes "serves fs junk f b" and "asks st h f" and "replies net a = served fs al junk"
    and "Tx_Error \<notin> set (takes net a)"
  shows "responds net a (server_text st h f) (file_response f b)"
proof -
  have "int (length b) < 2000000000"
    using assms(1) by (simp add: serves_def)
  then have "in_int (int (length (file_response f b)))"
    using file_response_length [of b f] by (simp add: file_response_def in_int_def)
  moreover have "wf_response 200 ''OK'' None (contentType f) \<and>
      file_response f b = response_text 200 ''OK'' None (int (length b)) (contentType f) @ b"
    using file_wf by (simp add: file_response_def)
  ultimately show ?thesis
    using assms(3,4) server_text_served [OF assms(1,2)] unfolding responds_def by fastforce
qed

lemma relayed_file:
  assumes "ample al" and "serves fs junk f b" and "asks st h f" and "\<not> socket_fails g" and "up net (ip, port st)"
    and "replies net (ip, port st) = served fs al junk" and "Tx_Error \<notin> set (takes net (ip, port st))"
  shows "\<exists>r g'. relay_run al net compress (replicate 7 0)
      ([new_relay (ip, port st) (proxy_text st h f) \<lparr>rx = [], tx = [], txo = []\<rparr>], g) = Some (Inr ([r], g')) \<and>
    rpc r = R_Done \<and> tx (rclient r) = file_response f b"
proof -
  have "good_host h (port st)"
    using assms(3) by (simp add: asks_def)
  then show ?thesis
    using relay_alone [where compress = compress, OF assms(1) proxy_text_proxied [OF assms(2,3)] _ assms(4,5)
        _ proxy_text_parts(5) [OF assms(2,3)], of "\<lparr>rx = [], tx = [], txo = []\<rparr>" "file_response f b"]
      file_responds [OF assms(2,3,6,7)]
    by (auto simp: server_text_def)
qed

section \<open>Through shared memory\<close>

lemma shared_file:
  assumes "ample al" and "serves fs junk f b" and "asks st h f"
  shows "exchange al (checkAndSend fs al junk) (proxy_text st h f) (server_text st h f) (file_response f b)"
proof -
  let ?R = "server_text st h f"
  have len: "length ?R < 300"
    by (rule server_text_fine(2) [OF assms(2,3)])
  have "stripAbsURL al (proxy_text st h f) (length (proxy_text st h f)) = Inr (Some ?R, int (length ?R))"
    unfolding server_text_def
    by (rule proxied_parts(2) [OF proxy_text_proxied [OF assms(2,3)] _ assms(1)]) (use assms(3) in \<open>simp add: asks_def\<close>)
  moreover have "c_string (?R @ replicate (20000 - length ?R) NUL) =
      Inr (''GET /'' @ f @ SP # (''HTTP/1.0'' @ EOL @ ''Host: '' @ host_port h (port st) @ EOL @ EOL))"
    using len server_text_fine(1) [OF assms(2,3)] cstr_append [of ?R]
    by (simp add: c_string_def cstr_replicate) (simp add: server_text_eq)
  then have "checkAndSend fs al junk (?R @ replicate (20000 - length ?R) NUL) =
      Inr (response_text 200 ''OK'' None (int (length b)) (contentType f), b)"
    by (rule checkAndSend_file [OF assms(2)])
      (use server_text_fine(3) [OF assms(2,3)] in \<open>simp_all add: isspace_def less_eq_char_def\<close>)
  moreover have "b \<noteq> []"
    using assms(2) by (simp add: serves_def)
  ultimately show ?thesis
    using assms(1) len by (simp add: exchange_def file_response_def SEGMENTSIZE_def server_text_eq)
qed

section \<open>An example\<close>

text \<open>A file system of one file, the settings of a client with a proxy, and what they satisfy.\<close>

definition one_file :: filesystem where
  "one_file = \<lparr>fstat = \<lambda>n. if n = ''f'' then Some (False, 5) else None,
     readable = \<lambda>n. if n = ''f'' then Some ''bytes'' else None, listing = \<lambda>n. None\<rparr>"

definition no_junk :: "char \<times> char" where
  "no_junk = (NUL, NUL)"

definition proxying :: setting where
  "proxying = \<lparr>server = ''http://h'', port = 80, proxy = Some (''p'', 8080), numThreads = 3, fileList = ''l''\<rparr>"

lemma one_file_serves: "serves one_file no_junk ''f'' ''bytes''"
  by (simp add: serves_def one_file_def no_junk_def word_text_def field_text_def forbidden_def bytes_before_def strstr_def)

lemma proxying_asks: "asks proxying ''h'' ''f''"
  by (simp add: asks_def proxying_def word_text_def field_text_def good_host_def)

lemma one_file_ok: "fs_ok one_file"
  by (simp add: fs_ok_def one_file_def)

end
