(* ===== verification/ConList.thy ===== *)
theory ConList
  imports Prelude
begin

text \<open>
  The connection list of src/headers/conList.h and conList.c: singly linked nodes on a heap,
  with a head and a tail pointer. The heap is explicit, so that aliasing, dangling pointers and
  failed allocations are part of the model. The interface that the server and the proxy use
  (\<open>isEmpty\<close>, \<open>addTail\<close>, \<open>removeHead\<close>) is the locale \<open>fifo\<close>; the list is shown to provide it, and to
  run as the queue \<open>queue_run\<close> does.
\<close>

section \<open>The list and its heap\<close>

datatype instruction = PROCESS | SHARED | TERMINATE

type_synonym ptr = nat

record connection =
  conn :: int
  action :: instruction
  nxt :: "ptr option"

record conlist =
  head :: "ptr option"
  tail :: "ptr option"
  numNodes :: int

text \<open>
  \<open>brk\<close> is the next fresh address. \<open>grants\<close> are the allocator's answers to come; past its end
  every request is granted.
\<close>

record cheap =
  cells :: "ptr \<Rightarrow> connection option"
  brk :: nat
  grants :: "bool list"

definition deref :: "cheap \<Rightarrow> ptr option \<Rightarrow> connection result" where
  "deref h p = (case p of
     None \<Rightarrow> Inl Null_Deref
   | Some a \<Rightarrow> (case cells h a of None \<Rightarrow> Inl Use_After_Free | Some c \<Rightarrow> Inr c))"

definition store :: "cheap \<Rightarrow> ptr option \<Rightarrow> connection \<Rightarrow> cheap result" where
  "store h p c = (case p of
     None \<Rightarrow> Inl Null_Deref
   | Some a \<Rightarrow> (case cells h a of None \<Rightarrow> Inl Use_After_Free
                | Some _ \<Rightarrow> Inr (h\<lparr>cells := (cells h)(a \<mapsto> c)\<rparr>)))"

text \<open>\<open>free\<close>: a null pointer is ignored, a dangling one is a fault.\<close>

definition release :: "cheap \<Rightarrow> ptr option \<Rightarrow> cheap result" where
  "release h p = (case p of
     None \<Rightarrow> Inr h
   | Some a \<Rightarrow> (case cells h a of None \<Rightarrow> Inl Use_After_Free
                | Some _ \<Rightarrow> Inr (h\<lparr>cells := (cells h)(a := None)\<rparr>)))"

definition granted :: "cheap \<Rightarrow> bool" where
  "granted h = (case grants h of [] \<Rightarrow> True | g # gs \<Rightarrow> g)"

definition asked :: "cheap \<Rightarrow> cheap" where
  "asked h = h\<lparr>grants := tl (grants h)\<rparr>"

section \<open>The operations\<close>

definition newConList :: "cheap \<Rightarrow> conlist option \<times> cheap" where
  "newConList h =
     (if granted h then Some \<lparr>head = None, tail = None, numNodes = 0\<rparr> else None, asked h)"

definition newConnection :: "int \<Rightarrow> instruction \<Rightarrow> cheap \<Rightarrow> ptr option \<times> cheap" where
  "newConnection conID a h =
     (if granted h then
        (Some (brk h),
         (asked h)\<lparr>cells := (cells h)(brk h \<mapsto> \<lparr>conn = conID, action = a, nxt = None\<rparr>),
                   brk := Suc (brk h)\<rparr>)
      else (None, asked h))"

definition isEmpty :: "conlist \<Rightarrow> bool" where
  "isEmpty l = (head l = None)"

definition addHead :: "int \<Rightarrow> instruction \<Rightarrow> conlist \<Rightarrow> cheap \<Rightarrow> (conlist \<times> cheap) result" where
  "addHead conID a l h =
     (case newConnection conID a h of
        (None, h1) \<Rightarrow> Inr (l, h1)
      | (Some p, h1) \<Rightarrow>
          bindR (deref h1 (Some p)) (\<lambda>c.
          bindR (store h1 (Some p) (c\<lparr>nxt := head l\<rparr>)) (\<lambda>h2.
            let l1 = l\<lparr>head := Some p\<rparr>;
                l2 = (if tail l1 = None then l1\<lparr>tail := head l1\<rparr> else l1)
            in Inr (l2\<lparr>numNodes := c_int (numNodes l2 + 1)\<rparr>, h2))))"

definition addTail :: "int \<Rightarrow> instruction \<Rightarrow> conlist \<Rightarrow> cheap \<Rightarrow> (conlist \<times> cheap) result" where
  "addTail conID a l h =
     (case newConnection conID a h of
        (None, h1) \<Rightarrow> Inr (l, h1)
      | (Some p, h1) \<Rightarrow>
          bindR (if head l = None then Inr (l\<lparr>head := Some p\<rparr>, h1)
                 else bindR (deref h1 (tail l)) (\<lambda>c.
                      bindR (store h1 (tail l) (c\<lparr>nxt := Some p\<rparr>)) (\<lambda>h2. Inr (l, h2))))
            (\<lambda>(l1, h2). Inr (l1\<lparr>tail := Some p, numNodes := c_int (numNodes l1 + 1)\<rparr>, h2)))"

definition removeHead :: "conlist \<Rightarrow> cheap \<Rightarrow> (ptr option \<times> conlist) result" where
  "removeHead l h =
     (if head l = None then Inr (None, l)
      else if head l = tail l then Inr (head l, l\<lparr>head := None, tail := None\<rparr>)
      else bindR (deref h (head l)) (\<lambda>c. Inr (head l, l\<lparr>head := nxt c\<rparr>)))"

text \<open>
  The walks. Only \<open>brk h\<close> addresses were ever handed out, so a walk that outlasts them has come
  back to a node it has seen and, the heap being unchanged, never ends.
\<close>

primrec findCon_loop :: "nat \<Rightarrow> int \<Rightarrow> cheap \<Rightarrow> ptr option \<Rightarrow> ptr option result" where
  "findCon_loop 0 conID h node = Inl Diverge"
| "findCon_loop (Suc f) conID h node =
     (if node = None then Inr None
      else bindR (deref h node) (\<lambda>c.
        if conn c = conID then Inr node else findCon_loop f conID h (nxt c)))"

definition findCon :: "int \<Rightarrow> conlist \<Rightarrow> cheap \<Rightarrow> ptr option result" where
  "findCon conID l h = findCon_loop (Suc (brk h)) conID h (head l)"

text \<open>\<open>list->head\<close> is never assigned: when the node found is the first, it is left dangling.\<close>

primrec destroyCon_loop ::
  "nat \<Rightarrow> int \<Rightarrow> conlist \<Rightarrow> cheap \<Rightarrow> ptr option \<Rightarrow> ptr option \<Rightarrow> (conlist \<times> cheap) result" where
  "destroyCon_loop 0 conID l h node prev = Inl Diverge"
| "destroyCon_loop (Suc f) conID l h node prev =
     (if node = None then Inr (l, h)
      else bindR (deref h node) (\<lambda>c.
        if conn c = conID then
          bindR (if prev = None then Inr h
                 else bindR (deref h prev) (\<lambda>pc. store h prev (pc\<lparr>nxt := nxt c\<rparr>))) (\<lambda>h1.
            let l1 = (if node = tail l then l\<lparr>tail := prev\<rparr> else l)
            in bindR (release h1 node) (\<lambda>h2. Inr (l1\<lparr>numNodes := c_int (numNodes l1 - 1)\<rparr>, h2)))
        else destroyCon_loop f conID l h (nxt c) node))"

definition destroyCon :: "int \<Rightarrow> conlist \<Rightarrow> cheap \<Rightarrow> (conlist \<times> cheap) result" where
  "destroyCon conID l h = destroyCon_loop (Suc (brk h)) conID l h (head l) None"

primrec destroyAll_loop :: "nat \<Rightarrow> cheap \<Rightarrow> ptr option \<Rightarrow> cheap result" where
  "destroyAll_loop 0 h node = Inl Diverge"
| "destroyAll_loop (Suc f) h node =
     (if node = None then Inr h
      else bindR (deref h node) (\<lambda>c.
        bindR (release h node) (\<lambda>h1. destroyAll_loop f h1 (nxt c))))"

definition destroyAll :: "conlist \<Rightarrow> cheap \<Rightarrow> cheap result" where
  "destroyAll l h = destroyAll_loop (Suc (brk h)) h (head l)"

text \<open>The lines that \<open>printList\<close> prints, as numbers.\<close>

primrec printList_loop :: "nat \<Rightarrow> cheap \<Rightarrow> ptr option \<Rightarrow> int list result" where
  "printList_loop 0 h node = Inl Diverge"
| "printList_loop (Suc f) h node =
     (if node = None then Inr []
      else bindR (deref h node) (\<lambda>c.
        bindR (printList_loop f h (nxt c)) (\<lambda>ns. Inr (conn c # ns))))"

definition printList :: "conlist \<Rightarrow> cheap \<Rightarrow> int list result" where
  "printList l h = printList_loop (Suc (brk h)) h (head l)"

text \<open>
  What the threads of both servers do with a list they found non-empty: take the first node,
  read it and free it. The threads free it only after they have used its connection; nobody else has
  a pointer to it by then.
\<close>

definition takeCon :: "conlist \<Rightarrow> cheap \<Rightarrow> ((int \<times> instruction) \<times> conlist \<times> cheap) result" where
  "takeCon l h =
     bindR (removeHead l h) (\<lambda>(c, l1).
     bindR (deref h c) (\<lambda>n.
     bindR (release h c) (\<lambda>h1. Inr ((conn n, action n), l1, h1))))"


section \<open>Well-formed lists\<close>

text \<open>The nodes from one pointer to another.\<close>

primrec seg :: "(ptr \<Rightarrow> connection option) \<Rightarrow> ptr option \<Rightarrow> ptr list \<Rightarrow> ptr option \<Rightarrow> bool" where
  "seg m p [] q = (p = q)"
| "seg m p (a # ps) q =
     (p = Some a \<and> (case m a of None \<Rightarrow> False | Some n \<Rightarrow> seg m (nxt n) ps q))"

primrec walk :: "nat \<Rightarrow> (ptr \<Rightarrow> connection option) \<Rightarrow> ptr option \<Rightarrow> ptr list option" where
  "walk 0 m p = None"
| "walk (Suc f) m p = (case p of
     None \<Rightarrow> Some []
   | Some a \<Rightarrow> (case m a of
       None \<Rightarrow> None
     | Some n \<Rightarrow> map_option (\<lambda>ps. a # ps) (walk f m (nxt n))))"

definition vals :: "(ptr \<Rightarrow> connection option) \<Rightarrow> ptr list \<Rightarrow> (int \<times> instruction) list" where
  "vals m ps = map (\<lambda>a. (conn (the (m a)), action (the (m a)))) ps"

text \<open>
  A well-formed list: the walk from the head ends, meets no node twice and only addresses that
  were handed out, and the tail points to its last node. Its items are the nodes' data.
\<close>

definition linked :: "conlist \<Rightarrow> cheap \<Rightarrow> bool" where
  "linked l h = (case walk (Suc (brk h)) (cells h) (head l) of
     None \<Rightarrow> False
   | Some ps \<Rightarrow> distinct ps \<and> list_all (\<lambda>a. a < brk h) ps \<and>
       tail l = (if ps = [] then None else Some (last ps)))"

definition items :: "conlist \<Rightarrow> cheap \<Rightarrow> (int \<times> instruction) list" where
  "items l h = (case walk (Suc (brk h)) (cells h) (head l) of
     None \<Rightarrow> []
   | Some ps \<Rightarrow> vals (cells h) ps)"

definition rep :: "conlist \<Rightarrow> cheap \<Rightarrow> ptr list \<Rightarrow> bool" where
  "rep l h ps \<longleftrightarrow> seg (cells h) (head l) ps None \<and> distinct ps \<and> (\<forall>a \<in> set ps. a < brk h) \<and>
     tail l = (if ps = [] then None else Some (last ps))"

lemma walk_seg: "walk f m p = Some ps \<longleftrightarrow> seg m p ps None \<and> length ps < f"
proof (induction f arbitrary: p ps)
  case (Suc f)
  show ?case
    by (cases ps) (auto simp: Suc.IH split: option.splits)
qed simp

declare walk.simps [simp del]

lemma rep_length: "rep l h ps \<Longrightarrow> length ps \<le> brk h"
proof -
  assume r: "rep l h ps"
  then have "set ps \<subseteq> {..< brk h}"
    by (auto simp: rep_def)
  then have "card (set ps) \<le> brk h"
    using card_mono [of "{..< brk h}" "set ps"] by simp
  with r show ?thesis
    by (simp add: rep_def distinct_card)
qed

lemma rep_walk: "rep l h ps \<Longrightarrow> walk (Suc (brk h)) (cells h) (head l) = Some ps"
  by (frule rep_length) (simp add: walk_seg rep_def)

lemma linked_rep: "linked l h \<longleftrightarrow> (\<exists>ps. rep l h ps)"
proof
  assume "linked l h"
  then obtain ps where "walk (Suc (brk h)) (cells h) (head l) = Some ps" "distinct ps"
    "list_all (\<lambda>a. a < brk h) ps" "tail l = (if ps = [] then None else Some (last ps))"
    by (auto simp: linked_def split: option.splits)
  then show "\<exists>ps. rep l h ps"
    by (auto simp: rep_def walk_seg list_all_iff intro!: exI [of _ ps])
next
  assume "\<exists>ps. rep l h ps"
  then obtain ps where r: "rep l h ps" ..
  show "linked l h"
    using r unfolding linked_def rep_walk [OF r] by (simp add: rep_def list_all_iff)
qed

lemma items_rep: "rep l h ps \<Longrightarrow> items l h = vals (cells h) ps"
  by (simp only: items_def rep_walk option.case)

lemma linkedE:
  assumes "linked l h"
  obtains ps where "rep l h ps" and "items l h = vals (cells h) ps"
  using assms items_rep by (auto simp: linked_rep)

named_theorems heap_simps "reading and writing the nodes of a list"

lemma seg_append [heap_simps]: "seg m p (xs @ ys) q \<longleftrightarrow> (\<exists>r. seg m p xs r \<and> seg m r ys q)"
  by (induction xs arbitrary: p) (auto split: option.splits)

lemma seg_upd [heap_simps]: "a \<notin> set ps \<Longrightarrow> seg (m(a := x)) p ps q \<longleftrightarrow> seg m p ps q"
  by (induction ps arbitrary: p) (auto split: option.splits)

lemma vals_upd [heap_simps]: "a \<notin> set ps \<Longrightarrow> vals (m(a := x)) ps = vals m ps"
  by (auto simp: vals_def)

lemma vals_simps [heap_simps]:
  "vals m [] = []"
  "vals m (a # ps) = (conn (the (m a)), action (the (m a))) # vals m ps"
  "vals m (xs @ ys) = vals m xs @ vals m ys"
  by (simp_all add: vals_def)

lemma seg_NoneD: "seg m None ps q \<Longrightarrow> ps = []"
  by (cases ps) auto

lemma deref_simps [heap_simps]:
  "deref h None = Inl Null_Deref"
  "deref h (Some a) = (case cells h a of None \<Rightarrow> Inl Use_After_Free | Some c \<Rightarrow> Inr c)"
  by (simp_all add: deref_def)

lemma store_simps [heap_simps]:
  "store h (Some a) c = (case cells h a of None \<Rightarrow> Inl Use_After_Free
     | Some _ \<Rightarrow> Inr (h\<lparr>cells := (cells h)(a \<mapsto> c)\<rparr>))"
  by (simp add: store_def)

lemma release_simps [heap_simps]:
  "release h (Some a) = (case cells h a of None \<Rightarrow> Inl Use_After_Free
     | Some _ \<Rightarrow> Inr (h\<lparr>cells := (cells h)(a := None)\<rparr>))"
  by (simp add: release_def)

section \<open>What each operation does to a well-formed list\<close>

lemma newConList_linked: "newConList h = (Some l, h') \<Longrightarrow> linked l h' \<and> items l h' = []"
  by (auto simp: newConList_def linked_def items_def vals_def walk.simps split: if_splits)

lemma addTail_rep:
  assumes "rep l h ps" and "granted h"
  shows "\<exists>l' h'. addTail c a l h = Inr (l', h') \<and> rep l' h' (ps @ [brk h]) \<and>
     vals (cells h') (ps @ [brk h]) = vals (cells h) ps @ [(c, a)] \<and>
     grants h' = tl (grants h) \<and> numNodes l' = c_int (numNodes l + 1)"
proof (cases ps rule: rev_cases)
  case Nil
  then show ?thesis
    using assms by (simp add: addTail_def newConnection_def rep_def asked_def heap_simps)
next
  case (snoc qs t)
  have fresh: "brk h \<notin> set ps"
    using assms(1) by (auto simp: rep_def)
  obtain n where n: "cells h t = Some n" "nxt n = None"
    and front: "seg (cells h) (head l) qs (Some t)"
    using assms(1) unfolding snoc rep_def seg_append by (auto split: option.splits)
  define h' where "h' = (asked h)\<lparr>cells := (cells h)(brk h \<mapsto> \<lparr>conn = c, action = a, nxt = None\<rparr>,
      t \<mapsto> n\<lparr>nxt := Some (brk h)\<rparr>), brk := Suc (brk h)\<rparr>"
  have t: "tail l = Some t" "t \<noteq> brk h" "t \<notin> set qs" "brk h \<notin> set qs"
    using assms(1) snoc fresh by (auto simp: rep_def)
  obtain y where h: "head l = Some y"
    using front by (cases qs) auto
  have "addTail c a l h = Inr (l\<lparr>tail := Some (brk h), numNodes := c_int (numNodes l + 1)\<rparr>, h')"
    using assms(2) n t h by (simp add: addTail_def newConnection_def heap_simps asked_def h'_def)
  moreover have "seg (cells h') (head l) (ps @ [brk h]) None"
    using n front t unfolding snoc by (simp add: h'_def asked_def heap_simps exI [of _ "Some t"])
  then have "rep (l\<lparr>tail := Some (brk h), numNodes := c_int (numNodes l + 1)\<rparr>) h' (ps @ [brk h])"
    using assms(1) fresh by (auto simp: rep_def h'_def less_SucI)
  moreover have "vals (cells h') (ps @ [brk h]) = vals (cells h) ps @ [(c, a)]"
    using snoc n t by (simp add: h'_def asked_def heap_simps)
  moreover have "grants h' = tl (grants h)"
    by (simp add: h'_def asked_def)
  ultimately show ?thesis
    by auto
qed

lemma addTail_refused:
  "\<not> granted h \<Longrightarrow> addTail c a l h = Inr (l, asked h)"
  by (simp add: addTail_def newConnection_def)

lemma addHead_rep:
  assumes "rep l h ps" and "granted h"
  shows "\<exists>l' h'. addHead c a l h = Inr (l', h') \<and> rep l' h' (brk h # ps) \<and>
     vals (cells h') (brk h # ps) = (c, a) # vals (cells h) ps \<and>
     grants h' = tl (grants h) \<and> numNodes l' = c_int (numNodes l + 1)"
proof -
  have "brk h \<notin> set ps"
    using assms(1) by (auto simp: rep_def)
  then show ?thesis
    using assms
    by (auto simp: addHead_def newConnection_def rep_def asked_def heap_simps Let_def intro: less_SucI)
qed

lemma removeHead_rep:
  assumes "rep l h (a # ps)"
  shows "\<exists>l'. removeHead l h = Inr (Some a, l') \<and> rep l' h ps \<and> numNodes l' = numNodes l"
proof (cases "ps = []")
  case True
  then show ?thesis
    using assms by (auto simp: removeHead_def rep_def)
next
  case False
  then have "head l \<noteq> tail l"
    using assms last_in_set [of ps] by (auto simp: rep_def)
  then show ?thesis
    using assms False by (auto simp: removeHead_def rep_def heap_simps split: option.splits)
qed

lemma takeCon_rep:
  assumes "rep l h (a # ps)"
  shows "\<exists>l' h'. takeCon l h = Inr ((conn (the (cells h a)), action (the (cells h a))), l', h') \<and>
     rep l' h' ps \<and> vals (cells h') ps = vals (cells h) ps \<and> grants h' = grants h \<and>
     cells h' a = None"
proof -
  obtain l' where r: "removeHead l h = Inr (Some a, l')" "rep l' h ps"
    using removeHead_rep [OF assms] by blast
  moreover obtain n where "cells h a = Some n" "a \<notin> set ps"
    using assms by (auto simp: rep_def split: option.splits)
  ultimately show ?thesis
    by (auto simp: takeCon_def heap_simps rep_def)
qed


lemma findCon_loop_seg:
  assumes "seg (cells h) p ps None" and "length ps < f"
  shows "findCon_loop f c h p =
     Inr (List.find (\<lambda>a. conn (the (cells h a)) = c) ps)"
  using assms
proof (induction ps arbitrary: p f)
  case Nil
  then show ?case
    by (cases f) auto
next
  case (Cons a ps)
  then show ?case
    by (cases f) (auto simp: heap_simps split: option.splits)
qed

lemma findCon_rep:
  "rep l h ps \<Longrightarrow> findCon c l h = Inr (List.find (\<lambda>a. conn (the (cells h a)) = c) ps)"
  unfolding findCon_def by (frule rep_length) (simp only: findCon_loop_seg rep_def less_Suc_eq_le)

lemma printList_loop_seg:
  "seg (cells h) p ps None \<Longrightarrow> length ps < f \<Longrightarrow>
     printList_loop f h p = Inr (map fst (vals (cells h) ps))"
proof (induction ps arbitrary: p f)
  case Nil
  then show ?case
    by (cases f) (auto simp: heap_simps)
next
  case (Cons a ps)
  then show ?case
    by (cases f) (auto simp: heap_simps split: option.splits)
qed

lemma printList_rep: "rep l h ps \<Longrightarrow> printList l h = Inr (map fst (vals (cells h) ps))"
  unfolding printList_def by (frule rep_length) (simp only: printList_loop_seg rep_def less_Suc_eq_le)

text \<open>\<open>destroyAll\<close> frees exactly the nodes of the list.\<close>

lemma destroyAll_loop_seg:
  "seg (cells h) p ps None \<Longrightarrow> distinct ps \<Longrightarrow> length ps < f \<Longrightarrow>
     destroyAll_loop f h p = Inr (h\<lparr>cells := \<lambda>a. if a \<in> set ps then None else cells h a\<rparr>)"
proof (induction ps arbitrary: p f h)
  case Nil
  then show ?case
    by (cases f) (auto simp: heap_simps)
next
  case (Cons a ps)
  obtain n where n: "cells h a = Some n" "p = Some a" "seg (cells h) (nxt n) ps None"
    using Cons.prems(1) by (auto split: option.splits)
  obtain g where g: "f = Suc g" "length ps < g"
    using Cons.prems(3) by (cases f) auto
  let ?h = "h\<lparr>cells := (cells h)(a := None)\<rparr>"
  have "destroyAll_loop g ?h (nxt n) =
      Inr (?h\<lparr>cells := \<lambda>b. if b \<in> set ps then None else cells ?h b\<rparr>)"
  proof (rule Cons.IH [where h = ?h])
    have "a \<notin> set ps"
      using Cons.prems(2) by simp
    then show "seg (cells ?h) (nxt n) ps None"
      using n(3) by (simp add: seg_upd)
  qed (use Cons.prems(2) g in auto)
  moreover have "(\<lambda>b. if b \<in> set ps then None else cells ?h b) =
      (\<lambda>b. if b \<in> set (a # ps) then None else cells h b)"
    by auto
  ultimately show ?case
    using n g by (simp add: heap_simps)
qed

lemma destroyAll_rep:
  "rep l h ps \<Longrightarrow>
     destroyAll l h = Inr (h\<lparr>cells := \<lambda>a. if a \<in> set ps then None else cells h a\<rparr>)"
  unfolding destroyAll_def
  by (frule rep_length) (simp only: destroyAll_loop_seg rep_def less_Suc_eq_le)

text \<open>
  \<open>destroyCon\<close> past the first node unlinks the node it finds; the first node is freed and stays
  the head.
\<close>

lemma destroyCon_head:
  assumes "rep l h (a # ps)" and "conn (the (cells h a)) = c"
  shows "\<exists>l' h'. destroyCon c l h = Inr (l', h') \<and> head l' = Some a \<and> cells h' a = None"
  using assms by (auto simp: destroyCon_def rep_def heap_simps Let_def split: option.splits)

lemma destroyCon_loop_seg:
  assumes "seg (cells h) (head l) (pre @ [b]) node" and "seg (cells h) node post None"
    and "distinct (pre @ b # post)" and "\<forall>a \<in> set (pre @ [b]). conn (the (cells h a)) \<noteq> c"
    and "\<forall>a \<in> set (pre @ b # post). a < brk h" and "tail l = Some (last (b # post))"
    and "length post < f"
  shows "\<exists>l' h' post'. destroyCon_loop f c l h node (Some b) = Inr (l', h') \<and>
     rep l' h' (pre @ b # post') \<and>
     vals (cells h') (pre @ b # post') =
       vals (cells h) (pre @ [b]) @
       (case List.find (\<lambda>a. conn (the (cells h a)) = c) post of
          None \<Rightarrow> vals (cells h) post
        | Some d \<Rightarrow> vals (cells h) (remove1 d post))"
  using assms
proof (induction post arbitrary: f pre b node)
  case Nil
  then have "destroyCon_loop f c l h node (Some b) = Inr (l, h)"
    by (cases f) auto
  moreover have "rep l h (pre @ [b])"
    using Nil.prems by (auto simp: rep_def)
  ultimately show ?case
    by (auto simp: heap_simps intro!: exI [of _ l] exI [of _ h] exI [of _ "[]"])
next
  case (Cons d post)
  obtain n where n: "cells h d = Some n" "node = Some d" "seg (cells h) (nxt n) post None"
    using Cons.prems(2) by (auto split: option.splits)
  obtain g where g: "f = Suc g" "length post < g"
    using Cons.prems(7) by (cases f) auto
  obtain m where m: "cells h b = Some m" "nxt m = Some d" "seg (cells h) (head l) pre (Some b)"
    using Cons.prems(1) n(2) by (auto simp: heap_simps split: option.splits)
  show ?case
  proof (cases "conn n = c")
    case False
    have dp: "distinct ((pre @ [b]) @ d # post)"
      using Cons.prems(3) by simp
    have "\<exists>l' h' post'. destroyCon_loop g c l h (nxt n) (Some d) = Inr (l', h') \<and>
       rep l' h' ((pre @ [b]) @ d # post') \<and>
       vals (cells h') ((pre @ [b]) @ d # post') =
         vals (cells h) ((pre @ [b]) @ [d]) @
         (case List.find (\<lambda>a. conn (the (cells h a)) = c) post of
            None \<Rightarrow> vals (cells h) post
          | Some e \<Rightarrow> vals (cells h) (remove1 e post))"
    proof (rule Cons.IH [OF _ n(3) dp])
      show "seg (cells h) (head l) ((pre @ [b]) @ [d]) (nxt n)"
        using m n by (auto simp: heap_simps)
    qed (use Cons.prems(4,5,6) n False g in auto)
    then obtain l' h' post' where IH: "destroyCon_loop g c l h (nxt n) (Some d) = Inr (l', h')"
      "rep l' h' ((pre @ [b]) @ d # post')"
      "vals (cells h') ((pre @ [b]) @ d # post') =
         vals (cells h) ((pre @ [b]) @ [d]) @
         (case List.find (\<lambda>a. conn (the (cells h a)) = c) post of
            None \<Rightarrow> vals (cells h) post
          | Some e \<Rightarrow> vals (cells h) (remove1 e post))"
      by blast
    have found: "e \<noteq> d" if "List.find (\<lambda>a. conn (the (cells h a)) = c) post = Some e" for e
      using that Cons.prems(3) by (auto simp: find_Some_iff)
    have "destroyCon_loop f c l h node (Some b) = Inr (l', h')"
      using IH(1) n g False by (simp add: heap_simps)
    moreover have "vals (cells h') (pre @ b # d # post') =
        vals (cells h) (pre @ [b]) @
        (case List.find (\<lambda>a. conn (the (cells h a)) = c) (d # post) of
           None \<Rightarrow> vals (cells h) (d # post)
         | Some e \<Rightarrow> vals (cells h) (remove1 e (d # post)))"
      using IH(3) n False found by (auto simp: heap_simps split: option.splits)
    ultimately show ?thesis
      using IH(2) by (intro exI [of _ l'] exI [of _ h'] exI [of _ "d # post'"]) simp
  next
    case True
    define h' where "h' = h\<lparr>cells := (cells h)(b \<mapsto> m\<lparr>nxt := nxt n\<rparr>, d := None)\<rparr>"
    define l' where "l' = (if node = tail l then l\<lparr>tail := Some b\<rparr> else l)
        \<lparr>numNodes := c_int (numNodes l - 1)\<rparr>"
    have ne: "b \<noteq> d" "d \<notin> set post" "b \<notin> set post" "d \<notin> set pre" "b \<notin> set pre"
      using Cons.prems(3) by auto
    have run: "destroyCon_loop f c l h node (Some b) = Inr (l', h')"
      using n m g True ne by (simp add: heap_simps l'_def h'_def Let_def)
    have "seg (cells h') (head l') (pre @ b # post) None"
      using m n ne by (auto simp: heap_simps h'_def l'_def)
    moreover have "tail l = node \<longleftrightarrow> post = []"
      using Cons.prems(6) n ne last_in_set [of post] by auto
    then have "tail l' = Some (last (b # post))"
      using Cons.prems(6) by (auto simp: l'_def)
    ultimately have "rep l' h' (pre @ b # post)"
      using Cons.prems(3,5) by (auto simp: rep_def h'_def)
    moreover have "vals (cells h') (pre @ b # post) =
        vals (cells h) (pre @ [b]) @ vals (cells h) post"
      using m ne by (simp add: h'_def heap_simps)
    ultimately show ?thesis
      using run n True by (intro exI [of _ l'] exI [of _ h'] exI [of _ post]) (simp add: heap_simps)
  qed
qed


lemma destroyCon_rep:
  assumes "rep l h (a # ps)" and "conn (the (cells h a)) \<noteq> c"
  shows "\<exists>l' h'. destroyCon c l h = Inr (l', h') \<and> linked l' h' \<and>
     items l' h' = (case List.find (\<lambda>d. conn (the (cells h d)) = c) ps of
       None \<Rightarrow> vals (cells h) (a # ps)
     | Some d \<Rightarrow> vals (cells h) (a # remove1 d ps))"
proof -
  obtain n where n: "cells h a = Some n" "head l = Some a" "seg (cells h) (nxt n) ps None"
    using assms(1) by (auto simp: rep_def split: option.splits)
  have len: "length ps < brk h"
    using rep_length [OF assms(1)] by simp
  have "\<exists>l' h' post'. destroyCon_loop (brk h) c l h (nxt n) (Some a) = Inr (l', h') \<and>
     rep l' h' ([] @ a # post') \<and>
     vals (cells h') ([] @ a # post') =
       vals (cells h) ([] @ [a]) @
       (case List.find (\<lambda>d. conn (the (cells h d)) = c) ps of
          None \<Rightarrow> vals (cells h) ps
        | Some d \<Rightarrow> vals (cells h) (remove1 d ps))"
    by (rule destroyCon_loop_seg) (use assms n len in \<open>auto simp: rep_def\<close>)
  then obtain l' h' post' where r: "destroyCon_loop (brk h) c l h (nxt n) (Some a) = Inr (l', h')"
    "rep l' h' (a # post')"
    "vals (cells h') (a # post') = vals (cells h) [a] @
       (case List.find (\<lambda>d. conn (the (cells h d)) = c) ps of
          None \<Rightarrow> vals (cells h) ps
        | Some d \<Rightarrow> vals (cells h) (remove1 d ps))"
    by auto
  have "destroyCon c l h = Inr (l', h')"
    using r(1) n assms(2) by (simp add: destroyCon_def heap_simps)
  moreover have "linked l' h'"
    using r(2) by (auto simp: linked_rep)
  moreover have "items l' h' = (case List.find (\<lambda>d. conn (the (cells h d)) = c) ps of
       None \<Rightarrow> vals (cells h) (a # ps)
     | Some d \<Rightarrow> vals (cells h) (a # remove1 d ps))"
    unfolding items_rep [OF r(2)] r(3) by (simp add: vals_simps split: option.splits)
  ultimately show ?thesis
    by blast
qed

section \<open>The queue the servers rely on\<close>

text \<open>
  A user of a queue puts and takes, and takes only from a queue that is not empty; a run of such calls
  gives the values taken, in order. A put may be refused by the allocator, silently.
\<close>

datatype 'a call = Put 'a | Take

fun runq :: "('a \<Rightarrow> 's \<Rightarrow> 's result) \<Rightarrow> ('s \<Rightarrow> bool) \<Rightarrow> ('s \<Rightarrow> ('a \<times> 's) result) \<Rightarrow>
  'a call list \<Rightarrow> 's \<Rightarrow> ('a list \<times> 's) result" where
  "runq put vacant get [] s = Inr ([], s)"
| "runq put vacant get (Put x # cs) s = bindR (put x s) (runq put vacant get cs)"
| "runq put vacant get (Take # cs) s =
     (if vacant s then runq put vacant get cs s
      else bindR (get s) (\<lambda>(x, s1).
        bindR (runq put vacant get cs s1) (\<lambda>(xs, s2). Inr (x # xs, s2))))"

fun offered :: "'a call list \<Rightarrow> 'a list" where
  "offered [] = []"
| "offered (Put x # cs) = x # offered cs"
| "offered (Take # cs) = offered cs"

text \<open>
  The queue itself, with the allocator's answers to come: every put asks once, and past the end of the
  answers every put is granted.
\<close>

definition answer_first :: "bool list \<Rightarrow> bool" where
  "answer_first gs = (case gs of [] \<Rightarrow> True | g # gs \<Rightarrow> g)"

fun queue_run :: "bool list \<Rightarrow> 'a list \<Rightarrow> 'a call list \<Rightarrow> 'a list \<times> 'a list" where
  "queue_run gs q [] = ([], q)"
| "queue_run gs q (Put x # cs) = queue_run (tl gs) (if answer_first gs then q @ [x] else q) cs"
| "queue_run gs [] (Take # cs) = queue_run gs [] cs"
| "queue_run gs (y # q) (Take # cs) = (case queue_run gs q cs of (outs, q') \<Rightarrow> (y # outs, q'))"

text \<open>The puts that are granted.\<close>

fun kept_by :: "bool list \<Rightarrow> 'a list \<Rightarrow> 'a list" where
  "kept_by gs [] = []"
| "kept_by gs (x # xs) = (if answer_first gs then x # kept_by (tl gs) xs else kept_by (tl gs) xs)"

lemma queue_run_kept: "queue_run gs q cs = (outs, q') \<Longrightarrow> outs @ q' = q @ kept_by gs (offered cs)"
  by (induction gs q cs arbitrary: outs q' rule: queue_run.induct) (auto split: if_splits prod.splits)

locale fifo =
  fixes ok :: "'s \<Rightarrow> bool"
    and held :: "'s \<Rightarrow> 'a list"
    and can :: "'s \<Rightarrow> bool"
    and vacant :: "'s \<Rightarrow> bool"
    and put :: "'a \<Rightarrow> 's \<Rightarrow> 's result"
    and get :: "'s \<Rightarrow> ('a \<times> 's) result"
  assumes vacant_iff: "ok s \<Longrightarrow> vacant s \<longleftrightarrow> held s = []"
    and put_spec: "ok s \<Longrightarrow> \<exists>s'. put x s = Inr s' \<and> ok s' \<and>
      held s' = (if can s then held s @ [x] else held s)"
    and get_spec: "ok s \<Longrightarrow> held s = x # xs \<Longrightarrow>
      \<exists>s'. get s = Inr (x, s') \<and> ok s' \<and> held s' = xs"

text \<open>A queue that asks the allocator once for every put, and for nothing else.\<close>

locale asking_fifo = fifo +
  fixes answers :: "'s \<Rightarrow> bool list"
  assumes can_first: "can s = answer_first (answers s)"
    and put_asks: "ok s \<Longrightarrow> put x s = Inr s' \<Longrightarrow> answers s' = tl (answers s)"
    and get_asks: "ok s \<Longrightarrow> get s = Inr (x, s') \<Longrightarrow> answers s' = answers s"
begin

text \<open>It implements the queue: no run faults, and every run gives and holds what that does.\<close>

lemma run_queue:
  "ok s \<Longrightarrow> \<exists>s'. runq put vacant get cs s = Inr (fst (queue_run (answers s) (held s) cs), s') \<and> ok s' \<and>
     held s' = snd (queue_run (answers s) (held s) cs) \<and> answers s' = drop (length (offered cs)) (answers s)"
proof (induction cs arbitrary: s rule: offered.induct)
  case 1
  then show ?case
    by simp
next
  case (2 x cs)
  obtain s1 where s1: "put x s = Inr s1" "ok s1"
    "held s1 = (if can s then held s @ [x] else held s)"
    using put_spec [OF "2.prems"] by blast
  then show ?case
    using "2.IH" [OF s1(2)] can_first [of s] put_asks [OF "2.prems" s1(1)] by (simp add: drop_Suc)
next
  case (3 cs)
  show ?case
  proof (cases "held s")
    case Nil
    then show ?thesis
      using "3.IH" [OF "3.prems"] vacant_iff [OF "3.prems"] by simp
  next
    case (Cons x xs)
    obtain s1 where s1: "get s = Inr (x, s1)" "ok s1" "held s1 = xs"
      using get_spec [OF "3.prems" Cons] by blast
    show ?thesis
      using "3.IH" [OF s1(2)] s1 Cons vacant_iff [OF "3.prems"] get_asks [OF "3.prems" s1(1)]
      by (auto split: prod.split)
  qed
qed

end

text \<open>A queue whose puts are never refused loses nothing.\<close>

locale lossless_fifo = fifo +
  assumes never_refused: "ok s \<Longrightarrow> can s"
begin

lemma run_lossless:
  "ok s \<Longrightarrow> \<exists>outs s'. runq put vacant get cs s = Inr (outs, s') \<and> ok s' \<and>
     outs @ held s' = held s @ offered cs"
proof (induction cs arbitrary: s rule: offered.induct)
  case 1
  then show ?case
    by simp
next
  case (2 x cs)
  obtain s1 where "put x s = Inr s1" "ok s1" "held s1 = held s @ [x]"
    using put_spec [OF "2.prems"] never_refused [OF "2.prems"] by auto
  then show ?case
    using "2.IH" [of s1] by auto
next
  case (3 cs)
  show ?case
  proof (cases "held s")
    case Nil
    then show ?thesis
      using "3.IH" [OF "3.prems"] vacant_iff [OF "3.prems"] by simp
  next
    case (Cons x xs)
    obtain s1 where s1: "get s = Inr (x, s1)" "ok s1" "held s1 = xs"
      using get_spec [OF "3.prems" Cons] by blast
    show ?thesis
      using "3.IH" [OF s1(2)] s1 Cons vacant_iff [OF "3.prems"] by fastforce
  qed
qed

end

subsection \<open>The connection list is such a queue\<close>

type_synonym cstate = "conlist \<times> cheap"

definition cput :: "int \<times> instruction \<Rightarrow> cstate \<Rightarrow> cstate result" where
  "cput x s = addTail (fst x) (snd x) (fst s) (snd s)"

definition cget :: "cstate \<Rightarrow> ((int \<times> instruction) \<times> cstate) result" where
  "cget s = takeCon (fst s) (snd s)"

definition cok :: "cstate \<Rightarrow> bool" where
  "cok s = linked (fst s) (snd s)"

definition cheld :: "cstate \<Rightarrow> (int \<times> instruction) list" where
  "cheld s = items (fst s) (snd s)"

lemmas cdefs = cput_def cget_def cok_def cheld_def

lemma isEmpty_items: "linked l h \<Longrightarrow> isEmpty l \<longleftrightarrow> items l h = []"
  by (erule linkedE) (auto simp: isEmpty_def rep_def vals_def neq_Nil_conv dest: seg_NoneD)

lemma addTail_linked:
  assumes "linked l h"
  shows "\<exists>l' h'. addTail c a l h = Inr (l', h') \<and> linked l' h' \<and>
     items l' h' = (if granted h then items l h @ [(c, a)] else items l h) \<and>
     grants h' = tl (grants h)"
proof -
  obtain ps where r: "rep l h ps" "items l h = vals (cells h) ps"
    using assms by (rule linkedE)
  show ?thesis
  proof (cases "granted h")
    case True
    obtain l' h' where a: "addTail c a l h = Inr (l', h')" "rep l' h' (ps @ [brk h])"
      "vals (cells h') (ps @ [brk h]) = vals (cells h) ps @ [(c, a)]" "grants h' = tl (grants h)"
      using addTail_rep [OF r(1) True] by blast
    then show ?thesis
      using True r items_rep [OF a(2)] by (auto simp: linked_rep)
  next
    case False
    have "rep l (asked h) ps"
      using r(1) by (simp add: rep_def asked_def)
    then show ?thesis
      using False r addTail_refused [OF False] items_rep [of l "asked h" ps]
      by (auto simp: linked_rep asked_def)
  qed
qed

lemma takeCon_linked:
  assumes "linked l h" and "items l h = x # xs"
  shows "\<exists>l' h'. takeCon l h = Inr (x, l', h') \<and> linked l' h' \<and> items l' h' = xs \<and>
     grants h' = grants h"
proof -
  obtain ps where r: "rep l h ps" "items l h = vals (cells h) ps"
    using assms(1) by (rule linkedE)
  then obtain a qs where ps: "ps = a # qs"
    using assms(2) by (cases ps) (auto simp: vals_def)
  obtain l' h' where t: "takeCon l h = Inr ((conn (the (cells h a)), action (the (cells h a))), l', h')"
    "rep l' h' qs" "vals (cells h') qs = vals (cells h) qs" "grants h' = grants h"
    using takeCon_rep r(1) ps by blast
  then show ?thesis
    using assms(2) r(2) ps items_rep [OF t(2)] by (auto simp: vals_simps linked_rep)
qed

lemma cput_asks: "cok s \<Longrightarrow> cput x s = Inr s' \<Longrightarrow> grants (snd s') = tl (grants (snd s))"
  using addTail_linked [of "fst s" "snd s" "fst x" "snd x"] by (auto simp: cdefs)

lemma cget_asks:
  assumes "cok s" and "cget s = Inr (x, s')"
  shows "grants (snd s') = grants (snd s)"
proof (cases "cheld s")
  case Nil
  then have "isEmpty (fst s)"
    using assms(1) by (simp add: cdefs isEmpty_items)
  then show ?thesis
    using assms(2) by (simp add: cget_def takeCon_def removeHead_def isEmpty_def deref_def)
next
  case (Cons y ys)
  then show ?thesis
    using takeCon_linked [of "fst s" "snd s" y ys] assms by (auto simp: cdefs)
qed

interpretation cq: asking_fifo cok cheld "\<lambda>s. granted (snd s)" "\<lambda>s. isEmpty (fst s)" cput cget "\<lambda>s. grants (snd s)"
proof
  show "granted (snd s) = answer_first (grants (snd s))" for s :: cstate
    by (simp add: granted_def answer_first_def)
  show "grants (snd s') = tl (grants (snd s))" if "cok s" "cput x s = Inr s'" for s s' x
    using that by (rule cput_asks)
  show "grants (snd s') = grants (snd s)" if "cok s" "cget s = Inr (x, s')" for s s' x
    using that by (rule cget_asks)
  show "isEmpty (fst s) \<longleftrightarrow> cheld s = []" if "cok s" for s
    using that by (simp add: cdefs isEmpty_items)
  show "\<exists>s'. cput x s = Inr s' \<and> cok s' \<and>
      cheld s' = (if granted (snd s) then cheld s @ [x] else cheld s)" if "cok s" for x s
    using addTail_linked that by (fastforce simp: cdefs)
  show "\<exists>s'. cget s = Inr (x, s') \<and> cok s' \<and> cheld s' = xs"
    if "cok s" "cheld s = x # xs" for s x xs
    using takeCon_linked that by (fastforce simp: cdefs)
qed

text \<open>While the allocator grants every request, the list is a lossless queue.\<close>

definition cok_ample :: "cstate \<Rightarrow> bool" where
  "cok_ample s \<longleftrightarrow> cok s \<and> grants (snd s) = []"

interpretation cl: lossless_fifo cok_ample cheld "\<lambda>s. granted (snd s)" "\<lambda>s. isEmpty (fst s)" cput cget
proof
  show "isEmpty (fst s) \<longleftrightarrow> cheld s = []" if "cok_ample s" for s
    using that by (simp add: cok_ample_def cq.vacant_iff)
  show "\<exists>s'. cput x s = Inr s' \<and> cok_ample s' \<and>
      cheld s' = (if granted (snd s) then cheld s @ [x] else cheld s)" if "cok_ample s" for x s
    using addTail_linked that by (fastforce simp: cdefs cok_ample_def)
  show "\<exists>s'. cget s = Inr (x, s') \<and> cok_ample s' \<and> cheld s' = xs"
    if "cok_ample s" "cheld s = x # xs" for s x xs
    using takeCon_linked that by (fastforce simp: cdefs cok_ample_def)
  show "granted (snd s)" if "cok_ample s" for s
    using that by (simp add: cok_ample_def granted_def)
qed


section \<open>Properties\<close>

text \<open>The list the servers start with.\<close>

definition fresh_list :: cstate where
  "fresh_list = (\<lparr>head = None, tail = None, numNodes = 0\<rparr>, \<lparr>cells = Map.empty, brk = 0, grants = []\<rparr>)"

lemma fresh_list_ok: "cok_ample fresh_list" "cok fresh_list" "cheld fresh_list = []"
  by (simp_all add: fresh_list_def cok_ample_def cdefs linked_def items_def walk.simps vals_def)

text \<open>
  C20: the connection list as both servers use it (addTail for a put, a take of the first node when
  the list is not empty) refines a first-in first-out queue: no run of calls follows a null or dangling
  pointer, the list stays well-formed, and what was taken, in order, and what is held at the end are
  those of the queue. What was taken followed by what is held is what was held followed by the
  connections whose allocation was granted; exactly the others, whose addTail found no memory, are
  dropped without a word. Every put asks the allocator once, and a take never does.
\<close>

theorem conlist_fifo:
  assumes "cok s"
  shows "\<exists>outs s'. runq cput (\<lambda>s. isEmpty (fst s)) cget cs s = Inr (outs, s') \<and> cok s' \<and>
    queue_run (grants (snd s)) (cheld s) cs = (outs, cheld s') \<and>
    outs @ cheld s' = cheld s @ kept_by (grants (snd s)) (offered cs) \<and>
    grants (snd s') = drop (length (offered cs)) (grants (snd s))"
proof -
  let ?q = "queue_run (grants (snd s)) (cheld s) cs"
  obtain s' where "runq cput (\<lambda>s. isEmpty (fst s)) cget cs s = Inr (fst ?q, s')" "cok s'" "cheld s' = snd ?q"
    "grants (snd s') = drop (length (offered cs)) (grants (snd s))"
    using cq.run_queue [OF assms] by blast
  then show ?thesis
    using queue_run_kept [of "grants (snd s)" "cheld s" cs "fst ?q" "snd ?q"] by auto
qed

text \<open>The second of three puts finds no memory.\<close>

definition short_of_memory :: cstate where
  "short_of_memory = (fst fresh_list, (snd fresh_list)\<lparr>grants := [True, False]\<rparr>)"

theorem conlist_fifo_witness:
  "\<exists>s'. runq cput (\<lambda>s. isEmpty (fst s)) cget
     [Put (5, PROCESS), Take, Put (6, PROCESS), Take, Put (0, TERMINATE)] short_of_memory = Inr ([(5, PROCESS)], s') \<and>
     cok s' \<and> cheld s' = [(0, TERMINATE)] \<and> grants (snd s') = []"
proof -
  have "cok short_of_memory" "cheld short_of_memory = []" "grants (snd short_of_memory) = [True, False]"
    by (simp_all add: short_of_memory_def fresh_list_def cdefs linked_def items_def walk.simps vals_def)
  then show ?thesis
    using conlist_fifo [of short_of_memory "[Put (5, PROCESS), Take, Put (6, PROCESS), Take, Put (0, TERMINATE)]"]
    by (auto simp: answer_first_def)
qed

text \<open>
  While the allocator grants every request, the connection list loses nothing: every connection
  put is taken or still held, in order.
\<close>

theorem conlist_lossless:
  assumes "cok_ample s"
  shows "\<exists>outs s'. runq cput (\<lambda>s. isEmpty (fst s)) cget cs s = Inr (outs, s') \<and> cok_ample s' \<and>
    outs @ cheld s' = cheld s @ offered cs"
  using assms by (rule cl.run_lossless)

theorem conlist_lossless_witness:
  "\<exists>outs s'. runq cput (\<lambda>s. isEmpty (fst s)) cget [Put (5, PROCESS), Put (0, SHARED), Take] fresh_list =
     Inr (outs, s') \<and> cok_ample s' \<and> outs @ cheld s' = [(5, PROCESS), (0, SHARED)]"
  using conlist_lossless [OF fresh_list_ok(1), of "[Put (5, PROCESS), Put (0, SHARED), Take]"]
  by (simp add: fresh_list_ok)

text \<open>
  The call of \<open>destroyCon\<close> on the first connection frees its node but leaves the head of the list pointing to
  it: the list still counts as not empty, and taking its first node reads freed memory.
\<close>

theorem destroyCon_dangles:
  assumes "linked l h" and "items l h = (c, a) # rest"
  shows "\<exists>l' h'. destroyCon c l h = Inr (l', h') \<and> \<not> isEmpty l' \<and> takeCon l' h' = Inl Use_After_Free"
proof -
  obtain ps where r: "rep l h ps" "items l h = vals (cells h) ps"
    using assms(1) by (rule linkedE)
  then obtain b qs where ps: "ps = b # qs" "conn (the (cells h b)) = c"
    using assms(2) by (cases ps) (auto simp: vals_simps)
  then obtain l' h' where d: "destroyCon c l h = Inr (l', h')" "head l' = Some b" "cells h' b = None"
    using destroyCon_head r(1) by blast
  then have "takeCon l' h' = Inl Use_After_Free"
    by (cases "tail l' = Some b") (simp_all add: takeCon_def removeHead_def heap_simps)
  then show ?thesis
    using d by (auto simp: isEmpty_def)
qed

theorem destroyCon_dangles_witness:
  "\<exists>l h l' h'. addTail 7 PROCESS (fst fresh_list) (snd fresh_list) = Inr (l, h) \<and>
     destroyCon 7 l h = Inr (l', h') \<and> \<not> isEmpty l' \<and> takeCon l' h' = Inl Use_After_Free"
proof -
  let ?l = "\<lparr>head = Some 0, tail = Some 0, numNodes = 1\<rparr>"
  let ?h = "\<lparr>cells = [0 \<mapsto> \<lparr>conn = 7, action = PROCESS, nxt = None\<rparr>], brk = 1, grants = []\<rparr>"
  have "addTail 7 PROCESS (fst fresh_list) (snd fresh_list) = Inr (?l, ?h)"
    by (simp add: addTail_def newConnection_def granted_def asked_def fresh_list_def c_int_def)
  moreover have "linked ?l ?h" "items ?l ?h = (7, PROCESS) # []"
    by (simp_all add: linked_def items_def walk.simps vals_def)
  ultimately show ?thesis
    using destroyCon_dangles [of ?l ?h 7 PROCESS "[]"] by blast
qed

end
