(* ===== verification/Pool.thy ===== *)
theory Pool
  imports ConList Constants
begin

text \<open>
  The pool of worker threads that src/server.c and src/proxy.c share: the accepting loop of
  \<open>main\<close>, the waiting loop at the head of \<open>handleClient\<close>, and the signal handler
  \<open>catchInterrupt\<close>, over the connection list, its mutex \<open>mConList\<close> and its condition variable.
  Every thread stands at a stage; a step goes from one stage to the next, and the scheduler, the
  arriving connections and the signal are free.
\<close>

section \<open>The state\<close>

datatype thread = Main_Thread | Pool_Thread nat

text \<open>\<open>Testing\<close> holds the mutex; \<open>Waiting\<close> is inside \<open>pthread_cond_wait\<close>.\<close>

datatype worker_stage = Locking | Testing | Waiting | Given "int \<times> instruction" | Exited

text \<open>
  \<open>Head\<close> is the test of \<open>LOOP\<close>, \<open>Polling\<close> the look at the shared memory (the optimised server),
  \<open>Entering\<close> the way from there into \<open>accept\<close>, \<open>Got\<close> the way from the poll or from \<open>accept\<close> to the
  mutex; \<open>Adding\<close>, \<open>Added\<close> and \<open>Unlocking\<close> hold the mutex; \<open>Left\<close> is outside the loop, joining the
  workers.
\<close>

datatype main_stage =
  Head | Polling | Entering | Accepting | Got "int \<times> instruction" | Adding "int \<times> instruction"
  | Added instruction | Unlocking instruction | Left | Finished

text \<open>The handler, with the number of turns of its loop still to make.\<close>

datatype handler_stage = H_Lock nat | H_Add nat | H_Added nat | H_Unlock nat

text \<open>
  What the next poll or the next \<open>accept\<close> finds: a client; a request of the proxy in shared memory,
  which \<open>accept\<close> does not see; nothing on the non-blocking socket (EAGAIN); an error.
\<close>

datatype arrival = Client int | Shared_Request | No_Client | Accept_Error

record pool =
  queue :: cstate
  owner :: "thread option"
  sleepers :: "nat list"
  stages :: "worker_stage list"
  main_at :: main_stage
  handler :: "handler_stage option"
  LOOP :: bool
  eintr :: bool
  incoming :: "arrival list"
  given :: "(int \<times> instruction) list"
  accepted :: "(int \<times> instruction) list"

definition start_pool :: "nat \<Rightarrow> arrival list \<Rightarrow> bool list \<Rightarrow> pool" where
  "start_pool n cs gs = \<lparr>queue = (\<lparr>head = None, tail = None, numNodes = 0\<rparr>,
       \<lparr>cells = Map.empty, brk = 0, grants = gs\<rparr>),
     owner = None, sleepers = [], stages = replicate n Locking, main_at = Head, handler = None,
     LOOP = True, eintr = False, incoming = cs, given = [], accepted = []\<rparr>"

section \<open>The steps\<close>

text \<open>\<open>addTail\<close>, with a record of what the list took.\<close>

definition put_job :: "int \<times> instruction \<Rightarrow> pool \<Rightarrow> pool result" where
  "put_job x s = bindR (cput x (queue s)) (\<lambda>q.
     Inr (s\<lparr>queue := q, accepted := accepted s @ (if granted (snd (queue s)) then [x] else [])\<rparr>))"

text \<open>
  The main thread, when no signal handler runs on it. \<open>accept\<close> blocks while nothing arrives; a
  signal that finds the thread inside it makes it fail.
\<close>

definition main_step :: "pool \<Rightarrow> pool result option" where
  "main_step s = (if handler s \<noteq> None then None else case main_at s of
     Head \<Rightarrow> Some (Inr (s\<lparr>main_at := if LOOP s then Polling else Left\<rparr>))
   | Polling \<Rightarrow> (case incoming s of
       Shared_Request # cs \<Rightarrow> Some (Inr (s\<lparr>main_at := Got (0, SHARED), incoming := cs\<rparr>))
     | _ \<Rightarrow> Some (Inr (s\<lparr>main_at := Entering\<rparr>)))
   | Entering \<Rightarrow> Some (Inr (s\<lparr>main_at := Accepting, eintr := False\<rparr>))
   | Accepting \<Rightarrow>
       if eintr s then
         (if \<not> LOOP s then Some (Inr (s\<lparr>main_at := Left\<rparr>)) else Some (Inl (Exit_With SOCKET_FAILURE)))
       else (case incoming s of
         [] \<Rightarrow> None
       | Client c # cs \<Rightarrow> Some (Inr (s\<lparr>main_at := Got (c, PROCESS), incoming := cs\<rparr>))
       | Shared_Request # cs \<Rightarrow> Some (Inr (s\<lparr>main_at := if LOOP s then Head else Left\<rparr>))
       | No_Client # cs \<Rightarrow> Some (Inr (s\<lparr>main_at := if LOOP s then Head else Left, incoming := cs\<rparr>))
       | Accept_Error # cs \<Rightarrow>
           if \<not> LOOP s then Some (Inr (s\<lparr>main_at := Left, incoming := cs\<rparr>))
           else Some (Inl (Exit_With SOCKET_FAILURE)))
   | Got x \<Rightarrow>
       if owner s = None then Some (Inr (s\<lparr>main_at := Adding x, owner := Some Main_Thread\<rparr>)) else None
   | Adding x \<Rightarrow> Some (bindR (put_job x s) (\<lambda>s1. Inr (s1\<lparr>main_at := Added (snd x)\<rparr>)))
   | Added a \<Rightarrow> Some (Inr (s\<lparr>sleepers := [], main_at := Unlocking a\<rparr>))
   | Unlocking a \<Rightarrow> Some (Inr (s\<lparr>owner := None, main_at := if a = SHARED then Entering else Head\<rparr>))
   | Left \<Rightarrow>
       if list_all (\<lambda>w. w = Exited) (stages s) then Some (Inr (s\<lparr>main_at := Finished\<rparr>)) else None
   | Finished \<Rightarrow> None)"

text \<open>
  SIGINT, delivered to the main thread: the first one starts the handler's loop; a later one returns at
  once, but \<open>accept\<close> ends with EINTR all the same.
\<close>

definition catchInterrupt :: "pool \<Rightarrow> pool result option" where
  "catchInterrupt s =
     (if handler s \<noteq> None \<or> main_at s = Finished then None
      else if \<not> LOOP s then Some (Inr (s\<lparr>eintr := (main_at s = Accepting)\<rparr>))
      else Some (Inr (s\<lparr>LOOP := False, handler := Some (H_Lock (length (stages s))),
                       eintr := (main_at s = Accepting)\<rparr>)))"

definition handler_step :: "pool \<Rightarrow> pool result option" where
  "handler_step s = (case handler s of
     None \<Rightarrow> None
   | Some (H_Lock i) \<Rightarrow>
       if i = 0 then Some (Inr (s\<lparr>handler := None\<rparr>))
       else if owner s = None then Some (Inr (s\<lparr>handler := Some (H_Add (i - 1)), owner := Some Main_Thread\<rparr>))
       else None
   | Some (H_Add i) \<Rightarrow> Some (bindR (put_job (0, TERMINATE) s) (\<lambda>s1. Inr (s1\<lparr>handler := Some (H_Added i)\<rparr>)))
   | Some (H_Added i) \<Rightarrow> Some (Inr (s\<lparr>sleepers := [], handler := Some (H_Unlock i)\<rparr>))
   | Some (H_Unlock i) \<Rightarrow> Some (Inr (s\<lparr>owner := None, handler := Some (H_Lock i)\<rparr>)))"

text \<open>
  A worker. A connection given to it is served and its node freed before it comes back to the
  mutex; here the node is freed when it is read.
\<close>

definition worker_pool_step :: "nat \<Rightarrow> pool \<Rightarrow> pool result option" where
  "worker_pool_step i s = (if length (stages s) \<le> i then None else case stages s ! i of
     Locking \<Rightarrow>
       if owner s = None
       then Some (Inr (s\<lparr>stages := (stages s)[i := Testing], owner := Some (Pool_Thread i)\<rparr>)) else None
   | Testing \<Rightarrow>
       if isEmpty (fst (queue s)) then
         Some (Inr (s\<lparr>stages := (stages s)[i := Waiting], owner := None, sleepers := sleepers s @ [i]\<rparr>))
       else Some (bindR (cget (queue s)) (\<lambda>(x, q).
         Inr (s\<lparr>queue := q, owner := None, stages := (stages s)[i := Given x], given := given s @ [x]\<rparr>)))
   | Waiting \<Rightarrow>
       if i \<notin> set (sleepers s) \<and> owner s = None
       then Some (Inr (s\<lparr>stages := (stages s)[i := Testing], owner := Some (Pool_Thread i)\<rparr>)) else None
   | Given x \<Rightarrow>
       Some (Inr (s\<lparr>stages := (stages s)[i := if snd x = TERMINATE then Exited else Locking]\<rparr>))
   | Exited \<Rightarrow> None)"

inductive pool_step :: "pool \<Rightarrow> pool \<Rightarrow> bool" where
  by_main: "main_step s = Some (Inr s') \<Longrightarrow> pool_step s s'"
| by_signal: "catchInterrupt s = Some (Inr s') \<Longrightarrow> pool_step s s'"
| by_handler: "handler_step s = Some (Inr s') \<Longrightarrow> pool_step s s'"
| by_worker: "worker_pool_step i s = Some (Inr s') \<Longrightarrow> pool_step s s'"

inductive_cases pool_stepE: "pool_step s s'"

section \<open>The invariant\<close>

text \<open>The main thread holds the mutex, itself or in the handler.\<close>

definition main_holds :: "pool \<Rightarrow> bool" where
  "main_holds s \<longleftrightarrow> (\<exists>x. main_at s = Adding x) \<or> (\<exists>a. main_at s = Added a \<or> main_at s = Unlocking a) \<or>
     (\<exists>i. handler s = Some (H_Add i) \<or> handler s = Some (H_Added i) \<or> handler s = Some (H_Unlock i))"

text \<open>A connection was added and the broadcast is still to come.\<close>

definition about_to_wake :: "pool \<Rightarrow> bool" where
  "about_to_wake s \<longleftrightarrow> (\<exists>a. main_at s = Added a) \<or> (\<exists>i. handler s = Some (H_Added i))"

definition turns_left :: "pool \<Rightarrow> nat" where
  "turns_left s = (case handler s of
     None \<Rightarrow> (if LOOP s then length (stages s) else 0)
   | Some (H_Lock i) \<Rightarrow> i | Some (H_Add i) \<Rightarrow> Suc i | Some (H_Added i) \<Rightarrow> i | Some (H_Unlock i) \<Rightarrow> i)"

definition stops :: "(int \<times> instruction) list \<Rightarrow> nat" where
  "stops xs = length (filter (\<lambda>x. snd x = TERMINATE) xs)"

definition stopped :: "worker_stage \<Rightarrow> bool" where
  "stopped w \<longleftrightarrow> (case w of Exited \<Rightarrow> True | Given x \<Rightarrow> snd x = TERMINATE | _ \<Rightarrow> False)"

text \<open>The mutex is held by the worker that tests the list, and by no other worker.\<close>

definition owned :: "thread option \<Rightarrow> worker_stage list \<Rightarrow> bool" where
  "owned w ws \<longleftrightarrow> (\<forall>i. w = Some (Pool_Thread i) \<longleftrightarrow> i < length ws \<and> ws ! i = Testing)"

lemma owned_nobody: "owned w ws \<Longrightarrow> w = None \<or> w = Some Main_Thread \<Longrightarrow> i < length ws \<Longrightarrow> ws ! i \<noteq> Testing"
  by (auto simp: owned_def)

lemma owned_main [simp]: "owned (Some Main_Thread) ws = owned None ws"
  by (simp add: owned_def)

lemma owned_take:
  assumes "owned None ws" and "i < length ws"
  shows "owned (Some (Pool_Thread i)) (ws[i := Testing])"
proof -
  have "\<not> (j < length ws \<and> ws ! j = Testing)" for j
    using owned_nobody [OF assms(1)] by blast
  then show ?thesis
    using assms(2) unfolding owned_def by (metis length_list_update nth_list_update_eq nth_list_update_neq
      option.inject thread.inject)
qed

lemma owned_give:
  assumes "owned (Some (Pool_Thread i)) ws" and "x \<noteq> Testing"
  shows "owned None (ws[i := x])"
  using assms unfolding owned_def
  by (metis length_list_update nth_list_update_eq nth_list_update_neq option.distinct(1) option.inject thread.inject)

lemma owned_keep:
  assumes "owned w ws" and "i < length ws" and "ws ! i \<noteq> Testing" and "x \<noteq> Testing"
  shows "owned w (ws[i := x])"
  using assms unfolding owned_def
  by (metis length_list_update nth_list_update_eq nth_list_update_neq)

text \<open>Who sleeps on the condition variable is waiting.\<close>

definition asleep :: "nat list \<Rightarrow> worker_stage list \<Rightarrow> bool" where
  "asleep is ws \<longleftrightarrow> (\<forall>i \<in> set is. i < length ws \<and> ws ! i = Waiting)"

lemma asleep_none [simp]: "asleep [] ws"
  by (simp add: asleep_def)

lemma asleep_keep:
  assumes "asleep is ws" and "ws ! i \<noteq> Waiting \<or> i \<notin> set is"
  shows "asleep is (ws[i := w])"
  unfolding asleep_def
proof
  fix j assume "j \<in> set is"
  then have "j \<noteq> i" "j < length ws" "ws ! j = Waiting"
    using assms by (auto simp: asleep_def)
  then show "j < length (ws[i := w]) \<and> ws[i := w] ! j = Waiting"
    by simp
qed

lemma asleep_more: "asleep is (ws[i := Waiting]) \<Longrightarrow> i < length ws \<Longrightarrow> asleep (is @ [i]) (ws[i := Waiting])"
  by (simp add: asleep_def)

definition pool_inv :: "pool \<Rightarrow> bool" where
  "pool_inv s \<longleftrightarrow>
     cok (queue s) \<and>
     given s @ cheld (queue s) = accepted s \<and>
     (owner s = Some Main_Thread \<longleftrightarrow> main_holds s) \<and>
     owned (owner s) (stages s) \<and>
     asleep (sleepers s) (stages s) \<and>
     (sleepers s \<noteq> [] \<longrightarrow> cheld (queue s) = [] \<or> about_to_wake s) \<and>
     stops (accepted s) + turns_left s \<le> length (stages s) \<and>
     stops (given s) = length (filter stopped (stages s)) \<and>
     ((\<exists>i. handler s = Some (H_Add i) \<or> handler s = Some (H_Added i) \<or> handler s = Some (H_Unlock i)) \<longrightarrow>
       \<not> (\<exists>x. main_at s = Adding x) \<and> \<not> (\<exists>a. main_at s = Added a \<or> main_at s = Unlocking a)) \<and>
     (\<forall>x. main_at s = Got x \<or> main_at s = Adding x \<longrightarrow> snd x \<noteq> TERMINATE) \<and>
     (main_at s = Accepting \<and> eintr s \<longrightarrow> \<not> LOOP s) \<and>
     (handler s \<noteq> None \<longrightarrow> \<not> LOOP s)"

lemma start_pool_inv: "pool_inv (start_pool n cs gs)"
proof -
  have "filter stopped (replicate n Locking) = []"
    by (simp add: stopped_def)
  then show ?thesis
    by (simp add: pool_inv_def owned_def start_pool_def cdefs linked_def items_def walk.simps vals_def main_holds_def
      stops_def turns_left_def)
qed


definition pool_keeps :: "pool result option \<Rightarrow> bool" where
  "pool_keeps r = (case r of
     None \<Rightarrow> True
   | Some (Inl e) \<Rightarrow> e = Exit_With SOCKET_FAILURE
   | Some (Inr s') \<Rightarrow> pool_inv s')"

lemma length_filter_update:
  "i < length xs \<Longrightarrow> length (filter P (xs[i := x])) + (if P (xs ! i) then 1 else 0) =
     length (filter P xs) + (if P x then 1 else 0)"
proof (induction xs arbitrary: i)
  case (Cons y ys)
  then show ?case
    by (cases i) auto
qed simp

lemma put_job_inv:
  assumes "pool_inv s"
  obtains q where "put_job x s = Inr (s\<lparr>queue := q, accepted := accepted s @ (if granted (snd (queue s)) then [x] else [])\<rparr>)"
    and "cok q" and "cheld q = cheld (queue s) @ (if granted (snd (queue s)) then [x] else [])"
proof -
  have "cok (queue s)"
    using assms by (simp add: pool_inv_def)
  then obtain q where "cput x (queue s) = Inr q" "cok q"
    "cheld q = (if granted (snd (queue s)) then cheld (queue s) @ [x] else cheld (queue s))"
    using cq.put_spec by blast
  then show thesis
    by (intro that [of q]) (simp_all add: put_job_def)
qed

lemmas pool_defs = pool_inv_def main_holds_def about_to_wake_def turns_left_def

lemma main_keeps_inv:
  assumes "pool_inv s"
  shows "pool_keeps (main_step s)"
proof (cases "handler s")
  case (Some h)
  then show ?thesis
    by (simp add: main_step_def pool_keeps_def)
next
  case None
  show ?thesis
  proof (cases "main_at s")
    case Accepting
    then show ?thesis
      using assms None
      by (auto simp: main_step_def pool_keeps_def pool_defs split: list.split arrival.split)
  next
    case Polling
    then show ?thesis
      using assms None
      by (auto simp: main_step_def pool_keeps_def pool_defs split: list.split arrival.split)
  next
    case (Adding x)
    obtain q where "put_job x s = Inr (s\<lparr>queue := q,
        accepted := accepted s @ (if granted (snd (queue s)) then [x] else [])\<rparr>)" "cok q"
      "cheld q = cheld (queue s) @ (if granted (snd (queue s)) then [x] else [])"
      using put_job_inv [OF assms] by blast
    then show ?thesis
      using assms None Adding
      by (auto simp: main_step_def pool_keeps_def pool_defs stops_def)
  qed (use assms None in \<open>auto simp: main_step_def pool_keeps_def pool_defs\<close>)
qed

lemma signal_keeps_inv:
  assumes "pool_inv s"
  shows "pool_keeps (catchInterrupt s)"
  using assms by (auto simp: catchInterrupt_def pool_keeps_def pool_defs)

lemma handler_lock_inv:
  assumes "pool_inv s" and "handler s = Some (H_Lock (Suc i))" and "owner s = None"
  shows "pool_inv (s\<lparr>handler := Some (H_Add i), owner := Some Main_Thread\<rparr>)"
proof -
  have "\<not> main_holds s"
    using assms by (simp add: pool_inv_def)
  then show ?thesis
    using assms by (simp add: pool_defs)
qed

lemma handler_add_inv:
  assumes "pool_inv s" and "handler s = Some (H_Add i)" and "cok q"
    and "cheld q = cheld (queue s) @ xs" and "xs = [] \<or> xs = [(0, TERMINATE)]"
  shows "pool_inv (s\<lparr>queue := q, accepted := accepted s @ xs, handler := Some (H_Added i)\<rparr>)"
proof -
  have "stops xs \<le> 1"
    using assms(5) by (auto simp: stops_def)
  moreover have "stops (accepted s @ xs) = stops (accepted s) + stops xs"
    by (simp add: stops_def)
  moreover have "given s @ cheld q = accepted s @ xs"
    using assms(1,4) by (simp add: pool_inv_def)
  moreover have "main_holds s"
    using assms(2) by (simp add: main_holds_def)
  then have "owner s = Some Main_Thread"
    using assms(1) by (simp add: pool_inv_def)
  ultimately show ?thesis
    using assms(1,2,3) by (simp add: pool_defs)
qed

lemma handler_keeps_inv:
  assumes "pool_inv s"
  shows "pool_keeps (handler_step s)"
proof (cases "handler s")
  case None
  then show ?thesis
    by (simp add: handler_step_def pool_keeps_def)
next
  case (Some h)
  show ?thesis
  proof (cases h)
    case (H_Lock i)
    then show ?thesis
      using assms Some handler_lock_inv [OF assms, of "i - 1"]
      by (cases i) (simp_all add: handler_step_def pool_keeps_def, simp add: pool_defs)
  next
    case (H_Add i)
    let ?xs = "if granted (snd (queue s)) then [(0, TERMINATE)] else []"
    obtain q where "put_job (0, TERMINATE) s = Inr (s\<lparr>queue := q, accepted := accepted s @ ?xs\<rparr>)" "cok q"
      "cheld q = cheld (queue s) @ ?xs"
      using put_job_inv [OF assms] by blast
    then show ?thesis
      using handler_add_inv [OF assms, of i q ?xs] Some H_Add
      by (simp add: handler_step_def pool_keeps_def)
  next
    case (H_Added i)
    then show ?thesis
      using assms Some by (auto simp: handler_step_def pool_keeps_def pool_defs)
  next
    case (H_Unlock i)
    then show ?thesis
      using assms Some by (auto simp: handler_step_def pool_keeps_def pool_defs)
  qed
qed


text \<open>What the main thread is at does not depend on the rest.\<close>

lemma main_holds_frame [simp]:
  "main_holds (s\<lparr>queue := q\<rparr>) = main_holds s" "main_holds (s\<lparr>owner := w\<rparr>) = main_holds s"
  "main_holds (s\<lparr>sleepers := sl\<rparr>) = main_holds s" "main_holds (s\<lparr>stages := st\<rparr>) = main_holds s"
  "main_holds (s\<lparr>given := g\<rparr>) = main_holds s"
  by (simp_all add: main_holds_def)

lemma about_to_wake_frame [simp]:
  "about_to_wake (s\<lparr>queue := q\<rparr>) = about_to_wake s" "about_to_wake (s\<lparr>owner := w\<rparr>) = about_to_wake s"
  "about_to_wake (s\<lparr>sleepers := sl\<rparr>) = about_to_wake s" "about_to_wake (s\<lparr>stages := st\<rparr>) = about_to_wake s"
  "about_to_wake (s\<lparr>given := g\<rparr>) = about_to_wake s"
  by (simp_all add: about_to_wake_def)

lemma turns_left_frame [simp]:
  "turns_left (s\<lparr>queue := q\<rparr>) = turns_left s" "turns_left (s\<lparr>owner := w\<rparr>) = turns_left s"
  "turns_left (s\<lparr>sleepers := sl\<rparr>) = turns_left s"
  "length st = length (stages s) \<Longrightarrow> turns_left (s\<lparr>stages := st\<rparr>) = turns_left s"
  "turns_left (s\<lparr>given := g\<rparr>) = turns_left s"
  by (simp_all add: turns_left_def cong: option.case_cong)

text \<open>A worker that changes its stage.\<close>

lemma stopped_update:
  assumes "i < length (stages s)" and "stopped (stages s ! i) \<longleftrightarrow> stopped w"
  shows "length (filter stopped ((stages s)[i := w])) = length (filter stopped (stages s))"
  using length_filter_update [OF assms(1), of stopped w] assms(2) by (simp split: if_splits)

lemma worker_locks_inv:
  assumes "pool_inv s" and "i < length (stages s)" and "owner s = None"
    and "stages s ! i = Locking \<or> stages s ! i = Waiting \<and> i \<notin> set (sleepers s)"
  shows "pool_inv (s\<lparr>stages := (stages s)[i := Testing], owner := Some (Pool_Thread i)\<rparr>)"
proof -
  have "length (filter stopped ((stages s)[i := Testing])) = length (filter stopped (stages s))"
    using assms(2,4) by (intro stopped_update) (auto simp: stopped_def)
  moreover have "owned (Some (Pool_Thread i)) ((stages s)[i := Testing])"
    using assms(1,2,3) by (intro owned_take) (simp_all add: pool_inv_def)
  moreover have "\<not> main_holds s"
    using assms(1,3) by (simp add: pool_inv_def)
  moreover have "asleep (sleepers s) ((stages s)[i := Testing])"
    using assms(1,4) by (intro asleep_keep) (auto simp: pool_inv_def)
  ultimately show ?thesis
    using assms(1) by (simp add: pool_inv_def)
qed

text \<open>A worker at \<open>Testing\<close> is the only one, and has the mutex.\<close>

lemma tester:
  assumes "pool_inv s" and "i < length (stages s)" and "stages s ! i = Testing"
  shows "owner s = Some (Pool_Thread i)" and "\<not> main_holds s" and "\<not> about_to_wake s"
    and "j < length (stages s) \<Longrightarrow> stages s ! j = Testing \<Longrightarrow> j = i"
proof -
  show o: "owner s = Some (Pool_Thread i)"
    using assms by (auto simp: pool_inv_def owned_def)
  then show m: "\<not> main_holds s"
    using assms(1) by (simp add: pool_inv_def)
  then show "\<not> about_to_wake s"
    by (auto simp: main_holds_def about_to_wake_def)
  show "j = i" if "j < length (stages s)" "stages s ! j = Testing"
  proof -
    have "owner s = Some (Pool_Thread j)"
      using assms(1) that by (auto simp: pool_inv_def owned_def)
    then show ?thesis
      using o by simp
  qed
qed

lemma untested:
  assumes "pool_inv s" and "i < length (stages s)" and "stages s ! i = Testing" and "w \<noteq> Testing"
  shows "owned None ((stages s)[i := w])"
proof -
  have "owned (Some (Pool_Thread i)) (stages s)"
    using tester(1) [OF assms(1,2,3)] assms(1) by (simp add: pool_inv_def)
  then show ?thesis
    by (rule owned_give) (rule assms(4))
qed

lemma still_waiting:
  assumes "pool_inv s" and "stages s ! i \<noteq> Waiting"
  shows "asleep (sleepers s) ((stages s)[i := w])"
  using assms by (intro asleep_keep) (auto simp: pool_inv_def)

lemma worker_waits_inv:
  assumes "pool_inv s" and "i < length (stages s)" and "stages s ! i = Testing" and "cheld (queue s) = []"
  shows "pool_inv (s\<lparr>stages := (stages s)[i := Waiting], owner := None, sleepers := sleepers s @ [i]\<rparr>)"
proof -
  have "length (filter stopped ((stages s)[i := Waiting])) = length (filter stopped (stages s))"
    using assms(2,3) by (intro stopped_update) (auto simp: stopped_def)
  moreover have "owned None ((stages s)[i := Waiting])"
    by (rule untested [OF assms(1,2,3)]) simp
  moreover have "asleep (sleepers s @ [i]) ((stages s)[i := Waiting])"
    using assms(3) by (intro asleep_more still_waiting [OF assms(1)] assms(2)) simp
  ultimately show ?thesis
    using assms(1,2,4) tester(2) [OF assms(1,2,3)] by (auto simp: pool_inv_def)
qed

lemma worker_takes_inv:
  assumes "pool_inv s" and "i < length (stages s)" and "stages s ! i = Testing"
    and "cheld (queue s) = x # xs" and "cok q" and "cheld q = xs"
  shows "pool_inv (s\<lparr>queue := q, owner := None, stages := (stages s)[i := Given x], given := given s @ [x]\<rparr>)"
proof -
  have "length (filter stopped ((stages s)[i := Given x])) =
      length (filter stopped (stages s)) + (if snd x = TERMINATE then 1 else 0)"
    using length_filter_update [OF assms(2), of stopped "Given x"] assms(3) by (simp add: stopped_def)
  moreover have "owned None ((stages s)[i := Given x])"
    by (rule untested [OF assms(1,2,3)]) simp
  moreover have "sleepers s = []"
    using tester(3) [OF assms(1,2,3)] assms(1,4) by (auto simp: pool_inv_def)
  moreover have "stops (given s @ [x]) = stops (given s) + (if snd x = TERMINATE then 1 else 0)"
    by (simp add: stops_def)
  ultimately show ?thesis
    using assms(1,4,5,6) tester(2) [OF assms(1,2,3)] by (simp add: pool_inv_def)
qed

lemma worker_ends_inv:
  assumes "pool_inv s" and "i < length (stages s)" and "stages s ! i = Given x" and "w = Exited \<or> w = Locking"
    and "w = Exited \<longleftrightarrow> snd x = TERMINATE"
  shows "pool_inv (s\<lparr>stages := (stages s)[i := w]\<rparr>)"
proof -
  have "length (filter stopped ((stages s)[i := w])) = length (filter stopped (stages s))"
    using assms(2-5) by (intro stopped_update) (auto simp: stopped_def)
  moreover have "owned (owner s) ((stages s)[i := w])"
    using assms by (intro owned_keep) (auto simp: pool_inv_def)
  moreover have "asleep (sleepers s) ((stages s)[i := w])"
    using assms(3) by (intro still_waiting [OF assms(1)]) simp
  ultimately show ?thesis
    using assms(1) by (simp add: pool_inv_def)
qed

lemma worker_keeps_inv:
  assumes "pool_inv s"
  shows "pool_keeps (worker_pool_step i s)"
proof (cases "i < length (stages s)")
  case False
  then show ?thesis
    by (simp add: worker_pool_step_def pool_keeps_def)
next
  case i: True
  have ok: "cok (queue s)"
    using assms by (simp add: pool_inv_def)
  show ?thesis
  proof (cases "stages s ! i")
    case Testing
    show ?thesis
    proof (cases "cheld (queue s)")
      case Nil
      then have "isEmpty (fst (queue s))"
        using cq.vacant_iff [OF ok] by simp
      then show ?thesis
        using i Testing worker_waits_inv [OF assms i Testing Nil]
        by (simp add: worker_pool_step_def pool_keeps_def)
    next
      case (Cons x xs)
      then obtain q where q: "cget (queue s) = Inr (x, q)" "cok q" "cheld q = xs"
        using cq.get_spec [OF ok] by blast
      moreover have "\<not> isEmpty (fst (queue s))"
        using Cons cq.vacant_iff [OF ok] by simp
      ultimately show ?thesis
        using i Testing worker_takes_inv [OF assms i Testing Cons q(2,3)]
        by (simp add: worker_pool_step_def pool_keeps_def)
    qed
  next
    case (Given x)
    then show ?thesis
      using i worker_ends_inv [OF assms i Given, of "if snd x = TERMINATE then Exited else Locking"]
      by (simp add: worker_pool_step_def pool_keeps_def)
  qed (use i worker_locks_inv [OF assms i] in \<open>auto simp: worker_pool_step_def pool_keeps_def\<close>)
qed

lemma pool_step_inv: "pool_step s s' \<Longrightarrow> pool_inv s \<Longrightarrow> pool_inv s'"
  by (erule pool_stepE; insert main_keeps_inv [of s] signal_keeps_inv [of s] handler_keeps_inv [of s]
        worker_keeps_inv [of s]; force simp: pool_keeps_def split: option.splits sum.splits)

lemma pool_reach_inv:
  "pool_step\<^sup>*\<^sup>* s s' \<Longrightarrow> pool_inv s \<Longrightarrow> pool_inv s'"
  by (induction rule: rtranclp_induct) (auto intro: pool_step_inv)

end
