(* ===== verification/PoolRuns.thy ===== *)
theory PoolRuns
  imports Pool
begin

text \<open>
  Runs of the pool of src/server.c and src/proxy.c, and what every run keeps: the order in which
  connections reach the workers, mutual exclusion, wake-ups that are not lost, progress, and the
  orderly end after SIGINT; then the three schedules in which the end is not orderly: the signal
  that arrives while main holds the mutex, the one that arrives between the test of \<open>LOOP\<close> and
  \<open>accept\<close>, and the connection accepted just before the signal.
\<close>

section \<open>Schedules\<close>

text \<open>A run named by who moves; it is \<open>None\<close> where that thread cannot move, or the process ends.\<close>

datatype mover = M_Main | M_Signal | M_Handler | M_Worker nat

fun moves :: "mover \<Rightarrow> pool \<Rightarrow> pool result option" where
  "moves M_Main s = main_step s"
| "moves M_Signal s = catchInterrupt s"
| "moves M_Handler s = handler_step s"
| "moves (M_Worker i) s = worker_pool_step i s"

fun pool_run :: "mover list \<Rightarrow> pool \<Rightarrow> pool option" where
  "pool_run [] s = Some s"
| "pool_run (m # ms) s = (case moves m s of Some (Inr s') \<Rightarrow> pool_run ms s' | _ \<Rightarrow> None)"

lemma moves_step: "moves m s = Some (Inr s') \<Longrightarrow> pool_step s s'"
  by (cases m) (auto intro: pool_step.intros)

lemma pool_run_reaches: "pool_run ms s = Some s' \<Longrightarrow> pool_step\<^sup>*\<^sup>* s s'"
  by (induction ms s rule: pool_run.induct)
    (auto split: option.splits sum.splits intro: moves_step converse_rtranclp_into_rtranclp)

lemma moves_keeps: "pool_inv s \<Longrightarrow> pool_keeps (moves m s)"
  by (cases m) (simp_all add: main_keeps_inv signal_keeps_inv handler_keeps_inv worker_keeps_inv)

lemma reached_inv: "pool_step\<^sup>*\<^sup>* (start_pool n cs gs) s \<Longrightarrow> pool_inv s"
  by (rule pool_reach_inv [OF _ start_pool_inv])

text \<open>The number of workers does not change.\<close>

lemma put_job_frame:
  "put_job x s = Inr s' \<Longrightarrow> stages s' = stages s \<and> owner s' = owner s \<and> handler s' = handler s \<and>
     main_at s' = main_at s \<and> given s' = given s \<and> LOOP s' = LOOP s"
  by (cases "cput x (queue s)") (auto simp: put_job_def)

lemma pool_step_length: "pool_step s s' \<Longrightarrow> length (stages s') = length (stages s)"
proof (erule pool_stepE)
  assume "main_step s = Some (Inr s')"
  then show ?thesis
    by (auto simp: main_step_def result_simps split: if_splits main_stage.splits list.splits arrival.splits
        sum.splits dest!: put_job_frame)
next
  assume "catchInterrupt s = Some (Inr s')"
  then show ?thesis
    by (auto simp: catchInterrupt_def split: if_splits)
next
  assume "handler_step s = Some (Inr s')"
  then show ?thesis
    by (auto simp: handler_step_def result_simps split: if_splits option.splits handler_stage.splits
        sum.splits dest!: put_job_frame)
next
  fix i assume "worker_pool_step i s = Some (Inr s')"
  then show ?thesis
    by (auto simp: worker_pool_step_def result_simps split: if_splits worker_stage.splits sum.splits)
qed

lemma pool_reach_length: "pool_step\<^sup>*\<^sup>* s s' \<Longrightarrow> length (stages s') = length (stages s)"
  by (induction rule: rtranclp_induct) (auto dest: pool_step_length)


section \<open>Towards a worker\<close>

text \<open>The steps in which nothing comes from outside: no client, no signal.\<close>

inductive inner_step :: "pool \<Rightarrow> pool \<Rightarrow> bool" where
  inner_main: "main_step s = Some (Inr s') \<Longrightarrow> main_at s \<noteq> Accepting \<Longrightarrow> inner_step s s'"
| inner_handler: "handler_step s = Some (Inr s') \<Longrightarrow> inner_step s s'"
| inner_worker: "worker_pool_step i s = Some (Inr s') \<Longrightarrow> inner_step s s'"

inductive_cases inner_stepE: "inner_step s s'"

lemma inner_is_step: "inner_step s s' \<Longrightarrow> pool_step s s'"
  by (erule inner_stepE) (blast intro: pool_step.intros)+

lemma inner_reach: "inner_step\<^sup>*\<^sup>* s s' \<Longrightarrow> pool_step\<^sup>*\<^sup>* s s'"
  by (erule rtranclp_mono [THEN predicate2D, rotated]) (blast intro: inner_is_step)

lemma inner_step_inv: "inner_step s s' \<Longrightarrow> pool_inv s \<Longrightarrow> pool_inv s'"
  by (rule pool_step_inv [OF inner_is_step])

lemma inner_reach_inv: "inner_step\<^sup>*\<^sup>* s s' \<Longrightarrow> pool_inv s \<Longrightarrow> pool_inv s'"
  by (rule pool_reach_inv [OF inner_reach])

lemma tester_takes:
  assumes "pool_inv s" and "i < length (stages s)" and "stages s ! i = Testing" and "cheld (queue s) = x # xs"
  shows "\<exists>s'. inner_step s s' \<and> given s' = given s @ [x]"
proof -
  have ok: "cok (queue s)"
    using assms(1) by (simp add: pool_inv_def)
  then obtain q where "cget (queue s) = Inr (x, q)"
    using cq.get_spec assms(4) by blast
  moreover have "\<not> isEmpty (fst (queue s))"
    using assms(4) cq.vacant_iff [OF ok] by simp
  ultimately have "worker_pool_step i s = Some (Inr (s\<lparr>queue := q, owner := None,
      stages := (stages s)[i := Given x], given := given s @ [x]\<rparr>))"
    using assms(2,3) by (simp add: worker_pool_step_def)
  then show ?thesis
    by (intro exI conjI, rule inner_worker) simp_all
qed

lemma locker_takes:
  assumes "pool_inv s" and "i < length (stages s)" and "owner s = None" and "cheld (queue s) = x # xs"
    and "stages s ! i = Locking \<or> stages s ! i = Waiting \<and> i \<notin> set (sleepers s)"
  shows "\<exists>s'. inner_step\<^sup>*\<^sup>* s s' \<and> given s' = given s @ [x]"
proof -
  let ?t = "s\<lparr>stages := (stages s)[i := Testing], owner := Some (Pool_Thread i)\<rparr>"
  have "worker_pool_step i s = Some (Inr ?t)"
    using assms(2,3,5) by (auto simp: worker_pool_step_def)
  then have step: "inner_step s ?t"
    by (rule inner_worker)
  obtain s' where "inner_step ?t s'" "given s' = given ?t @ [x]"
    using tester_takes [OF inner_step_inv [OF step assms(1)], of i x xs] assms(2,4) by auto
  then show ?thesis
    using step by (intro exI [of _ s']) (auto intro: converse_rtranclp_into_rtranclp)
qed

lemma free_mutex_takes:
  assumes "pool_inv s" and "i < length (stages s)" and "owner s = None" and "cheld (queue s) = x # xs"
    and "\<not> stopped (stages s ! i)"
  shows "\<exists>s'. inner_step\<^sup>*\<^sup>* s s' \<and> given s' = given s @ [x]"
proof (cases "stages s ! i")
  case Testing
  then show ?thesis
    using assms(1,2,3) owned_nobody [of "owner s" "stages s" i] by (simp add: pool_inv_def)
next
  case Waiting
  have "\<not> main_holds s"
    using assms(1,3) by (simp add: pool_inv_def)
  then have "\<not> about_to_wake s"
    by (auto simp: main_holds_def about_to_wake_def)
  then have "sleepers s = []"
    using assms(1,4) by (auto simp: pool_inv_def)
  then show ?thesis
    using locker_takes [OF assms(1-4)] Waiting by simp
next
  case (Given y)
  let ?t = "s\<lparr>stages := (stages s)[i := Locking]\<rparr>"
  have "worker_pool_step i s = Some (Inr ?t)"
    using assms(2,5) Given by (simp add: worker_pool_step_def stopped_def)
  then have step: "inner_step s ?t"
    by (rule inner_worker)
  obtain s' where "inner_step\<^sup>*\<^sup>* ?t s'" "given s' = given ?t @ [x]"
    using locker_takes [OF inner_step_inv [OF step assms(1)], of i x xs] assms(2,3,4) by auto
  then show ?thesis
    using step by (intro exI [of _ s']) (auto intro: converse_rtranclp_into_rtranclp)
next
  case Exited
  then show ?thesis
    using assms(5) by (simp add: stopped_def)
qed (use locker_takes [OF assms(1-4)] in simp)

text \<open>The main thread gives the mutex back, unless its handler waits for it.\<close>

definition freed :: "pool \<Rightarrow> pool \<Rightarrow> bool" where
  "freed s s' \<longleftrightarrow> owner s' = None \<and> given s' = given s \<and> stages s' = stages s \<and>
     prefix (cheld (queue s)) (cheld (queue s'))"

definition self_locked :: "pool \<Rightarrow> bool" where
  "self_locked s \<longleftrightarrow> owner s = Some Main_Thread \<and> (\<exists>i. handler s = Some (H_Lock (Suc i)))"

lemma freed_step:
  assumes "inner_step s t" and "\<exists>s'. inner_step\<^sup>*\<^sup>* t s' \<and> freed t s'" and "given t = given s"
    and "stages t = stages s" and "prefix (cheld (queue s)) (cheld (queue t))"
  shows "\<exists>s'. inner_step\<^sup>*\<^sup>* s s' \<and> freed s s'"
  using assms by (auto simp: freed_def intro: converse_rtranclp_into_rtranclp prefix_order.trans)

lemma main_frees:
  assumes "handler s = None" and "cok (queue s)"
    and "(\<exists>x. main_at s = Adding x) \<or> (\<exists>a. main_at s = Added a \<or> main_at s = Unlocking a)"
  shows "\<exists>s'. inner_step\<^sup>*\<^sup>* s s' \<and> freed s s'"
proof -
  have unlock: "\<exists>s'. inner_step\<^sup>*\<^sup>* s s' \<and> freed s s'" if "handler s = None" "main_at s = Unlocking a" for s a
    using that by (intro exI [of _ "s\<lparr>owner := None, main_at := if a = SHARED then Entering else Head\<rparr>"])
      (auto simp: freed_def main_step_def intro!: r_into_rtranclp inner_main)
  have wake: "\<exists>s'. inner_step\<^sup>*\<^sup>* s s' \<and> freed s s'" if "handler s = None" "main_at s = Added a" for s a
  proof -
    let ?t = "s\<lparr>sleepers := [], main_at := Unlocking a\<rparr>"
    have "inner_step s ?t"
      using that by (intro inner_main) (simp_all add: main_step_def)
    moreover have "\<exists>s'. inner_step\<^sup>*\<^sup>* ?t s' \<and> freed ?t s'"
      using that by (intro unlock) simp_all
    ultimately show ?thesis
      by (rule freed_step) simp_all
  qed
  show ?thesis
    using assms(3)
  proof (elim disjE exE)
    fix x assume c: "main_at s = Adding x"
    obtain q where "cput x (queue s) = Inr q"
      and held: "cheld q = (if granted (snd (queue s)) then cheld (queue s) @ [x] else cheld (queue s))"
      using cq.put_spec [OF assms(2)] by blast
    moreover define t where "t = s\<lparr>queue := q, accepted := accepted s @
        (if granted (snd (queue s)) then [x] else []), main_at := Added (snd x)\<rparr>"
    ultimately have "inner_step s t"
      using assms(1) c by (intro inner_main) (simp_all add: main_step_def put_job_def)
    moreover have "\<exists>s'. inner_step\<^sup>*\<^sup>* t s' \<and> freed t s'"
      using assms(1) by (intro wake) (simp_all add: t_def)
    ultimately show ?thesis
      by (rule freed_step) (simp_all add: t_def held)
  qed (erule wake [OF assms(1)], erule unlock [OF assms(1)])
qed

lemma handler_frees:
  assumes "handler s = Some (H_Add i) \<or> handler s = Some (H_Added i) \<or> handler s = Some (H_Unlock i)"
    and "cok (queue s)"
  shows "\<exists>s'. inner_step\<^sup>*\<^sup>* s s' \<and> freed s s'"
proof -
  have unlock: "\<exists>s'. inner_step\<^sup>*\<^sup>* s s' \<and> freed s s'" if "handler s = Some (H_Unlock i)" for s
    using that by (intro exI [of _ "s\<lparr>owner := None, handler := Some (H_Lock i)\<rparr>"])
      (auto simp: freed_def handler_step_def intro!: r_into_rtranclp inner_handler)
  have wake: "\<exists>s'. inner_step\<^sup>*\<^sup>* s s' \<and> freed s s'" if "handler s = Some (H_Added i)" for s
  proof -
    let ?t = "s\<lparr>sleepers := [], handler := Some (H_Unlock i)\<rparr>"
    have "inner_step s ?t"
      using that by (intro inner_handler) (simp add: handler_step_def)
    moreover have "\<exists>s'. inner_step\<^sup>*\<^sup>* ?t s' \<and> freed ?t s'"
      by (rule unlock) simp
    ultimately show ?thesis
      by (rule freed_step) simp_all
  qed
  show ?thesis
    using assms(1)
  proof (elim disjE)
    assume h: "handler s = Some (H_Add i)"
    obtain q where "cput (0, TERMINATE) (queue s) = Inr q"
      and held: "cheld q = (if granted (snd (queue s)) then cheld (queue s) @ [(0, TERMINATE)] else cheld (queue s))"
      using cq.put_spec [OF assms(2)] by blast
    moreover define t where "t = s\<lparr>queue := q, accepted := accepted s @
        (if granted (snd (queue s)) then [(0, TERMINATE)] else []), handler := Some (H_Added i)\<rparr>"
    ultimately have "inner_step s t"
      using h by (intro inner_handler) (simp add: handler_step_def put_job_def)
    moreover have "\<exists>s'. inner_step\<^sup>*\<^sup>* t s' \<and> freed t s'"
      by (rule wake) (simp add: t_def)
    ultimately show ?thesis
      by (rule freed_step) (simp_all add: t_def held)
  qed (erule wake, erule unlock)
qed

lemma main_thread_frees:
  assumes "pool_inv s" and "owner s = Some Main_Thread" and "\<not> self_locked s"
  shows "\<exists>s'. inner_step\<^sup>*\<^sup>* s s' \<and> freed s s'"
proof -
  have ok: "cok (queue s)" and holds: "main_holds s"
    using assms(1,2) by (auto simp: pool_inv_def)
  show ?thesis
  proof (cases "handler s")
    case None
    then show ?thesis
      using main_frees [OF _ ok] holds by (simp add: main_holds_def)
  next
    case (Some h)
    show ?thesis
    proof (cases "h = H_Lock 0")
      case True
      show ?thesis
      proof -
        have "inner_step s (s\<lparr>handler := None\<rparr>)"
          using Some True by (intro inner_handler) (simp add: handler_step_def)
        moreover have "\<exists>s'. inner_step\<^sup>*\<^sup>* (s\<lparr>handler := None\<rparr>) s' \<and> freed (s\<lparr>handler := None\<rparr>) s'"
          using Some True holds ok by (intro main_frees) (simp_all add: main_holds_def)
        ultimately show ?thesis
          by (rule freed_step) simp_all
      qed
    next
      case False
      then obtain i where "h = H_Add i \<or> h = H_Added i \<or> h = H_Unlock i"
        using assms(2,3) Some by (cases h) (auto simp: self_locked_def gr0_conv_Suc)
      then show ?thesis
        using Some by (intro handler_frees [OF _ ok]) auto
    qed
  qed
qed

lemma next_job_given:
  assumes "pool_inv s" and "cheld (queue s) = x # xs" and "i < length (stages s)"
    and "\<not> stopped (stages s ! i)" and "\<not> self_locked s"
  shows "\<exists>s'. inner_step\<^sup>*\<^sup>* s s' \<and> given s' = given s @ [x]"
proof (cases "owner s")
  case None
  then show ?thesis
    using free_mutex_takes assms by blast
next
  case (Some w)
  show ?thesis
  proof (cases w)
    case Main_Thread
    then obtain t where t: "inner_step\<^sup>*\<^sup>* s t" "freed s t"
      using main_thread_frees assms(1,5) Some by blast
    then obtain ys where "cheld (queue t) = x # ys"
      using assms(2) by (auto simp: freed_def prefix_def)
    then obtain s' where "inner_step\<^sup>*\<^sup>* t s'" "given s' = given t @ [x]"
      using free_mutex_takes [OF inner_reach_inv [OF t(1) assms(1)], of i] t(2) assms(3,4) by (auto simp: freed_def)
    then show ?thesis
      using t by (auto simp: freed_def intro: rtranclp_trans)
  next
    case (Pool_Thread j)
    then have "j < length (stages s)" "stages s ! j = Testing"
      using assms(1) Some by (auto simp: pool_inv_def owned_def)
    then show ?thesis
      using tester_takes [OF assms(1)] assms(2) by blast
  qed
qed

section \<open>The end\<close>

lemma self_locked_step:
  assumes "pool_step s s'" and "pool_inv s" and "self_locked s"
  shows "self_locked s' \<and> main_at s' = main_at s \<and> handler s' = handler s \<and> given s' = given s \<and>
    queue s' = queue s"
  using assms(1)
proof (rule pool_stepE)
  fix i assume step: "worker_pool_step i s = Some (Inr s')"
  have "stages s ! i \<noteq> Testing" if "i < length (stages s)"
    using assms(2,3) that owned_nobody by (auto simp: pool_inv_def self_locked_def)
  then show ?thesis
    using step assms(3)
    by (auto simp: worker_pool_step_def self_locked_def split: if_splits worker_stage.splits)
qed (use assms(3) in \<open>auto simp: main_step_def catchInterrupt_def handler_step_def self_locked_def\<close>)

lemma self_locked_reach:
  assumes "pool_step\<^sup>*\<^sup>* s s'" and "pool_inv s" and "self_locked s"
  shows "pool_inv s' \<and> self_locked s' \<and> main_at s' = main_at s \<and> handler s' = handler s \<and>
    given s' = given s \<and> queue s' = queue s"
  using assms(1)
proof (induction rule: rtranclp_induct)
  case (step t u)
  then show ?case
    using self_locked_step [of t u] pool_step_inv [of t u] by simp
qed (use assms in simp)

text \<open>A list with as many tokens as workers ends the last worker behind everything before its tokens.\<close>

lemma stops_append: "stops (xs @ ys) = stops xs + stops ys"
  by (simp add: stops_def)

lemma stopped_all: "length (filter stopped ws) \<le> length ws"
  by simp

lemma all_exited_filter: "list_all (\<lambda>w. w = Exited) ws \<Longrightarrow> filter stopped ws = ws"
  by (induction ws) (simp_all add: stopped_def)

lemma pass_all_stops:
  assumes "gs @ hs = xs @ (c, TERMINATE) # ys" and "stops hs = 0"
  shows "\<exists>zs. gs = xs @ (c, TERMINATE) # zs"
proof (cases "length xs < length gs")
  case True
  then have "take (Suc (length xs)) gs = xs @ [(c, TERMINATE)]"
    using arg_cong [OF assms(1), of "take (Suc (length xs))"] by simp
  then show ?thesis
    using append_take_drop_id [of "Suc (length xs)" gs] by (metis append.assoc append_Cons append_Nil)
next
  case False
  then have "(c, TERMINATE) \<in> set (drop (length gs) (gs @ hs))"
    unfolding assms(1) by simp
  then show ?thesis
    using assms(2) by (auto simp: stops_def filter_empty_conv)
qed

lemma drained:
  assumes "pool_step\<^sup>*\<^sup>* (start_pool n cs gs) s" and "list_all (\<lambda>w. w = Exited) (stages s)"
    and "accepted s = xs @ (c, TERMINATE) # ys"
  shows "(\<exists>zs. given s = xs @ (c, TERMINATE) # zs) \<and> stops (cheld (queue s)) = 0 \<and> stops (given s) = n"
proof -
  have inv: "pool_inv s" and n: "length (stages s) = n"
    using reached_inv pool_reach_length assms by (force simp: start_pool_def)+
  have all: "given s @ cheld (queue s) = accepted s" "stops (accepted s) + turns_left s \<le> n"
    using inv n by (simp_all add: pool_inv_def)
  have "stops (given s) = n"
    using inv n all_exited_filter [OF assms(2)] by (simp add: pool_inv_def)
  moreover have "stops (accepted s) = stops (given s) + stops (cheld (queue s))"
    by (simp add: all(1) [symmetric] stops_append)
  ultimately show ?thesis
    using all assms(3) pass_all_stops [of "given s" "cheld (queue s)" xs c ys] by simp
qed

text \<open>What evaluates a run on concrete data.\<close>

lemmas run_simps = start_pool_def main_step_def worker_pool_step_def catchInterrupt_def handler_step_def
  put_job_def cput_def cget_def addTail_def takeCon_def removeHead_def newConnection_def granted_def asked_def
  isEmpty_def deref_def store_def release_def c_int_def

section \<open>What every run keeps\<close>

text \<open>
  C11: in every interleaving of the accepting thread, the workers, the signal handler and the
  signal, no step of any thread dereferences a null or a dangling pointer of the connection list
  (the only abnormal end is the exit after a failed accept), and the connections given to the
  workers are, in order and each to one worker, those that the list accepted, the rest being held.
\<close>

theorem pool_safe:
  assumes "pool_step\<^sup>*\<^sup>* (start_pool n cs gs) s"
  shows "given s @ cheld (queue s) = accepted s \<and>
    (\<forall>m e. moves m s = Some (Inl e) \<longrightarrow> e = Exit_With SOCKET_FAILURE)"
proof -
  have inv: "pool_inv s"
    by (rule reached_inv [OF assms])
  then have "e = Exit_With SOCKET_FAILURE" if "moves m s = Some (Inl e)" for m e
    using moves_keeps [OF inv, of m] that by (simp add: pool_keeps_def)
  then show ?thesis
    using inv by (auto simp: pool_inv_def)
qed

theorem pool_safe_witness:
  "\<exists>s. pool_run [M_Main, M_Main, M_Main, M_Main, M_Worker 0, M_Worker 0, M_Main, M_Main, M_Main, M_Main, M_Worker 0]
       (start_pool 1 [Client 7] []) = Some s \<and> given s @ cheld (queue s) = accepted s \<and> accepted s = [(7, PROCESS)]"
proof -
  let ?ms = "[M_Main, M_Main, M_Main, M_Main, M_Worker 0, M_Worker 0, M_Main, M_Main, M_Main, M_Main, M_Worker 0]"
  obtain s where s: "pool_run ?ms (start_pool 1 [Client 7] []) = Some s" "accepted s = [(7, PROCESS)]"
    by (simp add: run_simps)
  then show ?thesis
    using pool_safe [OF pool_run_reaches [OF s(1)]] by blast
qed

text \<open>
  C14: the mutex excludes: at most one worker is between taking the mutex and giving it back, and
  while one is, neither main nor its signal handler is inside its own critical section; and a
  worker sleeps on the condition variable only while the list is empty or the broadcast that wakes
  it is the next thing the mutex holder does, so no wake-up is lost.
\<close>

theorem pool_exclusion:
  assumes "pool_step\<^sup>*\<^sup>* (start_pool n cs gs) s"
  shows "(\<forall>i < n. \<forall>j < n. stages s ! i = Testing \<and> stages s ! j = Testing \<longrightarrow> i = j) \<and>
    (\<forall>i < n. stages s ! i = Testing \<longrightarrow> \<not> main_holds s) \<and>
    (sleepers s \<noteq> [] \<longrightarrow> cheld (queue s) = [] \<or> about_to_wake s)"
proof -
  have inv: "pool_inv s" and n: "length (stages s) = n"
    using reached_inv pool_reach_length assms by (force simp: start_pool_def)+
  then show ?thesis
    using tester(2,4) [OF inv] by (auto simp: pool_inv_def)
qed

theorem pool_exclusion_witness:
  "\<exists>s. pool_run [M_Worker 1] (start_pool 2 [] []) = Some s \<and> stages s ! 1 = Testing \<and> \<not> main_holds s"
proof -
  obtain s where s: "pool_run [M_Worker 1] (start_pool 2 [] []) = Some s" "stages s ! 1 = Testing"
    by (simp add: run_simps)
  then show ?thesis
    using pool_exclusion [OF pool_run_reaches [OF s(1)]] by auto
qed

text \<open>
  C36: SIGINT while main holds the mutex (between its lock and its unlock around addTail) stops the
  server for good: the handler runs on main's thread and locks the same non-recursive mutex, and
  from then on, whatever the other threads do, main stays where it was, nothing more is put on the
  list or taken from it, and the mutex is never free.
\<close>

theorem pool_self_deadlock:
  assumes "pool_step\<^sup>*\<^sup>* (start_pool n cs gs) s" and "owner s = Some Main_Thread"
    and "handler s = Some (H_Lock (Suc i))" and "pool_step\<^sup>*\<^sup>* s t"
  shows "main_at t = main_at s \<and> owner t = Some Main_Thread \<and> handler t = handler s \<and>
    given t = given s \<and> queue t = queue s"
  using self_locked_reach [OF assms(4) reached_inv [OF assms(1)]] assms(2,3) by (auto simp: self_locked_def)

theorem pool_self_deadlock_witness:
  "\<exists>s. pool_run [M_Main, M_Main, M_Main, M_Main, M_Main, M_Signal] (start_pool 1 [Client 7] []) = Some s \<and>
     (\<forall>t. pool_step\<^sup>*\<^sup>* s t \<longrightarrow> main_at t = Adding (7, PROCESS) \<and> owner t = Some Main_Thread \<and> given t = [])"
proof -
  obtain s where s: "pool_run [M_Main, M_Main, M_Main, M_Main, M_Main, M_Signal] (start_pool 1 [Client 7] []) = Some s"
    and at: "owner s = Some Main_Thread" "handler s = Some (H_Lock (Suc 0))" "main_at s = Adding (7, PROCESS)" "given s = []"
    by (simp add: run_simps)
  have "main_at t = Adding (7, PROCESS) \<and> owner t = Some Main_Thread \<and> given t = []" if "pool_step\<^sup>*\<^sup>* s t" for t
    using pool_self_deadlock [OF pool_run_reaches [OF s] at(1,2) that] at(3,4) by simp
  then show ?thesis
    using s by blast
qed

text \<open>
  A signal between the loop's test of LOOP and accept does not end the server: with one worker
  and no further client there is a run to a state in which the worker has ended and LOOP is false,
  yet main is inside a blocking accept, and nothing can happen but another SIGINT, which interrupts
  the accept although the handler has been told to ignore it.
\<close>

theorem pool_missed_signal:
  "\<exists>s. pool_step\<^sup>*\<^sup>* (start_pool 1 [] []) s \<and> stages s = [Exited] \<and> \<not> LOOP s \<and> main_at s = Accepting \<and>
     {s'. pool_step s s'} = {s\<lparr>eintr := True\<rparr>}"
proof -
  let ?ms = "[M_Main, M_Signal, M_Handler, M_Handler, M_Handler, M_Handler, M_Handler,
      M_Worker 0, M_Worker 0, M_Worker 0, M_Main, M_Main]"
  obtain s where s: "pool_run ?ms (start_pool 1 [] []) = Some s"
    and at: "stages s = [Exited]" "\<not> LOOP s" "main_at s = Accepting" "handler s = None" "eintr s = False" "incoming s = []"
    by (simp add: run_simps)
  have "s' = s\<lparr>eintr := True\<rparr>" if "pool_step s s'" for s'
    using that
  proof (rule pool_stepE)
    fix i assume "worker_pool_step i s = Some (Inr s')"
    then show ?thesis
      using at by (cases i) (simp_all add: worker_pool_step_def)
  qed (use at in \<open>auto simp: main_step_def catchInterrupt_def handler_step_def\<close>)
  moreover have "pool_step s (s\<lparr>eintr := True\<rparr>)"
    using at by (intro by_signal) (simp add: catchInterrupt_def)
  ultimately have "{s'. pool_step s s'} = {s\<lparr>eintr := True\<rparr>}"
    by blast
  then show ?thesis
    using at pool_run_reaches [OF s] by blast
qed

text \<open>
  C37: the last client can be lost: a connection that accept has returned when the signal comes is
  put on the list behind the termination tokens; the workers end without it, and main finishes with
  the connection still on the list, neither answered nor closed.
\<close>

theorem pool_last_client_lost:
  "\<exists>s. pool_step\<^sup>*\<^sup>* (start_pool 1 [Client c] []) s \<and> main_at s = Finished \<and>
     given s = [(0, TERMINATE)] \<and> cheld (queue s) = [(c, PROCESS)]"
proof -
  let ?ms = "[M_Main, M_Main, M_Main, M_Main, M_Signal, M_Handler, M_Handler, M_Handler, M_Handler, M_Handler,
      M_Worker 0, M_Worker 0, M_Worker 0, M_Main, M_Main, M_Main, M_Main, M_Main, M_Main]"
  obtain s where s: "pool_run ?ms (start_pool 1 [Client c] []) = Some s"
    and at: "main_at s = Finished" "given s = [(0, TERMINATE)]" "cheld (queue s) = [(c, PROCESS)]"
    by (simp add: run_simps cheld_def items_def walk.simps vals_def)
  then show ?thesis
    using pool_run_reaches [OF s] by blast
qed

end
