(* ===== verification/PoolView.thy ===== *)
theory PoolView
  imports PoolRuns
begin

text \<open>
  What is seen of the pool by those whose work it hands out: the jobs of one kind that it gave to the
  workers, those on the list, those in the hands of main, and which worker has one. The sockets'
  clients look at it in ServerRun.thy, the requests of shared memory in ServerShared.thy.
\<close>

section \<open>The jobs of a kind\<close>

definition of_kind :: "instruction \<Rightarrow> (int \<times> instruction) list \<Rightarrow> int list" where
  "of_kind a xs = map fst (filter (\<lambda>x. snd x = a) xs)"

definition hand :: "instruction \<Rightarrow> pool \<Rightarrow> int list" where
  "hand a p = (case main_at p of Got x \<Rightarrow> of_kind a [x] | Adding x \<Rightarrow> of_kind a [x] | _ \<Rightarrow> [])"

definition job_of :: "instruction \<Rightarrow> worker_stage \<Rightarrow> int option" where
  "job_of a w = (case w of Given (c, b) \<Rightarrow> if b = a then Some c else None | _ \<Rightarrow> None)"

definition seen_of :: "instruction \<Rightarrow> pool \<Rightarrow> int list \<times> int list \<times> int option list \<times> int list" where
  "seen_of a p = (of_kind a (given p), of_kind a (cheld (queue p)), map (job_of a) (stages p), hand a p)"

text \<open>The clients of the sockets.\<close>

abbreviation procs :: "(int \<times> instruction) list \<Rightarrow> int list" where
  "procs \<equiv> of_kind PROCESS"

abbreviation client_of :: "worker_stage \<Rightarrow> int option" where
  "client_of \<equiv> job_of PROCESS"

abbreviation seen :: "pool \<Rightarrow> int list \<times> int list \<times> int option list \<times> int list" where
  "seen \<equiv> seen_of PROCESS"

lemma of_kind_simps [simp]:
  "of_kind a [] = []" "of_kind a (xs @ ys) = of_kind a xs @ of_kind a ys"
  "of_kind a (x # xs) = (if snd x = a then [fst x] else []) @ of_kind a xs"
  by (simp_all add: of_kind_def)

lemma hand_simps [simp]:
  "main_at p = main_stage.Got x \<Longrightarrow> hand a p = of_kind a [x]" "main_at p = Adding x \<Longrightarrow> hand a p = of_kind a [x]"
  "main_at p = Accepting \<Longrightarrow> hand a p = []" "main_at p = Added b \<Longrightarrow> hand a p = []"
  by (simp_all add: hand_def)

section \<open>What each step shows\<close>

lemma signal_seen: "catchInterrupt p = Some (Inr p') \<Longrightarrow> seen_of a p' = seen_of a p"
  by (auto simp: catchInterrupt_def seen_of_def hand_def split: if_splits)

lemma handler_seen:
  assumes "handler_step p = Some (Inr p')" and "pool_inv p" and "a \<noteq> TERMINATE"
  shows "seen_of a p' = seen_of a p"
proof (cases "handler p")
  case (Some h)
  show ?thesis
  proof (cases h)
    case (H_Add i)
    obtain q where "put_job (0, TERMINATE) p = Inr (p\<lparr>queue := q,
        accepted := accepted p @ (if granted (snd (queue p)) then [(0, TERMINATE)] else [])\<rparr>)"
      "cheld q = cheld (queue p) @ (if granted (snd (queue p)) then [(0, TERMINATE)] else [])"
      using put_job_inv [OF assms(2)] by blast
    then show ?thesis
      using assms(1,3) Some H_Add by (auto simp: handler_step_def seen_of_def hand_def)
  qed (use assms(1) Some in \<open>auto simp: handler_step_def seen_of_def hand_def split: if_splits\<close>)
qed (use assms(1) in \<open>simp add: handler_step_def\<close>)

text \<open>The main thread: what it accepts, what it hands over, and nothing else.\<close>

lemma accept_seen:
  assumes "main_step p = Some (Inr p')" and "main_at p = Accepting"
  shows "(\<exists>c. main_at p' = main_stage.Got (c, PROCESS) \<and>
      seen_of a p' = (of_kind a (given p), of_kind a (cheld (queue p)), map (job_of a) (stages p), of_kind a [(c, PROCESS)]))
    \<or> (\<nexists>x. main_at p' = main_stage.Got x) \<and> seen_of a p' = seen_of a p"
  using assms by (auto simp: main_step_def seen_of_def hand_def split: if_splits list.splits arrival.splits)

lemma adding_seen:
  assumes "main_step p = Some (Inr p')" and "main_at p = Adding x" and "pool_inv p"
  shows "seen_of a p' = (of_kind a (given p),
    of_kind a (cheld (queue p)) @ (if granted (snd (queue p)) then of_kind a [x] else []), map (job_of a) (stages p), [])"
proof -
  obtain q where "put_job x p = Inr (p\<lparr>queue := q,
      accepted := accepted p @ (if granted (snd (queue p)) then [x] else [])\<rparr>)"
    "cheld q = cheld (queue p) @ (if granted (snd (queue p)) then [x] else [])"
    using put_job_inv [OF assms(3)] by blast
  then show ?thesis
    using assms(1,2) by (auto simp: main_step_def seen_of_def split: if_splits)
qed

lemma main_seen:
  assumes "main_step p = Some (Inr p')" and "main_at p \<noteq> Accepting" and "\<nexists>x. main_at p = Adding x"
    and "a = SHARED \<Longrightarrow> main_at p \<noteq> Polling"
  shows "seen_of a p' = seen_of a p"
  using assms by (cases "main_at p")
    (auto simp: main_step_def seen_of_def hand_def split: if_splits list.splits arrival.splits)

text \<open>A worker: what it takes, and that it is without a job again.\<close>

lemma worker_takes_seen:
  assumes "worker_pool_step i p = Some (Inr p')" and "pool_inv p" and "job_of a (stages p ! i) = None"
  shows "seen_of a p' = seen_of a p \<or> (\<exists>c q. i < length (stages p) \<and> of_kind a (cheld (queue p)) = c # q \<and>
    seen_of a p' = (of_kind a (given p) @ [c], q, (map (job_of a) (stages p))[i := Some c], hand a p))"
proof (cases "i < length (stages p) \<and> stages p ! i = Testing \<and> \<not> isEmpty (fst (queue p))")
  case True
  have ok: "cok (queue p)"
    using assms(2) by (simp add: pool_inv_def)
  then obtain x xs where held: "cheld (queue p) = x # xs"
    using True cq.vacant_iff by (cases "cheld (queue p)") auto
  then obtain q where q: "cget (queue p) = Inr (x, q)" "cheld q = xs"
    using cq.get_spec [OF ok] by blast
  have p': "p' = p\<lparr>queue := q, owner := None, stages := (stages p)[i := Given x], given := given p @ [x]\<rparr>"
    using assms(1) True q(1) by (simp add: worker_pool_step_def)
  have same: "(map (job_of a) (stages p))[i := None] = map (job_of a) (stages p)"
    using True assms(3) by (metis list_update_id nth_map)
  show ?thesis
    using True held q(2) same
    by (cases x) (simp add: p' seen_of_def hand_def map_update job_of_def)
next
  case False
  have same: "map (job_of a) ((stages p)[i := w]) = map (job_of a) (stages p)" if "job_of a w = None" for w
    using assms(3) that by (metis list_update_beyond list_update_id map_update nth_map not_less length_map)
  have "seen_of a p' = seen_of a p"
    using assms(1,3) False same
    by (cases "stages p ! i") (auto simp: worker_pool_step_def seen_of_def hand_def job_of_def split: if_splits)
  then show ?thesis
    by simp
qed

lemma worker_returns_seen:
  assumes "worker_pool_step i p = Some (Inr p')" and "job_of a (stages p ! i) = Some c"
  shows "seen_of a p' = (of_kind a (given p), of_kind a (cheld (queue p)), (map (job_of a) (stages p))[i := None], hand a p)"
  using assms
  by (cases "stages p ! i") (auto simp: worker_pool_step_def seen_of_def hand_def map_update job_of_def split: if_splits)

end
