(* ===== verification/Files.thy ===== *)
theory Files
  imports Serve
begin

text \<open>
  What a request gets from \<open>checkAndSend\<close> of src/server.c: one complete answer whatever its bytes,
  nothing of the file system outside the document directory, the bytes of a file with their number,
  and for a directory the redirection, its index file or a listing of all its names.
\<close>

section \<open>The bytes in front of the name\<close>

text \<open>
  The comparison with the last three bytes reads in front of a short name; what stands there never
  decides anything, because such a name cannot be completed to the three bytes that are refused.
\<close>

lemma forbidden_junk:
  assumes "file \<noteq> []" and "root \<longrightarrow> file = ''./''"
  shows "forbidden junk root file = forbidden junk' root file"
proof (cases "3 \<le> length file")
  case True
  then have "drop (length file - 1) (bytes_before j root @ file) = drop (length file - 3) file" for j
    by (simp add: bytes_before_def numeral_3_eq_3)
  then show ?thesis
    by (simp add: forbidden_def)
next
  case False
  then consider c where "file = [c]" | c d where "file = [c, d]"
    using assms(1) by (cases "file"; cases "tl file"; cases "tl (tl file)") auto
  then show ?thesis
    using assms(2) by cases (auto simp: forbidden_def bytes_before_def)
qed

lemma parse_request_junk: "parse_request junk line = parse_request junk' line"
proof -
  have "forbidden junk (n = []) (if n = [] then ''./'' else n) = forbidden junk' (n = []) (if n = [] then ''./'' else n)" for n
    by (rule forbidden_junk) auto
  then show ?thesis
    unfolding parse_request_def Let_def by presburger
qed

lemma checkAndSend_junk: "checkAndSend fs al junk line = checkAndSend fs al junk' line"
  using parse_request_junk [of junk line junk'] by (simp add: checkAndSend_def)

section \<open>Answers are complete\<close>

definition full_answer :: "buffer \<times> buffer \<Rightarrow> bool" where
  "full_answer r \<longleftrightarrow> (\<exists>status title headers mime. status \<in> {200, 302, 400, 403, 404, 500, 501} \<and>
     fst r = response_header status title headers (int (length (snd r))) mime)"

lemma sendError_full:
  assumes "status \<in> {200, 302, 400, 403, 404, 500, 501}"
  shows "\<exists>r. sendError status title headers text = Inr r \<and> full_answer r"
  using assms unfolding full_answer_def sendError_def response_def Let_def by fastforce

lemma response_full:
  assumes "int (length body) = len"
  shows "\<exists>r. response 200 title headers mime len body = Inr r \<and> full_answer r"
  using assms unfolding full_answer_def response_def by fastforce

lemma serve_file_full:
  assumes "fs_ok fs" and "fstat fs file = Some (d, n)"
  shows "\<exists>r. serve_file fs file n = Inr r \<and> full_answer r"
proof (cases "fileContents fs file n")
  case None
  then show ?thesis
    using sendError_full by (simp add: serve_file_def)
next
  case (Some b)
  then have "int (length b) = n"
    using assms by (auto simp: fileContents_def fs_ok_def split: if_splits)
  then show ?thesis
    using Some response_full by (simp add: serve_file_def)
qed

lemma serve_dir_full:
  assumes "fs_ok fs" and "ample al"
  shows "\<exists>r. serve_dir fs al path file = Inr r \<and> full_answer r"
proof (cases "last file = CHR ''/''")
  case True
  let ?idx = "snprintf 9999 (file @ ''index.html'')"
  obtain t where page: "listing_page al file names = Inr (Some (t names), int (length (t names)))" for names
    using listing_page_counts [OF assms(2)] by metis
  show ?thesis
    using True serve_file_full [OF assms(1), of ?idx] sendError_full response_full page
    by (cases "fstat fs ?idx"; cases "listing fs file") (auto simp: serve_dir_def Let_def)
next
  case False
  then show ?thesis
    unfolding serve_dir_def by (simp only: if_True simp_thms, intro sendError_full) simp
qed

lemma parse_request_status:
  assumes "parse_request junk line = Inr (Refuse status title text)"
  shows "status \<in> {400, 501}"
proof -
  obtain l where l: "c_string line = Inr l"
    using assms by (cases "c_string line") (auto simp: parse_request_def)
  obtain ws where ws: "sscanf_words 3 l = Inr ws"
    using assms l by (cases "sscanf_words 3 l") (auto simp: parse_request_def)
  show ?thesis
  proof (cases "\<exists>m t p. ws = [m, t, p]")
    case True
    then obtain m t p where w: "ws = [m, t, p]"
      by blast
    show ?thesis
      using assms l ws w
      by (cases "strDecode (tl t @ [NUL])") (auto simp: parse_request_def Let_def split: if_split_asm)
  next
    case False
    then show ?thesis
      using assms l ws by (auto simp: parse_request_def split: list.split_asm)
  qed
qed

text \<open>Every request that fits the arrays gets its answer.\<close>

lemma answered_whole:
  assumes "fs_ok fs" and "ample al" and "NUL \<in> set line" and "length (cstr line) < 10000"
  shows "\<exists>r. checkAndSend fs al junk line = Inr r \<and> full_answer r"
proof -
  obtain v where v: "parse_request junk line = Inr v"
    using parse_request_returns [OF assms(3,4), of junk] by (auto simp: returns_def)
  show ?thesis
  proof (cases v)
    case (Refuse status title msg)
    then show ?thesis
      using v parse_request_status [of junk line status title msg] sendError_full [of status title None msg]
      by (auto simp: checkAndSend_def answer_def)
  next
    case (Serve path name)
    then show ?thesis
      using v serve_file_full [OF assms(1), of name] serve_dir_full [OF assms(1,2), of path name]
        sendError_full [of 404]
      by (cases "fstat fs name") (auto simp: checkAndSend_def answer_def split: bool.split)
  qed
qed

section \<open>Listings\<close>

text \<open>The text of a name in a listing: a link, unless the name holds the server's own.\<close>

definition entry_text :: "string \<Rightarrow> string" where
  "entry_text d = (if strstr d SERVER_NAME \<noteq> None then d else butlast (link_text d))"

lemma appendStr_entry: "ample al \<Longrightarrow> appendStr al (Some s) d = Some (s @ entry_text d)"
  using appendStr_raw appendStr_link by (simp add: entry_text_def)

lemma listing_loop_text:
  assumes "ample al"
  shows "listing_loop al names (Some s) (int (length s)) =
    Inr (Some (s @ concat (map entry_text names)), int (length (s @ concat (map entry_text names))))"
proof (induction names arbitrary: s)
  case (Cons d dl)
  then show ?case
    using Cons.IH [of "s @ entry_text d"] appendStr_entry [OF assms, of s d] by simp
qed simp

definition listing_text :: "string \<Rightarrow> string list \<Rightarrow> string" where
  "listing_text file names = listing_head file @ concat (map entry_text names) @ listing_foot"

lemma listing_page_text:
  assumes "ample al"
  shows "listing_page al file names = Inr (Some (listing_text file names), int (length (listing_text file names)))"
  using assms listing_loop_text [OF assms, of names "listing_head file"] listing_foot_name
  by (simp add: listing_page_def listing_text_def Let_def appendStr_first appendStr_raw)

section \<open>Properties\<close>

text \<open>A request for a name, percent-encoded or not, that is not refused.\<close>

definition requests :: "buffer \<Rightarrow> char \<times> char \<Rightarrow> string \<Rightarrow> bool" where
  "requests line junk f \<longleftrightarrow> (\<exists>tgt p. c_string line = Inr (''GET /'' @ tgt @ SP # p) \<and> p \<noteq> [] \<and>
     \<not> isspace (hd p) \<and> length p < 10000 \<and> SP \<notin> set tgt \<and> NUL \<notin> set tgt \<and> length tgt < 9999 \<and>
     cstr (decode tgt) = f \<and> f \<noteq> [] \<and> \<not> forbidden junk False f)"

lemma requests_parsed: "requests line junk f \<Longrightarrow> parse_request junk line = Inr (Serve (CHR ''/'' # f) f)"
  unfolding requests_def by (auto simp: parse_request_get Let_def)

text \<open>
  C12: nothing outside the document directory can be learned: the answer to any request, over either
  transport, is the same for two file systems that agree on the relative names without a component
  that goes up; nor does it depend on the bytes of the stack that the check of a short name reads.
\<close>

theorem confined:
  assumes "same_inside fs fs'" and "fs_ok fs"
  shows "checkAndSend fs al junk line = checkAndSend fs' al junk' line \<and>
    checkAndSend_socket fs al junk c = checkAndSend_socket fs' al junk' c"
proof -
  have "checkAndSend fs al junk = checkAndSend fs' al junk'"
    using checkAndSend_same_inside [OF assms] checkAndSend_junk by (intro ext) metis
  then show ?thesis
    unfolding checkAndSend_socket_def by presburger
qed

text \<open>A file system whose document directory is empty, with a file beside it or not.\<close>

definition beside :: "buffer option \<Rightarrow> filesystem" where
  "beside secret = \<lparr>fstat = \<lambda>n. if n = ''../s'' then map_option (\<lambda>b. (False, int (length b))) secret else None,
     readable = \<lambda>n. if n = ''../s'' then secret else None, listing = \<lambda>n. None\<rparr>"

lemma beside_same: "same_inside (beside a) (beside b)"
proof -
  have "\<not> inside ''../s''"
    by (simp add: inside_def)
  then show ?thesis
    by (auto simp: same_inside_def beside_def)
qed

theorem confined_witness:
  "checkAndSend (beside (Some ''secret'')) (\<lambda>n. True) (NUL, NUL) (''GET /../s HTTP/1.0'' @ [NUL]) =
     checkAndSend (beside None) (\<lambda>n. True) (CHR ''.'', CHR ''/'') (''GET /../s HTTP/1.0'' @ [NUL]) \<and>
   readable (beside (Some ''secret'')) ''../s'' \<noteq> readable (beside None) ''../s''"
proof -
  have "fs_ok (beside (Some ''secret''))"
    by (auto simp: fs_ok_def beside_def)
  then have "checkAndSend (beside (Some ''secret'')) (\<lambda>n. True) (NUL, NUL) (''GET /../s HTTP/1.0'' @ [NUL]) =
      checkAndSend (beside None) (\<lambda>n. True) (CHR ''.'', CHR ''/'') (''GET /../s HTTP/1.0'' @ [NUL])"
    using confined [OF beside_same] by blast
  then show ?thesis
    by (simp add: beside_def)
qed

text \<open>
  C13: every request that fits the server's arrays gets exactly one answer, and no error: a header with
  one of seven status codes that announces as many bytes as the body has.
\<close>

theorem request_answered:
  assumes "fs_ok fs" and "ample al" and "NUL \<in> set line" and "length (cstr line) < 10000"
  shows "\<exists>r. checkAndSend fs al junk line = Inr r \<and> full_answer r"
  by (rule answered_whole [OF assms])

theorem request_answered_witness:
  "\<exists>r. checkAndSend (beside (Some ''secret'')) (\<lambda>n. 0 \<le> n) (NUL, NUL) (''PUT'' @ replicate 9000 SP @ [NUL]) = Inr r \<and>
     full_answer r"
proof -
  have "fs_ok (beside (Some ''secret''))"
    by (auto simp: fs_ok_def beside_def)
  then show ?thesis
    by (rule request_answered [OF _ ample_nonneg]) (simp_all add: cstr_append)
qed

text \<open>
  C18: a flat file is served as it is: the answer to a request for its name, escaped or not, is the
  status 200, the file's length as the content's length, the type of its extension, and its bytes;
  only an empty file is refused, because no bytes cannot be mapped.
\<close>

theorem file_served:
  assumes "requests line junk f" and "fstat fs f = Some (False, int (length b))" and "readable fs f = Some b"
  shows "checkAndSend fs al junk line =
    (if b = [] then protected
     else Inr (response_header 200 ''OK'' None (int (length b)) (contentType f), b))"
  using assms(2,3) requests_parsed [OF assms(1)] serve_file_content [OF assms(3)] serve_file_empty [of fs f]
  by (simp add: checkAndSend_def answer_def)

definition picture :: "buffer \<Rightarrow> filesystem" where
  "picture b = \<lparr>fstat = \<lambda>n. if n = ''a b.jpg'' then Some (False, int (length b)) else None,
     readable = \<lambda>n. if n = ''a b.jpg'' then Some b else None, listing = \<lambda>n. None\<rparr>"

lemma picture_requested: "requests (''GET /a%20b.jpg HTTP/1.0'' @ [NUL]) (NUL, NUL) ''a b.jpg''"
  unfolding requests_def
  by (rule exI [of _ "''a%20b.jpg''"], rule exI [of _ "''HTTP/1.0''"])
    (simp add: c_string_def isspace_def less_eq_char_def isxdigit_def isdigit_def hexit_def forbidden_def
      bytes_before_def strstr_def char_of_def bit_iff_odd)

theorem file_served_witness:
  "checkAndSend (picture ''JFIF'') (\<lambda>n. 0 \<le> n) (NUL, NUL) (''GET /a%20b.jpg HTTP/1.0'' @ [NUL]) =
     Inr (response_header 200 ''OK'' None 4 ''image/jpeg'', ''JFIF'') \<and>
   checkAndSend (picture []) (\<lambda>n. 0 \<le> n) (NUL, NUL) (''GET /a%20b.jpg HTTP/1.0'' @ [NUL]) = protected"
proof -
  have "contentType ''a b.jpg'' = ''image/jpeg''"
    using contentType_extension [of "''jpg''" "''a b''"] by (simp add: mime_of_def mime_table_def)
  then show ?thesis
    using file_served [OF picture_requested, of "picture ''JFIF''" "''JFIF''"]
      file_served [OF picture_requested, of "picture []" "[]"]
    by (simp add: picture_def)
qed

text \<open>
  C19: a directory is redirected to when its name lacks the final slash, answered by its index file
  when it has one, and otherwise listed: the page has one entry for every name, in their order, and
  its announced length is the length of the page.
\<close>

theorem directory_served:
  assumes "requests line junk f" and "fstat fs f = Some (True, n)" and "length f < 4096" and "ample al"
  shows "(last f \<noteq> CHR ''/'' \<longrightarrow> checkAndSend fs al junk line =
      sendError 302 ''Found'' (Some (''Location: /'' @ f @ ''/'' @ EOL)) (''Directories must end with a slash.'' @ [LF])) \<and>
    (last f = CHR ''/'' \<and> fstat fs (f @ ''index.html'') = Some (d, int (length b)) \<and>
       readable fs (f @ ''index.html'') = Some b \<and> b \<noteq> [] \<longrightarrow>
     checkAndSend fs al junk line =
       Inr (response_header 200 ''OK'' None (int (length b)) (contentType (f @ ''index.html'')), b)) \<and>
    (last f = CHR ''/'' \<and> fstat fs (f @ ''index.html'') = None \<and> listing fs f = Some names \<longrightarrow>
     checkAndSend fs al junk line =
       Inr (response_header 200 ''OK'' None (int (length (listing_text f names))) ''text/html'', listing_text f names))"
proof -
  have c: "checkAndSend fs al junk line = serve_dir fs al (CHR ''/'' # f) f"
    using requests_parsed [OF assms(1)] assms(2) by (simp add: checkAndSend_def answer_def)
  have idx: "snprintf 9999 (f @ ''index.html'') = f @ ''index.html''"
    "snprintf 9999 (''Location: '' @ (CHR ''/'' # f) @ ''/'' @ EOL) = ''Location: /'' @ f @ ''/'' @ EOL"
    using assms(3) by (simp_all add: EOL_def)
  show ?thesis
    unfolding c serve_dir_def idx Let_def using listing_page_text [OF assms(4), of f names]
    by (auto simp: serve_file_content response_def)
qed

definition folder :: "bool \<Rightarrow> filesystem" where
  "folder index = \<lparr>fstat = \<lambda>n. if n \<in> {''d'', ''d/''} then Some (True, 0)
       else if index \<and> n = ''d/index.html'' then Some (False, 2) else None,
     readable = \<lambda>n. if index \<and> n = ''d/index.html'' then Some ''hi'' else None,
     listing = \<lambda>n. if n = ''d/'' then Some [''.'', ''..'', ''x''] else None\<rparr>"

lemma folder_requested:
  "requests (''GET /d HTTP/1.0'' @ [NUL]) (NUL, NUL) ''d''"
  "requests (''GET /d/ HTTP/1.0'' @ [NUL]) (NUL, NUL) ''d/''"
  unfolding requests_def
  by (rule exI [of _ "''d''"] exI [of _ "''d/''"], rule exI [of _ "''HTTP/1.0''"],
    simp add: c_string_def isspace_def less_eq_char_def forbidden_def bytes_before_def strstr_def)+

theorem directory_served_witness:
  "checkAndSend (folder False) (\<lambda>n. 0 \<le> n) (NUL, NUL) (''GET /d HTTP/1.0'' @ [NUL]) =
     sendError 302 ''Found'' (Some (''Location: /d/'' @ EOL)) (''Directories must end with a slash.'' @ [LF]) \<and>
   (\<exists>h. checkAndSend (folder True) (\<lambda>n. 0 \<le> n) (NUL, NUL) (''GET /d/ HTTP/1.0'' @ [NUL]) = Inr (h, ''hi'')) \<and>
   (\<exists>h. checkAndSend (folder False) (\<lambda>n. 0 \<le> n) (NUL, NUL) (''GET /d/ HTTP/1.0'' @ [NUL]) =
     Inr (h, listing_text ''d/'' [''.'', ''..'', ''x'']))"
proof -
  have "checkAndSend (folder False) (\<lambda>n. 0 \<le> n) (NUL, NUL) (''GET /d HTTP/1.0'' @ [NUL]) =
     sendError 302 ''Found'' (Some (''Location: /d/'' @ EOL)) (''Directories must end with a slash.'' @ [LF])"
    using directory_served [OF folder_requested(1) _ _ ample_nonneg, of "folder False" 0]
    by (auto simp: folder_def)
  moreover have "\<exists>h. checkAndSend (folder True) (\<lambda>n. 0 \<le> n) (NUL, NUL) (''GET /d/ HTTP/1.0'' @ [NUL]) = Inr (h, ''hi'')"
    using directory_served [OF folder_requested(2) _ _ ample_nonneg, of "folder True" 0 False "''hi''"]
    by (auto simp: folder_def)
  moreover have "\<exists>h. checkAndSend (folder False) (\<lambda>n. 0 \<le> n) (NUL, NUL) (''GET /d/ HTTP/1.0'' @ [NUL]) =
     Inr (h, listing_text ''d/'' [''.'', ''..'', ''x''])"
    using directory_served [OF folder_requested(2) _ _ ample_nonneg, of "folder False" 0 False "[]" "[''.'', ''..'', ''x'']"]
    by (auto simp: folder_def)
  ultimately show ?thesis
    by blast
qed

end
