(* ===== verification/Wire.thy ===== *)
theory Wire
  imports Response Shared
begin

text \<open>
  What a message is on its way: received up to the first empty line however it arrives, sent whole or
  reported as failed, and, put together, received as it was sent (src/headers/recvAll.c,
  src/functions/sendAll.c and sendResponse.c); and one segment of it in the shared memory
  (src/headers/memList.c and src/functions/processShared.c).
\<close>

section \<open>Any header\<close>

text \<open>Where the first empty line of a text ends.\<close>

definition first_blank :: "string \<Rightarrow> nat option" where
  "first_blank s = List.find (\<lambda>k. ends_blank (take k s)) [0 ..< Suc (length s)]"

lemma not_blank_Nil: "\<not> ends_blank []"
  by (simp add: ends_blank_def suffix_def)

lemma recvHeader_loop_cut:
  assumes "clean cs" and "ample al"
    and "\<forall>k. length got < k \<and> k \<le> length (got @ stream cs) \<longrightarrow> \<not> ends_blank (take k (got @ stream cs))"
  shows "recvHeader_loop al (window got) got cs = (Cut (got @ stream cs), [])"
  using assms
proof (induction "rx_size cs" arbitrary: cs got rule: less_induct)
  case less
  from less.prems(1) zero_less_one [where ?'a = nat] show ?case
  proof (cases rule: recv_clean)
    case closed
    then show ?thesis
      by (subst recvHeader_loop.simps) (simp add: recv_Closed)
  next
    case (got b cs1)
    note g = recv_Got [OF got zero_less_one]
    obtain c where b: "b = [c]"
      using g(1,2) by (cases b) auto
    have "\<not> ends_blank (got @ [c])"
      using less.prems(3) [THEN spec, of "Suc (length got)"] g(3) b by simp
    moreover have "recvHeader_loop al (window (got @ [c])) (got @ [c]) cs1 = (Cut ((got @ [c]) @ stream cs1), [])"
    proof (rule less.hyps [OF g(5)])
      show "clean cs1"
        using g(4) less.prems(1) by simp
      show "\<forall>k. length (got @ [c]) < k \<and> k \<le> length ((got @ [c]) @ stream cs1) \<longrightarrow>
          \<not> ends_blank (take k ((got @ [c]) @ stream cs1))"
        using less.prems(3) g(3) b by simp
    qed (rule less.prems(2))
    ultimately show ?thesis
      using less.prems(2) got b g(3)
      by (subst recvHeader_loop.simps) (simp add: ample_grants window_snoc window_end Let_def)
  qed
qed

lemma recvHeader_any:
  assumes "clean cs" and "ample al"
  shows "\<exists>cs'. clean cs' \<and> (case first_blank (stream cs) of
      Some k \<Rightarrow> recvHeader_loop al (replicate 4 NUL) [] cs = (Complete (take k (stream cs)), cs') \<and> stream cs' = drop k (stream cs)
    | None \<Rightarrow> recvHeader_loop al (replicate 4 NUL) [] cs = (Cut (stream cs), cs') \<and> stream cs' = [])"
proof (cases "first_blank (stream cs)")
  case None
  then have "\<forall>k. k \<le> length (stream cs) \<longrightarrow> \<not> ends_blank (take k (stream cs))"
    by (auto simp: first_blank_def find_None_iff simp del: upt_Suc)
  then show ?thesis
    using recvHeader_loop_cut [OF assms, of "[]"] None by (auto simp: window_Nil)
next
  case (Some k)
  then have k: "k \<le> length (stream cs)" "ends_blank (take k (stream cs))"
    "\<forall>j < k. \<not> ends_blank (take j (stream cs))"
    by (auto simp: first_blank_def find_Some_iff simp del: upt_Suc)
  have "0 < k"
    using k(2) not_blank_Nil by (cases k) auto
  then show ?thesis
    using recvHeader_loop_complete [OF assms, of "[]" "take k (stream cs)" "drop k (stream cs)"] k Some
    by (auto simp: window_Nil)
qed

section \<open>Whole bodies\<close>

lemma recvAll_loop_all:
  assumes "clean cs" and "int (length body) + int (length (stream cs)) \<le> bodyLen"
  shows "\<exists>cs'. recvAll_loop bodyLen body cs = Inr (Some (body @ stream cs), cs')"
  using assms
proof (induction bodyLen body cs rule: recvAll_loop.induct)
  case (1 bodyLen body cs)
  show ?case
  proof (cases "int (length body) < bodyLen")
    case False
    then have "stream cs = []"
      using "1.prems"(2) by (cases "stream cs") auto
    with False show ?thesis
      by (subst recvAll_loop.simps) simp
  next
    case True
    have "0 < (19999 :: nat)"
      by simp
    with "1.prems"(1) consider (got) b cs' where "recv 19999 cs = (Got b, cs')"
      | (closed) "recv 19999 cs = (Closed, [])"
      by (rule recv_clean)
    then show ?thesis
    proof cases
      case closed
      then show ?thesis
        using True by (subst recvAll_loop.simps) (simp add: recv_Closed)
    next
      case (got b cs')
      note g = recv_Got [OF got]
      have fits: "\<not> bodyLen < int (length body) + int (length b)"
        using g(3) "1.prems"(2) by simp
      have "\<exists>cs''. recvAll_loop bodyLen (body @ b) cs' = Inr (Some ((body @ b) @ stream cs'), cs'')"
        using fits g(3,4) "1.prems" by (intro "1.IH" [OF True got [symmetric]]) auto
      then show ?thesis
        using True got fits g(3) by (subst recvAll_loop.simps) simp
    qed
  qed
qed

lemma recvAll_response:
  assumes "wf_response status title headers mime" and "in_int (int (length body))" and "ample al"
    and "clean cs" and "stream cs = response_text status title headers (int (length body)) mime @ body"
  shows "\<exists>cs'. recvAll al cs = Inr (Some (stream cs, int (length (response_text status title headers
    (int (length body)) mime)), int (length body)), cs')"
proof -
  let ?h = "response_text status title headers (int (length body)) mime"
  obtain cs1 where h: "recvHeader al cs = Inr (Some ?h, int (length ?h), int (length body), cs1)"
    "stream cs1 = body" "clean cs1"
    using recvHeader_response [OF assms] by blast
  have "0 < length ?h"
    by (simp add: response_text_def EOL_def)
  then have "0 < int (length ?h) + int (length body)"
    by (simp only: of_nat_0_less_iff add_pos_nonneg of_nat_0_le_iff)
  then show ?thesis
    using h recvAll_loop_all [OF h(3), of "[]" "int (length body)"] assms(3,5)
    by (auto simp: recvAll_def ample_grants nat_add_distrib)
qed

lemma sendAll_loop_events:
  "sendAll_loop buf len sent left s = Inr (r, n, s') \<Longrightarrow> set (txo s') \<subseteq> set (txo s)"
proof (induction buf len sent left s rule: sendAll_loop.induct)
  case (1 buf len sent left s)
  let ?d = "take (nat left) (drop (nat sent) buf)"
  show ?case
  proof (cases "sent < len")
    case True
    then have ok: "\<not> (left < 0 \<or> int (length buf) < sent + left)"
      using "1.prems" by (subst (asm) sendAll_loop.simps) (auto split: if_splits)
    obtain q s1 where k: "ksend ?d s = (q, s1)"
      by (cases "ksend ?d s")
    show ?thesis
    proof (cases q)
      case None
      then have "s' = s1"
        using "1.prems" True ok k by (subst (asm) sendAll_loop.simps) simp
      then show ?thesis
        using k None by (auto simp: ksend.simps split: list.splits tx_event.splits)
    next
      case (Some i)
      then have live: "\<not> (i = 0 \<and> txo s = [])"
        using "1.prems" True ok k by (subst (asm) sendAll_loop.simps) (auto split: if_splits)
      have "sendAll_loop buf len (sent + int i) (left - int i) s1 = Inr (r, n, s')"
        using "1.prems" True ok k Some live by (subst (asm) sendAll_loop.simps) auto
      then have "set (txo s') \<subseteq> set (txo s1)"
        using "1.IH" [OF True ok k [symmetric] Some live] by simp
      then show ?thesis
        using ksend_Some(4) [OF k [unfolded Some]] by blast
    qed
  next
    case False
    then show ?thesis
      using "1.prems" by (subst (asm) sendAll_loop.simps) simp
  qed
qed

lemma sendAll_events: "sendAll buf len s = Inr (r, n, s') \<Longrightarrow> set (txo s') \<subseteq> set (txo s)"
  unfolding sendAll_def by (rule sendAll_loop_events)

section \<open>Properties\<close>

text \<open>
  C22: a response passes: what \<open>sendResponse\<close> writes to a socket that never fails, however little it
  takes at a time, and however the bytes are cut into pieces on the way, \<open>recvHeader\<close> separates into the
  header and the rest with the body's length, \<open>recvAll\<close> receives whole, and \<open>recvAll_NoData\<close> counts.
\<close>

theorem response_passes:
  assumes "wf_response status title headers mime" and "in_int (int (length body))" and "ample al"
    and "h = response_header status title headers (int (length body)) mime"
    and "length (response_text status title headers (int (length body)) mime) < 9999"
    and "Tx_Error \<notin> set (txo c)" and "tx c = []"
  shows "\<exists>c'. sendResponse_socket (h, body) c = Inr c' \<and>
    (\<forall>cs. clean cs \<and> stream cs = tx c' \<longrightarrow>
      (\<exists>cs'. recvHeader al cs = Inr (Some h, int (length h), int (length body), cs') \<and> stream cs' = body) \<and>
      (\<exists>cs'. recvAll al cs = Inr (Some (h @ body, int (length h), int (length body)), cs')) \<and>
      (\<exists>cs'. recvAll_NoData al cs = Inr (int (length (h @ body)), int (length body), cs')))"
proof -
  have h: "h = response_text status title headers (int (length body)) mime"
    using assms(4,5) response_header_text by simp
  have "in_int (int (length h))"
    using assms(5) h by (simp add: in_int_def)
  then obtain c1 where c1: "sendAll h (int (length h)) c = Inr (0, int (length h), c1)" "tx c1 = h"
    using sendAll_ok [of "int (length h)" h c] assms(6,7) by auto
  have "Tx_Error \<notin> set (txo c1)"
    using sendAll_events [OF c1(1)] assms(6) by blast
  then obtain c2 where c2: "sendAll body (int (length body)) c1 = Inr (0, int (length body), c2)" "tx c2 = h @ body"
    using sendAll_ok [of "int (length body)" body c1] assms(2) c1 by auto
  show ?thesis
    using c1 c2 recvHeader_response [OF assms(1,2,3)] recvAll_response [OF assms(1,2,3)]
      recvAll_NoData_response [OF assms(1,2,3)] h
    by (intro exI [of _ c2]) (fastforce simp: sendResponse_socket_def)
qed

theorem response_passes_witness:
  "\<exists>c'. sendResponse_socket (response_header 404 ''Not Found'' None 2 ''text/html'', ''no'')
       \<lparr>rx = [], tx = [], txo = [Takes 3, Takes 0, Takes 50]\<rparr> = Inr c' \<and>
     (\<forall>cs. clean cs \<and> stream cs = tx c' \<longrightarrow> (\<exists>r cs'. recvAll_NoData (\<lambda>n. 0 \<le> n) cs = Inr (r, 2, cs')))"
proof -
  have wf: "wf_response 404 ''Not Found'' None ''text/html''"
    by (simp add: wf_response_def field_text_def)
  have "fmt_d 404 = ''404''" "fmt_d 2 = ''2''"
    by (simp_all add: fmt_d_def dec_nat.simps digit_char_def)
  then have "length (response_text 404 ''Not Found'' None 2 ''text/html'') < 9999"
    by (simp add: response_text_def before_length_def PROTOCOL_def EOL_def)
  then show ?thesis
    using response_passes [OF wf _ ample_nonneg refl, of "''no''" "\<lparr>rx = [], tx = [], txo = [Takes 3, Takes 0, Takes 50]\<rparr>"]
    by (simp add: in_int_def) blast
qed

text \<open>
  C23: what \<open>recvHeader\<close> receives depends on the bytes alone, not on how they arrive: up to the end of
  the first empty line, with the length announced there, and not a byte more; and when the stream
  ends before an empty line, all of it, as if it were a header, with the length 0.
\<close>

theorem recvHeader_shortest:
  assumes "clean cs" and "ample al"
  shows "\<exists>cs'. clean cs' \<and> (case first_blank (stream cs) of
      Some k \<Rightarrow> recvHeader al cs = bindR (announced al (take k (stream cs))) (\<lambda>b. Inr (Some (take k (stream cs)), int k, b, cs')) \<and>
        stream cs' = drop k (stream cs)
    | None \<Rightarrow> recvHeader al cs = Inr (if stream cs = [] then None else Some (stream cs), int (length (stream cs)), 0, cs') \<and>
        stream cs' = [])"
proof -
  have "length (take k (stream cs)) = k" if "first_blank (stream cs) = Some k" for k
    using that by (auto simp: first_blank_def find_Some_iff simp del: upt_Suc)
  then show ?thesis
    using recvHeader_any [OF assms] by (auto simp: recvHeader_def split: option.splits)
qed

theorem recvHeader_shortest_witness:
  "\<exists>cs'. recvHeader (\<lambda>n. 0 \<le> n) [Data ''HTTP/1.0 304'', Data [], Data '' Not'', Data EOL] =
     Inr (Some (''HTTP/1.0 304 Not'' @ EOL), 18, 0, cs')"
proof -
  have "first_blank (''HTTP/1.0 304 Not'' @ EOL) = None"
    by (simp add: first_blank_def ends_blank_def EOL_def find_None_iff suffix_def)
  then show ?thesis
    using recvHeader_shortest [OF _ ample_nonneg, of "[Data ''HTTP/1.0 304'', Data [], Data '' Not'', Data EOL]"]
    by (auto simp: EOL_def)
qed

text \<open>
  C24: \<open>sendAll\<close> is all or an error: of any buffer that an \<open>int\<close> can measure either all bytes are
  written, in order and once, or it returns -1, which only a failing connection causes, after a proper
  prefix. A longer one it never reports as sent: a length from two to four gigabytes, and any whose low
  32 bits are a negative number or more than the buffer has, makes \<open>send\<close> read past the buffer; with
  any other the low 32 bits of the length are sent and the loop then goes on for ever with nothing to
  send, if the connection does not fail.
\<close>

theorem sendAll_whole:
  assumes "0 \<le> len" and "len \<le> int (length buf)" and "in_int len" and "2147483648 \<le> huge"
  shows "\<exists>r n s'. sendAll buf len s = Inr (r, n, s') \<and> rx s' = rx s \<and>
     (r = 0 \<and> n = len \<and> tx s' = tx s @ take (nat len) buf \<or>
      r = - 1 \<and> Tx_Error \<in> set (txo s) \<and> (\<exists>k < nat len. tx s' = tx s @ take k buf)) \<and>
    (huge < 4294967296 \<longrightarrow> sendAll buf huge s = Inl Over_Read) \<and>
    (if c_int huge < 0 \<or> int (length buf) < c_int huge then sendAll buf huge s = Inl Over_Read
     else sendAll buf huge s = Inl Diverge \<or>
       Tx_Error \<in> set (txo s) \<and> (\<exists>s'. sendAll buf huge s = Inr (- 1, huge, s')))"
proof -
  obtain r n s' where "sendAll buf len s = Inr (r, n, s')" "rx s' = rx s"
    "r = 0 \<and> n = len \<and> tx s' = tx s @ take (nat len) buf \<or>
     r = - 1 \<and> Tx_Error \<in> set (txo s) \<and> (\<exists>k < nat len. tx s' = tx s @ take k buf)"
    using sendAll_loop_sends [of 0 len "c_int len" buf s] assms(1-3) by (auto simp: sendAll_def)
  moreover have "huge < 4294967296 \<Longrightarrow> sendAll buf huge s = Inl Over_Read"
    using sendAll_too_long assms(4) by blast
  moreover have "if c_int huge < 0 \<or> int (length buf) < c_int huge then sendAll buf huge s = Inl Over_Read
     else sendAll buf huge s = Inl Diverge \<or>
       Tx_Error \<in> set (txo s) \<and> (\<exists>s'. sendAll buf huge s = Inr (- 1, huge, s'))"
    using sendAll_wraps [OF assms(4), of buf s] by (auto simp: not_less)
  ultimately show ?thesis
    by blast
qed

theorem sendAll_whole_witness:
  "\<exists>r n s'. sendAll ''abcd'' 3 \<lparr>rx = [], tx = ''x'', txo = [Takes 1, Tx_Error]\<rparr> = Inr (r, n, s') \<and>
     (r = 0 \<and> tx s' = ''xabc'' \<or> r = - 1 \<and> tx s' \<noteq> ''xabc'') \<and>
   sendAll ''abcd'' 2147483648 \<lparr>rx = [], tx = ''x'', txo = [Takes 1, Tx_Error]\<rparr> = Inl Over_Read \<and>
   sendAll ''abcd'' 4294967298 \<lparr>rx = [], tx = ''x'', txo = [Takes 1]\<rparr> = Inl Diverge"
proof -
  obtain r n s' where *: "sendAll ''abcd'' 3 \<lparr>rx = [], tx = ''x'', txo = [Takes 1, Tx_Error]\<rparr> = Inr (r, n, s')"
    "r = 0 \<and> n = 3 \<and> tx s' = ''x'' @ take (nat 3) ''abcd'' \<or>
     r = - 1 \<and> (\<exists>k < nat 3. tx s' = ''x'' @ take k ''abcd'')"
    "sendAll ''abcd'' 2147483648 \<lparr>rx = [], tx = ''x'', txo = [Takes 1, Tx_Error]\<rparr> = Inl Over_Read"
    using sendAll_whole [of 3 "''abcd''" 2147483648 "\<lparr>rx = [], tx = ''x'', txo = [Takes 1, Tx_Error]\<rparr>"]
    by (auto simp: in_int_def)
  have "c_int 4294967298 = 2"
    by (simp add: c_int_def)
  then have w: "sendAll ''abcd'' 4294967298 \<lparr>rx = [], tx = ''x'', txo = [Takes 1]\<rparr> = Inl Diverge"
    using sendAll_whole [of 3 "''abcd''" 4294967298 "\<lparr>rx = [], tx = ''x'', txo = [Takes 1]\<rparr>"]
    by (auto simp: in_int_def)
  have "''x'' @ take k ''abcd'' \<noteq> ''xabc''" if "k < nat 3" for k
  proof
    assume "''x'' @ take k ''abcd'' = ''xabc''"
    then have "length (''x'' @ take k ''abcd'') = length ''xabc''"
      by (rule arg_cong)
    then show False
      using that by simp
  qed
  moreover have "''x'' @ take (nat 3) ''abcd'' = ''xabc''"
    by (simp add: eval_nat_numeral)
  ultimately have "r = 0 \<and> tx s' = ''xabc'' \<or> r = - 1 \<and> tx s' \<noteq> ''xabc''"
    using *(2) by metis
  then show ?thesis
    using *(1,3) w by blast
qed

text \<open>
  C25: a segment passes: what was mapped into a node, up to the size of its memory, is what is
  received from it; the states are untouched, and so are the bytes behind the data, which are those of
  an earlier message; more than the memory holds is written past it.
\<close>

theorem segment_passes:
  assumes "length (mem node) = SEGMENTSIZE" and "length d \<le> SEGMENTSIZE" and "ample al" and "int SEGMENTSIZE < long"
  shows "(\<exists>node'. setMapping node d (int (length d)) = Inr (int (length d), node') \<and>
      receiveShared al node' = Inr (if d = [] then None else Some d) \<and> length (mem node') = SEGMENTSIZE \<and>
      drop (length d) (mem node') = drop (length d) (mem node) \<and>
      node'\<lparr>mem := mem node, spaceUsed := spaceUsed node\<rparr> = node) \<and>
    setMapping node any long = Inl Over_Write"
  using assms by (auto simp: setMapping_fits receiveShared_def ample_grants) (simp add: setMapping_def)

theorem segment_passes_witness:
  "\<exists>node'. setMapping (zero_node\<lparr>mem := replicate SEGMENTSIZE (CHR ''o'')\<rparr>) ''new'' 3 = Inr (3, node') \<and>
     receiveShared (\<lambda>n. 0 \<le> n) node' = Inr (Some ''new'') \<and> last (mem node') = CHR ''o''"
proof -
  let ?n = "zero_node\<lparr>mem := replicate SEGMENTSIZE (CHR ''o'')\<rparr>"
  have "length (mem ?n) = SEGMENTSIZE" "length ''new'' \<le> SEGMENTSIZE" "int SEGMENTSIZE < int SEGMENTSIZE + 1"
    by (simp_all add: SEGMENTSIZE_def)
  then obtain node' where n: "setMapping ?n ''new'' (int (length ''new'')) = Inr (int (length ''new''), node')"
    "receiveShared (\<lambda>n. 0 \<le> n) node' = Inr (Some ''new'')" "length (mem node') = SEGMENTSIZE"
    "drop (length ''new'') (mem node') = drop (length ''new'') (mem ?n)"
    using segment_passes [OF _ _ ample_nonneg, of ?n "''new''"] by fastforce
  have "last (mem node') = last (drop (length ''new'') (mem node'))"
    using n(3) by (simp add: SEGMENTSIZE_def)
  also have "\<dots> = CHR ''o''"
    unfolding n(4) by (simp add: SEGMENTSIZE_def)
  finally show ?thesis
    using n(1,2) by auto
qed

end
