(* ===== verification/Answers.thy ===== *)
theory Answers
  imports Files Wire
begin

text \<open>
  What one connection of the server gets as a whole, \<open>checkAndSend\<close> of src/server.c over a socket:
  whatever the client sends and however its bytes are taken, the call returns, and unless the
  connection fails exactly one complete answer stands on it. The pool of workers builds on this.
\<close>

section \<open>Requests and answers that fit\<close>

text \<open>
  What one \<open>recv\<close> gives fits the arrays of \<open>checkAndSend\<close>; the files and the listings are short
  enough for the \<open>int\<close> that \<open>sendAll\<close> counts with.
\<close>

definition fits :: "chunk list \<Rightarrow> bool" where
  "fits cs \<longleftrightarrow> (case fst (recv 19999 cs) of Got b \<Rightarrow> length (cstr b) < 10000 | _ \<Rightarrow> True)"

definition fs_small :: "filesystem \<Rightarrow> bool" where
  "fs_small fs \<longleftrightarrow> (\<forall>f d n. fstat fs f = Some (d, n) \<longrightarrow> in_int n) \<and>
     (\<forall>f names. listing fs f = Some names \<longrightarrow> in_int (int (length (listing_text f names))))"

lemma snprintf_small: "length (snprintf 9999 s) < 9999"
  by (rule length_snprintf) simp

lemma sendError_small:
  assumes "sendError status title headers what = Inr r"
  shows "length (snd r) < 9999"
proof -
  have "snd r = error_page status title what"
    using assms by (auto simp: sendError_def response_def Let_def split: if_splits)
  then show ?thesis
    using snprintf_small by (simp add: error_page_def)
qed

lemma sendError_body: "sendError status title headers what = Inr r \<Longrightarrow> in_int (int (length (snd r)))"
  using sendError_small [of status title headers what r] by (simp add: in_int_def)

lemma serve_file_body:
  assumes "serve_file fs file n = Inr r" and "in_int n"
  shows "in_int (int (length (snd r)))"
proof (cases "fileContents fs file n")
  case (Some b)
  then have "length (snd r) \<le> nat n"
    using assms(1) by (auto simp: serve_file_def response_def split: if_splits)
  then show ?thesis
    using assms(2) by (auto simp: in_int_def)
qed (use assms(1) sendError_body in \<open>simp add: serve_file_def\<close>)

lemma serve_dir_body:
  assumes "serve_dir fs al path file = Inr r" and "fs_small fs" and "ample al"
  shows "in_int (int (length (snd r)))"
proof (cases "last file = CHR ''/''")
  case slash: True
  let ?idx = "snprintf 9999 (file @ ''index.html'')"
  show ?thesis
  proof (cases "fstat fs ?idx")
    case (Some dn)
    then have "serve_file fs ?idx (snd dn) = Inr r" "in_int (snd dn)"
      using assms slash by (cases dn; force simp: serve_dir_def Let_def fs_small_def)+
    then show ?thesis
      by (rule serve_file_body)
  next
    case idx: None
    show ?thesis
    proof (cases "listing fs file")
      case None
      then show ?thesis
        using assms(1) slash idx sendError_body by (simp add: serve_dir_def Let_def)
    next
      case (Some names)
      then have "snd r = listing_text file names"
        using assms(1) slash idx listing_page_text [OF assms(3)]
        by (auto simp: serve_dir_def Let_def response_def)
      then show ?thesis
        using assms(2) Some by (auto simp: fs_small_def)
    qed
  qed
qed (use assms(1) sendError_body in \<open>simp add: serve_dir_def\<close>)

lemma answer_body:
  assumes "answer fs al v = Inr r" and "fs_small fs" and "ample al"
  shows "in_int (int (length (snd r)))"
proof (cases v)
  case (Refuse status title what)
  then show ?thesis
    using assms(1) sendError_body by (simp add: answer_def)
next
  case (Serve path name)
  show ?thesis
  proof (cases "fstat fs name")
    case None
    then show ?thesis
      using assms(1) Serve sendError_body by (simp add: answer_def)
  next
    case (Some dn)
    then have "in_int (snd dn)"
      using assms(2) by (cases dn) (auto simp: fs_small_def)
    then show ?thesis
      using Some assms(1) Serve serve_dir_body [OF _ assms(2,3), of path name r] serve_file_body [of fs name "snd dn" r]
      by (cases dn; cases "fst dn") (simp_all add: answer_def)
  qed
qed

lemma checkAndSend_body:
  assumes "checkAndSend fs al junk req = Inr r" and "fs_small fs" and "ample al"
  shows "in_int (int (length (snd r)))"
proof (cases "parse_request junk req")
  case (Inr v)
  then show ?thesis
    using assms(1) answer_body [OF _ assms(2,3), of v r] by (simp add: checkAndSend_def)
qed (use assms(1) in \<open>simp add: checkAndSend_def\<close>)

section \<open>On the socket\<close>

lemma full_header: "full_answer r \<Longrightarrow> in_int (int (length (fst r)))"
proof -
  assume "full_answer r"
  then obtain x where "fst r = snprintf 9999 x"
    unfolding full_answer_def response_header_def by blast
  then show ?thesis
    using snprintf_small [of x] by (simp add: in_int_def)
qed

text \<open>A response is written whole, or the connection fails; the call returns in both cases.\<close>

lemma sendResponse_returns:
  assumes "full_answer r" and "in_int (int (length (snd r)))"
  shows "\<exists>c'. sendResponse_socket r c = Inr c' \<and> (Tx_Error \<notin> set (txo c) \<longrightarrow> tx c' = tx c @ fst r @ snd r)"
proof -
  have one: "\<exists>ret n c'. sendAll b (int (length b)) c = Inr (ret, n, c') \<and> (Tx_Error \<notin> set (txo c) \<longrightarrow> tx c' = tx c @ b)"
    if "in_int (int (length b))" for b c
    using sendAll_loop_sends [of 0 "int (length b)" "c_int (int (length b))" b c] that
    by (auto simp: sendAll_def)
  obtain ret n c1 where c1: "sendAll (fst r) (int (length (fst r))) c = Inr (ret, n, c1)"
    "Tx_Error \<notin> set (txo c) \<longrightarrow> tx c1 = tx c @ fst r"
    using one [OF full_header [OF assms(1)]] by blast
  obtain ret' n' c2 where c2: "sendAll (snd r) (int (length (snd r))) c1 = Inr (ret', n', c2)"
    "Tx_Error \<notin> set (txo c1) \<longrightarrow> tx c2 = tx c1 @ snd r"
    using one [OF assms(2)] by blast
  show ?thesis
    using c1 c2 sendAll_events [OF c1(1)] by (auto simp: sendResponse_socket_def)
qed

text \<open>
  \<open>served_as\<close>: the socket after the call, with the one answer that it carries.
\<close>

definition served_as :: "filesystem \<Rightarrow> allocator \<Rightarrow> char \<times> char \<Rightarrow> sock \<Rightarrow> sock \<Rightarrow> bool" where
  "served_as fs al junk c c' \<longleftrightarrow> checkAndSend_socket fs al junk c = Inr c' \<and>
     (Tx_Error \<notin> set (txo c) \<longrightarrow> (\<exists>r. full_answer r \<and> tx c' = tx c @ fst r @ snd r))"

lemma line_fits:
  assumes "recv 19999 cs = (Got b, cs')" and "fits cs"
  shows "NUL \<in> set (b @ replicate (20000 - length b) NUL)"
    and "length (cstr (b @ replicate (20000 - length b) NUL)) < 10000"
proof -
  have "length b \<le> 19999"
    using recv_Got(2) [OF assms(1)] by simp
  then show "NUL \<in> set (b @ replicate (20000 - length b) NUL)"
    by simp
  have "cstr (b @ replicate m NUL) = cstr b" for m
    by (induction b) (auto simp: cstr_def)
  then show "length (cstr (b @ replicate (20000 - length b) NUL)) < 10000"
    using assms by (simp add: fits_def)
qed

lemma connection_served:
  assumes "fs_ok fs" and "ample al" and "fs_small fs" and "fits (rx c)"
  shows "\<exists>c'. served_as fs al junk c c'"
proof -
  have sends: "\<exists>c'. bindR x (\<lambda>r. sendResponse_socket r (c\<lparr>rx := cs\<rparr>)) = Inr c' \<and>
      (Tx_Error \<notin> set (txo c) \<longrightarrow> (\<exists>r. full_answer r \<and> tx c' = tx c @ fst r @ snd r))"
    if "\<exists>r. x = Inr r \<and> full_answer r \<and> in_int (int (length (snd r)))" for x cs
    using that sendResponse_returns [of _ "c\<lparr>rx := cs\<rparr>"] by fastforce
  have asks: "\<exists>r. checkAndSend fs al junk req = Inr r \<and> full_answer r \<and> in_int (int (length (snd r)))"
    if "NUL \<in> set req" "length (cstr req) < 10000" for req
    using answered_whole [OF assms(1,2) that] checkAndSend_body [OF _ assms(3,2)] by blast
  obtain x cs where "recv 19999 (rx c) = (x, cs)"
    by (cases "recv 19999 (rx c)") auto
  then show ?thesis
  proof (cases x)
    case (Got b)
    then show ?thesis
      using sends [OF asks, of "b @ replicate (20000 - length b) NUL" cs] line_fits [of "rx c" b cs] assms(4)
        \<open>recv 19999 (rx c) = (x, cs)\<close>
      by (auto simp: served_as_def checkAndSend_socket_def)
  next
    case Closed
    then show ?thesis
      using sends [OF asks, of "replicate 20000 NUL" cs] \<open>recv 19999 (rx c) = (x, cs)\<close>
      by (auto simp: served_as_def checkAndSend_socket_def cstr_def)
  next
    case Failed
    have "(400::int) \<in> {200, 302, 400, 403, 404, 500, 501}"
      by simp
    then obtain r where "sendError 400 ''Bad Request'' None (''No request found.'' @ [LF]) = Inr r" "full_answer r"
      using sendError_full [of 400 "''Bad Request''" None "''No request found.'' @ [LF]"] by blast
    then show ?thesis
      using sends [of "sendError 400 ''Bad Request'' None (''No request found.'' @ [LF])" cs] sendError_body
        Failed \<open>recv 19999 (rx c) = (x, cs)\<close>
      by (auto simp: served_as_def checkAndSend_socket_def)
  qed
qed

end
