(* ===== verification/ServerRun.thy ===== *)
theory ServerRun
  imports PoolView Answers
begin

text \<open>
  The server as a whole, src/server.c at work on sockets: the pool of Pool.thy, the table of open
  descriptors and the clients' sockets, where a worker serves a connection with \<open>checkAndSend\<close> and
  closes it before it comes back for another. The kernel gives \<open>accept\<close> any descriptor that is not
  in use, so that a closed one comes back as another client's. Every run is a run of the pool, and
  what the clients get is followed through every interleaving. A request of the proxy in shared
  memory, which touches none of the sockets, comes in with ServerShared.thy.
\<close>

section \<open>The state\<close>

text \<open>
  Clients are numbered in the order in which they are accepted: \<open>socks\<close> has their sockets, \<open>table\<close>
  says which of them a descriptor stands for, \<open>logged\<close> lists those that the connection list took.
  \<open>replied\<close> tells whether a worker that was given a connection has come back from \<open>checkAndSend\<close>.
\<close>

record server_state =
  team :: pool
  table :: "int \<Rightarrow> nat option"
  socks :: "nat \<Rightarrow> sock"
  arrived :: nat
  replied :: "bool list"
  logged :: "nat list"

definition start_server :: "nat \<Rightarrow> (nat \<Rightarrow> sock) \<Rightarrow> arrival list \<Rightarrow> bool list \<Rightarrow> server_state" where
  "start_server n clients cs gs = \<lparr>team = start_pool n cs gs, table = Map.empty, socks = clients,
     arrived = 0, replied = replicate n False, logged = []\<rparr>"

section \<open>The steps\<close>

definition with_pool :: "pool result option \<Rightarrow> (pool \<Rightarrow> server_state) \<Rightarrow> server_state result option" where
  "with_pool r f = map_option (\<lambda>x. bindR x (\<lambda>p. Inr (f p))) r"

text \<open>
  The main thread's step of the pool, and what it does to the sockets: \<open>accept\<close> opens a descriptor;
  \<open>addTail\<close> takes the connection or, without memory, drops it.
\<close>

definition main_effect :: "pool result option \<Rightarrow> server_state \<Rightarrow> server_state result option" where
  "main_effect r s = (case r of
     Some (Inr p) \<Rightarrow>
       (case (main_at (team s), main_at p) of
          (Accepting, main_stage.Got x) \<Rightarrow>
            if table s (fst x) = None
            then Some (Inr (s\<lparr>team := p, table := (table s)(fst x \<mapsto> arrived s), arrived := Suc (arrived s)\<rparr>))
            else None
        | (Adding x, _) \<Rightarrow>
            Some (Inr (s\<lparr>team := p, logged := logged s @
              (if snd x = PROCESS \<and> granted (snd (queue (team s))) then [the (table s (fst x))] else [])\<rparr>))
        | _ \<Rightarrow> Some (Inr (s\<lparr>team := p\<rparr>)))
   | r \<Rightarrow> with_pool r (\<lambda>p. s))"

definition server_main_step :: "server_state \<Rightarrow> server_state result option" where
  "server_main_step s = main_effect (main_step (team s)) s"

text \<open>
  A worker with a connection: \<open>checkAndSend\<close>, then \<open>close\<close>. On a descriptor that is not open both
  \<open>recv\<close> and \<open>send\<close> fail, and so does \<open>close\<close>.
\<close>

definition server_worker_step :: "filesystem \<Rightarrow> allocator \<Rightarrow> char \<times> char \<Rightarrow> nat \<Rightarrow> server_state \<Rightarrow>
  server_state result option" where
  "server_worker_step fs al junk i s =
     (let back = worker_pool_step i (team s); ws = stages (team s) in
      case (if i < length ws then client_of (ws ! i) else None) of
        None \<Rightarrow> with_pool back (\<lambda>p. s\<lparr>team := p\<rparr>)
      | Some c \<Rightarrow>
          if replied s ! i then
            with_pool back (\<lambda>p. s\<lparr>team := p, table := (table s)(c := None), replied := (replied s)[i := False]\<rparr>)
          else (case table s c of
             None \<Rightarrow> Some (Inr (s\<lparr>replied := (replied s)[i := True]\<rparr>))
           | Some k \<Rightarrow> Some (bindR (checkAndSend_socket fs al junk (socks s k)) (\<lambda>c'.
               Inr (s\<lparr>socks := (socks s)(k := c'), replied := (replied s)[i := True]\<rparr>)))))"

text \<open>A schedule names who moves, as that of the pool does.\<close>

fun server_moves :: "filesystem \<Rightarrow> allocator \<Rightarrow> char \<times> char \<Rightarrow> mover \<Rightarrow> server_state \<Rightarrow> server_state result option" where
  "server_moves fs al junk M_Main s = server_main_step s"
| "server_moves fs al junk M_Signal s = with_pool (catchInterrupt (team s)) (\<lambda>p. s\<lparr>team := p\<rparr>)"
| "server_moves fs al junk M_Handler s = with_pool (handler_step (team s)) (\<lambda>p. s\<lparr>team := p\<rparr>)"
| "server_moves fs al junk (M_Worker i) s = server_worker_step fs al junk i s"

text \<open>What stands on a worker's stack in front of a short name is another at every call.\<close>

inductive server_step :: "filesystem \<Rightarrow> allocator \<Rightarrow> server_state \<Rightarrow> server_state \<Rightarrow> bool" for fs al where
  server_moved: "server_moves fs al junk m s = Some (Inr s') \<Longrightarrow> server_step fs al s s'"

inductive_cases server_stepE: "server_step fs al s s'"

fun server_run :: "filesystem \<Rightarrow> allocator \<Rightarrow> char \<times> char \<Rightarrow> mover list \<Rightarrow> server_state \<Rightarrow> server_state option" where
  "server_run fs al junk [] s = Some s"
| "server_run fs al junk (m # ms) s =
     (case server_moves fs al junk m s of Some (Inr s') \<Rightarrow> server_run fs al junk ms s' | _ \<Rightarrow> None)"

lemma server_run_reaches: "server_run fs al junk ms s = Some s' \<Longrightarrow> (server_step fs al)\<^sup>*\<^sup>* s s'"
  by (induction ms arbitrary: s)
    (auto split: option.splits sum.splits intro: server_moved converse_rtranclp_into_rtranclp)

lemma with_pool_iff [simp]:
  "with_pool r f = Some (Inr s') \<longleftrightarrow> (\<exists>p. r = Some (Inr p) \<and> s' = f p)"
  "with_pool r f = Some (Inl e) \<longleftrightarrow> r = Some (Inl e)"
  "with_pool r f = None \<longleftrightarrow> r = None"
  by (cases r; cases "the r"; auto simp: with_pool_def)+

section \<open>The invariant\<close>

text \<open>
  The descriptors: those of the clients that no worker was given are open; \<open>m\<close> of the clients in \<open>lg\<close> were given to workers, the descriptors of the others
  are on the list in that order, and the one in main's hand belongs to none of them.
\<close>

definition descs :: "(int \<Rightarrow> nat option) \<Rightarrow> nat \<Rightarrow> nat list \<Rightarrow> nat \<Rightarrow> int list \<Rightarrow> int list \<Rightarrow> bool" where
  "descs tbl na lg m q h \<longleftrightarrow>
     (\<forall>c d k. tbl c = Some k \<and> tbl d = Some k \<longrightarrow> c = d) \<and> (\<forall>c k. tbl c = Some k \<longrightarrow> k < na) \<and>
     (\<forall>k < na. k \<in> ran tbl \<or> k \<in> set (take m lg)) \<and> distinct lg \<and> (\<forall>k \<in> set lg. k < na) \<and> m \<le> length lg \<and> map tbl q = map Some (drop m lg) \<and>
     (\<forall>c \<in> set h. \<exists>k. tbl c = Some k \<and> k \<notin> set lg)"

text \<open>
  The sockets: a client that was not given to a worker is untouched; one that was is with exactly
  one worker, untouched or answered, or it is answered and closed. \<open>ks\<close> tells which client each
  worker has.
\<close>

definition with_client :: "(nat \<Rightarrow> sock \<Rightarrow> bool) \<Rightarrow> (nat \<Rightarrow> sock) \<Rightarrow> nat list \<Rightarrow> (nat \<Rightarrow> sock) \<Rightarrow> nat option \<Rightarrow> bool \<Rightarrow> bool" where
  "with_client A clients lg cn w r \<longleftrightarrow> (case w of
     None \<Rightarrow> \<not> r | Some k \<Rightarrow> k \<in> set lg \<and> (if r then A k (cn k) else cn k = clients k))"

definition sole :: "nat option list \<Rightarrow> bool" where
  "sole ks \<longleftrightarrow> (\<forall>i < length ks. \<forall>j < length ks. ks ! i = ks ! j \<and> ks ! i \<noteq> None \<longrightarrow> i = j)"

lemma sole_update: "sole ks \<Longrightarrow> x = None \<or> x \<notin> set ks \<Longrightarrow> sole (ks[i := x])"
  by (cases "i < length ks") (auto simp: sole_def nth_list_update list_update_beyond dest: nth_mem)

lemma sole_other: "sole ks \<Longrightarrow> ks ! i = Some k \<Longrightarrow> i < length ks \<Longrightarrow> j < length ks \<Longrightarrow> ks ! j = Some k \<Longrightarrow> j = i"
  unfolding sole_def by (metis option.distinct(1))

definition jobs :: "(nat \<Rightarrow> sock \<Rightarrow> bool) \<Rightarrow> (nat \<Rightarrow> sock) \<Rightarrow> (int \<Rightarrow> nat option) \<Rightarrow> nat list \<Rightarrow> (nat \<Rightarrow> sock) \<Rightarrow>
  nat option list \<Rightarrow> bool list \<Rightarrow> bool" where
  "jobs A clients tbl lg cn ks rp \<longleftrightarrow> length rp = length ks \<and>
     (\<forall>i < length ks. with_client A clients lg cn (ks ! i) (rp ! i)) \<and>
     sole ks \<and>
     (\<forall>k. k \<notin> set lg \<longrightarrow> cn k = clients k) \<and>
     (\<forall>k \<in> set lg. Some k \<in> set ks \<or> A k (cn k) \<and> k \<notin> ran tbl)"

definition whose :: "(int \<Rightarrow> nat option) \<Rightarrow> int option list \<Rightarrow> nat option list" where
  "whose tbl fds = map (\<lambda>d. Option.bind d tbl) fds"

definition server_inv :: "(nat \<Rightarrow> sock \<Rightarrow> bool) \<Rightarrow> (nat \<Rightarrow> sock) \<Rightarrow> server_state \<Rightarrow> bool" where
  "server_inv A clients s \<longleftrightarrow> pool_inv (team s) \<and>
     (case seen (team s) of (g, q, fds, h) \<Rightarrow>
        descs (table s) (arrived s) (logged s) (length g) q h \<and>
        (\<forall>c. Some c \<in> set fds \<longrightarrow> table s c \<noteq> None) \<and>
        jobs A clients (table s) (take (length g) (logged s)) (socks s) (whose (table s) fds) (replied s))"

lemma start_server_inv: "server_inv A clients (start_server n clients cs gs)"
proof -
  have "seen (start_pool n cs gs) = ([], [], replicate n None, [])"
    by (simp add: seen_of_def start_pool_def hand_def job_of_def cheld_def items_def walk.simps vals_def)
  then show ?thesis
    using start_pool_inv by (auto simp: server_inv_def start_server_def descs_def jobs_def with_client_def whose_def sole_def)
qed

text \<open>Accepting, handing over, dropping.\<close>

lemma descs_open: "descs tbl na lg m q h \<Longrightarrow> c \<in> set q \<or> c \<in> set h \<Longrightarrow> \<exists>k. tbl c = Some k"
proof (elim disjE)
  assume d: "descs tbl na lg m q h" and "c \<in> set q"
  then have "tbl c \<in> set (map Some (drop m lg))"
    unfolding descs_def by (metis image_eqI list.set_map)
  then show ?thesis
    by auto
next
  assume "descs tbl na lg m q h" and "c \<in> set h"
  then show ?thesis
    unfolding descs_def by blast
qed

lemma descs_accept:
  assumes "descs tbl na lg m q h" and "tbl c = None"
  shows "descs (tbl(c \<mapsto> na)) (Suc na) lg m q [c]"
proof -
  have "c \<notin> set q"
    using descs_open [OF assms(1)] assms(2) by fastforce
  then have q: "map (tbl(c \<mapsto> na)) q = map tbl q"
    by simp
  have "ran (tbl(c \<mapsto> na)) = insert na (ran tbl)"
    using assms(2) by simp
  then show ?thesis
    unfolding descs_def q using assms(1) by (auto simp: descs_def less_Suc_eq)
qed

lemma whose_accept: "(\<forall>d. Some d \<in> set fds \<longrightarrow> tbl d \<noteq> None) \<Longrightarrow> tbl c = None \<Longrightarrow> whose (tbl(c \<mapsto> na)) fds = whose tbl fds"
  by (auto simp: whose_def bind_eq_None_conv split: bind_split)

lemma jobs_accept: "jobs A clients tbl lg cn ks rp \<Longrightarrow> tbl c = None \<Longrightarrow> na \<notin> set lg \<Longrightarrow> jobs A clients (tbl(c \<mapsto> na)) lg cn ks rp"
  unfolding jobs_def by auto

lemma descs_hand_over:
  assumes "descs tbl na lg m q [c]"
  shows "descs tbl na (lg @ [the (tbl c)]) m (q @ [c]) []"
  using assms by (auto simp: descs_def)

lemma descs_drop: "descs tbl na lg m q h \<Longrightarrow> descs tbl na lg m q []"
  by (simp add: descs_def)

text \<open>A worker takes the first descriptor, answers on it, and closes it.\<close>

lemma descs_next:
  assumes "descs tbl na lg m (c # q) h"
  shows "\<exists>k. tbl c = Some k \<and> m < length lg \<and> lg ! m = k \<and> k \<notin> set (take m lg) \<and> descs tbl na lg (Suc m) q h"
proof -
  have m: "m < length lg"
    using assms by (cases "m < length lg") (simp_all add: descs_def)
  then have l: "drop m lg = lg ! m # drop (Suc m) lg"
    by (simp add: Cons_nth_drop_Suc)
  have "set (take m lg) \<inter> set (drop m lg) = {}"
    using assms by (simp add: descs_def set_take_disj_set_drop_if_distinct)
  then have "lg ! m \<notin> set (take m lg)"
    using l by auto
  then show ?thesis
    using assms m l by (auto simp: descs_def take_Suc_conv_app_nth)
qed

lemma with_client_more:
  "with_client A clients lg cn w r \<Longrightarrow> with_client A clients (lg @ xs) cn w r"
  by (auto simp: with_client_def split: option.splits)

lemma in_set_update: "x \<in> set xs \<Longrightarrow> x \<noteq> xs ! i \<Longrightarrow> x \<in> set (xs[i := y])"
  by (metis in_set_conv_nth length_list_update nth_list_update_neq)

lemma jobs_take:
  assumes "jobs A clients tbl lg cn ks rp" and "ks ! i = None" and "k \<notin> set lg" and "i < length ks"
  shows "jobs A clients tbl (lg @ [k]) cn (ks[i := Some k]) rp"
proof -
  have "Some k \<notin> set ks"
    using assms(1,3) by (force simp: jobs_def with_client_def in_set_conv_nth)
  then have "sole (ks[i := Some k])"
    using assms(1) by (intro sole_update) (simp_all add: jobs_def)
  moreover have "with_client A clients (lg @ [k]) cn (ks[i := Some k] ! j) (rp ! j)" if "j < length ks" for j
    using assms that with_client_more [of A clients lg cn "ks ! j" "rp ! j" "[k]"]
    by (cases "j = i") (auto simp: jobs_def with_client_def)
  moreover have "Some n \<in> set (ks[i := Some k])" if "Some n \<in> set ks" for n
    using that assms(2) by (intro in_set_update) auto
  moreover have "Some k \<in> set (ks[i := Some k])"
    using assms(4) by (rule set_update_memI)
  ultimately show ?thesis
    using assms(1) unfolding jobs_def by simp blast
qed

lemma jobs_answer:
  assumes "jobs A clients tbl lg cn ks rp" and "ks ! i = Some k" and "i < length ks" and "\<not> rp ! i"
    and "cn k = clients k \<Longrightarrow> A k c'"
  shows "jobs A clients tbl lg (cn(k := c')) ks (rp[i := True])"
proof -
  have k: "k \<in> set lg" "A k c'" "i < length rp"
    using assms by (force simp: jobs_def with_client_def)+
  have "with_client A clients lg (cn(k := c')) (ks ! j) (rp[i := True] ! j)" if "j < length ks" for j
  proof (cases "j = i")
    case False
    moreover have "ks ! j \<noteq> Some k"
      using assms(1) sole_other [OF _ assms(2,3) that] False by (auto simp: jobs_def)
    ultimately show ?thesis
      using assms(1) that by (auto simp: jobs_def with_client_def split: option.splits)
  qed (use assms(2) k in \<open>simp add: with_client_def\<close>)
  moreover have "Some k \<in> set ks"
    using assms(2,3) by (metis nth_mem)
  ultimately show ?thesis
    using assms(1) k(1) unfolding jobs_def by auto
qed

lemma jobs_close:
  assumes "jobs A clients tbl lg cn ks rp" and "ks ! i = Some k" and "i < length ks" and "rp ! i"
    and "tbl c = Some k" and "\<forall>c d k. tbl c = Some k \<and> tbl d = Some k \<longrightarrow> c = d"
  shows "jobs A clients (tbl(c := None)) lg cn (ks[i := None]) (rp[i := False])"
proof -
  have k: "A k (cn k)" "i < length rp"
    using assms(1-4) by (force simp: jobs_def with_client_def)+
  have gone: "k \<notin> ran (tbl(c := None))" "ran (tbl(c := None)) \<subseteq> ran tbl"
    using assms(5,6) by (auto simp: ran_def)
  have "with_client A clients lg cn (ks[i := None] ! j) (rp[i := False] ! j)" if "j < length ks" for j
    using assms(1) that k(2) by (cases "j = i") (auto simp: jobs_def with_client_def)
  moreover have "sole (ks[i := None])"
    using assms(1) by (intro sole_update) (simp_all add: jobs_def)
  moreover have "Some n \<in> set (ks[i := None]) \<or> A n (cn n) \<and> n \<notin> ran (tbl(c := None))" if "n \<in> set lg" for n
  proof (cases "n = k")
    case False
    then show ?thesis
      using assms(1,2) that gone(2) in_set_update [of "Some n" ks i None] by (auto simp: jobs_def)
  qed (use k gone in simp)
  ultimately show ?thesis
    using assms(1) unfolding jobs_def by simp
qed

lemma descs_close:
  assumes "descs tbl na lg m q h" and "tbl c = Some k" and "k \<in> set (take m lg)"
  shows "descs (tbl(c := None)) na lg m q h"
proof -
  have lg: "distinct lg" "map tbl q = map Some (drop m lg)"
    using assms(1) by (simp_all add: descs_def)
  then have "k \<notin> set (drop m lg)"
    using assms(3) set_take_disj_set_drop_if_distinct [of lg m m] by auto
  then have "c \<notin> set q"
    using lg(2) assms(2) by (metis (no_types, lifting) image_iff list.set_map option.inject)
  then have q: "map (tbl(c := None)) q = map tbl q"
    by simp
  have "c \<notin> set h"
    using assms set_take_subset [of m lg] by (force simp: descs_def)
  moreover have "ran tbl \<subseteq> insert k (ran (tbl(c := None)))"
  proof
    fix x assume "x \<in> ran tbl"
    then obtain a where "tbl a = Some x"
      by (auto simp: ran_def)
    then show "x \<in> insert k (ran (tbl(c := None)))"
      using assms(2) by (cases "a = c") (auto intro: ranI [of _ a])
  qed
  ultimately show ?thesis
    unfolding descs_def q using assms(1,3) by (auto simp: descs_def)
qed

lemma whose_close:
  assumes "i < length fds" and "fds ! i = Some c" and "\<And>j. j < length fds \<Longrightarrow> j \<noteq> i \<Longrightarrow> fds ! j \<noteq> Some c"
  shows "whose (tbl(c := None)) (fds[i := None]) = (whose tbl fds)[i := None]"
proof (rule nth_equalityI)
  fix j assume "j < length (whose (tbl(c := None)) (fds[i := None]))"
  then show "whose (tbl(c := None)) (fds[i := None]) ! j = (whose tbl fds)[i := None] ! j"
    using assms by (cases "j = i"; cases "fds ! j") (auto simp: whose_def)
qed (simp add: whose_def)

section \<open>Every step keeps it\<close>

lemma same_seen_inv:
  "server_inv A clients s \<Longrightarrow> seen p = seen (team s) \<Longrightarrow> pool_inv p \<Longrightarrow> server_inv A clients (s\<lparr>team := p\<rparr>)"
  by (simp add: server_inv_def)

lemma main_accepts_inv:
  assumes inv: "server_inv A clients s" and step: "main_step (team s) = Some (Inr p)"
    and at: "main_at (team s) = Accepting" "main_at p = main_stage.Got x" and free: "table s (fst x) = None"
  shows "server_inv A clients (s\<lparr>team := p, table := (table s)(fst x \<mapsto> arrived s), arrived := Suc (arrived s)\<rparr>)"
proof -
  obtain g q fds h where sn: "seen (team s) = (g, q, fds, h)"
    by (cases "seen (team s)") auto
  then have p: "seen p = (g, q, fds, [fst x])"
    using accept_seen [where a = PROCESS, OF step at(1)] at(2) by (auto simp: seen_of_def)
  have d: "descs (table s) (arrived s) (logged s) (length g) q h" and o: "\<forall>c. Some c \<in> set fds \<longrightarrow> table s c \<noteq> None"
    and j: "jobs A clients (table s) (take (length g) (logged s)) (socks s) (whose (table s) fds) (replied s)"
    using inv sn by (simp_all add: server_inv_def)
  have "arrived s \<notin> set (take (length g) (logged s))"
    using d by (auto simp: descs_def dest: in_set_takeD)
  then show ?thesis
    using p o descs_accept [OF d free] jobs_accept [OF j free] whose_accept [OF o free]
      pool_step_inv [OF by_main [OF step]] inv by (simp add: server_inv_def)
qed

lemma main_adds_inv:
  assumes inv: "server_inv A clients s" and step: "main_step (team s) = Some (Inr p)"
    and at: "main_at (team s) = Adding x"
  shows "server_inv A clients (s\<lparr>team := p, logged := logged s @
    (if snd x = PROCESS \<and> granted (snd (queue (team s))) then [the (table s (fst x))] else [])\<rparr>)"
proof -
  let ?b = "snd x = PROCESS \<and> granted (snd (queue (team s)))"
  obtain g q fds h where sn: "seen (team s) = (g, q, fds, h)"
    by (cases "seen (team s)") auto
  have pi: "pool_inv (team s)"
    using inv by (simp add: server_inv_def)
  have p: "seen p = (g, if ?b then q @ [fst x] else q, fds, [])"
    using adding_seen [where a = PROCESS, OF step at pi] sn by (auto simp: seen_of_def)
  have h: "h = procs [x]"
    using sn at by (auto simp: seen_of_def)
  have d: "descs (table s) (arrived s) (logged s) (length g) q h"
    using inv sn by (simp add: server_inv_def)
  then have m: "length g \<le> length (logged s)"
    by (simp add: descs_def)
  show ?thesis
    using p h sn m inv descs_hand_over [of "table s" "arrived s" "logged s" "length g" q "fst x"] descs_drop [OF d]
      pool_step_inv [OF by_main [OF step] pi]
    by (auto simp: server_inv_def)
qed

lemma main_effect_inv:
  assumes "main_effect (Some (Inr p)) s = Some (Inr s')" and p: "main_step (team s) = Some (Inr p)"
    and inv: "server_inv A clients s"
  shows "server_inv A clients s'"
proof -
  have pi: "pool_inv p"
    using inv pool_step_inv [OF by_main [OF p]] by (simp add: server_inv_def)
  show ?thesis
  proof (cases "main_at (team s)")
    case Accepting
    then show ?thesis
      using assms(1) accept_seen [where a = PROCESS, OF p Accepting] main_accepts_inv [OF inv p Accepting] same_seen_inv [OF inv _ pi]
      by (cases "main_at p") (auto simp: main_effect_def split: if_splits)
  next
    case (Adding x)
    then show ?thesis
      using assms(1) main_adds_inv [OF inv p Adding] by (simp add: main_effect_def)
  qed (use assms(1) main_seen [where a = PROCESS, OF p] same_seen_inv [OF inv _ pi] in
        \<open>simp add: main_effect_def split: main_stage.splits\<close>)+
qed

lemma main_effect_cases:
  assumes "main_effect r s = Some (Inr s')"
  shows "\<exists>p. r = Some (Inr p) \<and> team s' = p"
  using assms by (auto simp: main_effect_def split: option.splits sum.splits main_stage.splits if_splits)

lemma main_effect_fault: "main_effect r s = Some (Inl e) \<Longrightarrow> r = Some (Inl e)"
  by (auto simp: main_effect_def split: option.splits sum.splits main_stage.splits if_splits)

lemma worker_takes_client_inv:
  assumes inv: "server_inv A clients s" and step: "worker_pool_step i (team s) = Some (Inr p)"
    and free: "i < length (stages (team s)) \<Longrightarrow> client_of (stages (team s) ! i) = None"
  shows "server_inv A clients (s\<lparr>team := p\<rparr>)"
proof -
  have i: "i < length (stages (team s))"
    using step by (auto simp: worker_pool_step_def split: if_splits)
  have pi: "pool_inv (team s)" "pool_inv p"
    using inv pool_step_inv [OF by_worker [OF step]] by (simp_all add: server_inv_def)
  obtain g q fds h where sn: "seen (team s) = (g, q, fds, h)"
    by (cases "seen (team s)") auto
  have fds: "fds = map client_of (stages (team s))"
    using sn by (simp add: seen_of_def)
  have d: "descs (table s) (arrived s) (logged s) (length g) q h" and o: "\<forall>c. Some c \<in> set fds \<longrightarrow> table s c \<noteq> None"
    and j: "jobs A clients (table s) (take (length g) (logged s)) (socks s) (whose (table s) fds) (replied s)"
    using inv sn by (simp_all add: server_inv_def)
  from worker_takes_seen [OF step pi(1) free [OF i]] show ?thesis
  proof
    assume "seen p = seen (team s)"
    then show ?thesis
      using same_seen_inv [OF inv _ pi(2)] by simp
  next
    assume "\<exists>c q. i < length (stages (team s)) \<and> procs (cheld (queue (team s))) = c # q \<and>
      seen p = (procs (given (team s)) @ [c], q, (map client_of (stages (team s)))[i := Some c], hand PROCESS (team s))"
    then obtain c q' where q: "q = c # q'" and p: "seen p = (g @ [c], q', fds[i := Some c], h)"
      using sn by (auto simp: seen_of_def)
    obtain k where k: "table s c = Some k" "length g < length (logged s)" "logged s ! length g = k"
      "k \<notin> set (take (length g) (logged s))" "descs (table s) (arrived s) (logged s) (Suc (length g)) q' h"
      using descs_next [OF d [unfolded q]] by blast
    have "jobs A clients (table s) (take (length g) (logged s) @ [k]) (socks s) ((whose (table s) fds)[i := Some k]) (replied s)"
      using i free fds by (intro jobs_take [OF j _ k(4)]) (simp_all add: whose_def)
    moreover have "whose (table s) (fds[i := Some c]) = (whose (table s) fds)[i := Some k]"
      using k(1) by (simp add: whose_def map_update)
    moreover have "\<forall>d. Some d \<in> set (fds[i := Some c]) \<longrightarrow> table s d \<noteq> None"
      using o k(1) set_update_subset_insert [of fds i "Some c"] by auto
    ultimately show ?thesis
      using p k pi(2) take_Suc_conv_app_nth [OF k(2)] by (simp add: server_inv_def)
  qed
qed

text \<open>The parts of the invariant at a worker with a client.\<close>

lemma inv_parts:
  assumes "server_inv A clients s"
  obtains g q fds h where "seen (team s) = (g, q, fds, h)" and "fds = map client_of (stages (team s))"
    and "descs (table s) (arrived s) (logged s) (length g) q h" and "\<forall>c. Some c \<in> set fds \<longrightarrow> table s c \<noteq> None"
    and "jobs A clients (table s) (take (length g) (logged s)) (socks s) (whose (table s) fds) (replied s)"
  using assms by (auto simp: server_inv_def seen_of_def)

lemma worker_answers_inv:
  assumes inv: "server_inv A clients s" and i: "i < length (stages (team s))"
    "client_of (stages (team s) ! i) = Some c" and k: "table s c = Some k" and "\<not> replied s ! i"
    and "socks s k = clients k \<Longrightarrow> A k c'"
  shows "server_inv A clients (s\<lparr>socks := (socks s)(k := c'), replied := (replied s)[i := True]\<rparr>)"
proof -
  obtain g q fds h where sn: "seen (team s) = (g, q, fds, h)" and fds: "fds = map client_of (stages (team s))"
    and j: "jobs A clients (table s) (take (length g) (logged s)) (socks s) (whose (table s) fds) (replied s)"
    using inv_parts [OF inv] .
  have "jobs A clients (table s) (take (length g) (logged s)) ((socks s)(k := c')) (whose (table s) fds) ((replied s)[i := True])"
    using fds i k by (intro jobs_answer [OF j _ _ assms(5,6)]) (simp_all add: whose_def)
  then show ?thesis
    using inv sn by (simp add: server_inv_def)
qed

lemma worker_closes_inv:
  assumes inv: "server_inv A clients s" and i: "i < length (stages (team s))"
    "client_of (stages (team s) ! i) = Some c" and r: "replied s ! i"
    and p: "worker_pool_step i (team s) = Some (Inr p)"
  shows "server_inv A clients (s\<lparr>team := p, table := (table s)(c := None), replied := (replied s)[i := False]\<rparr>)"
proof -
  obtain g q fds h where sn: "seen (team s) = (g, q, fds, h)" and fds: "fds = map client_of (stages (team s))"
    and d: "descs (table s) (arrived s) (logged s) (length g) q h" and o: "\<forall>c. Some c \<in> set fds \<longrightarrow> table s c \<noteq> None"
    and j: "jobs A clients (table s) (take (length g) (logged s)) (socks s) (whose (table s) fds) (replied s)"
    using inv_parts [OF inv] .
  have fi: "i < length fds" "fds ! i = Some c"
    using fds i by simp_all
  obtain k where k: "table s c = Some k"
    using o fi by (metis nth_mem option.exhaust)
  then have w: "whose (table s) fds ! i = Some k" "i < length (whose (table s) fds)"
    using fi by (simp_all add: whose_def)
  have pn: "seen p = (g, q, fds[i := None], h)"
    using worker_returns_seen [OF p i(2)] sn by (auto simp: seen_of_def)
  have inj: "\<forall>c d k. table s c = Some k \<and> table s d = Some k \<longrightarrow> c = d"
    using d by (simp add: descs_def)
  have only: "fds ! l \<noteq> Some c" if "l < length fds" "l \<noteq> i" for l
    using j sole_other [OF _ w, of l] that k by (auto simp: jobs_def whose_def)
  have "k \<in> set (take (length g) (logged s))"
    using j w by (force simp: jobs_def with_client_def)
  then have "descs ((table s)(c := None)) (arrived s) (logged s) (length g) q h"
    by (rule descs_close [OF d k])
  moreover have "\<forall>e. Some e \<in> set (fds[i := None]) \<longrightarrow> ((table s)(c := None)) e \<noteq> None"
    using o only fi by (auto simp: in_set_conv_nth nth_list_update split: if_splits)
  moreover have "pool_inv p"
    using inv pool_step_inv [OF by_worker [OF p]] by (simp add: server_inv_def)
  ultimately show ?thesis
    using pn jobs_close [OF j w r k inj] whose_close [OF fi only] by (simp add: server_inv_def)
qed

text \<open>The client of a worker.\<close>

lemma worker_has:
  assumes "server_inv A clients s" and "i < length (stages (team s))" and "client_of (stages (team s) ! i) = Some c"
  shows "\<exists>k. table s c = Some k \<and> (if replied s ! i then A k (socks s k) else socks s k = clients k)"
proof -
  let ?fds = "map client_of (stages (team s))" and ?lg = "take (length (procs (given (team s)))) (logged s)"
  have j: "jobs A clients (table s) ?lg (socks s) (whose (table s) ?fds) (replied s)"
    and o: "\<forall>c. Some c \<in> set ?fds \<longrightarrow> table s c \<noteq> None"
    using assms(1) by (simp_all add: server_inv_def seen_of_def)
  have "Some c \<in> set ?fds"
    using assms(2,3) by (metis length_map nth_map nth_mem)
  then obtain k where k: "table s c = Some k"
    using o by blast
  then have "whose (table s) ?fds ! i = Some k" "i < length (whose (table s) ?fds)"
    using assms(2,3) by (simp_all add: whose_def)
  then have "with_client A clients ?lg (socks s) (Some k) (replied s ! i)"
    using j unfolding jobs_def by metis
  then show ?thesis
    using k by (simp add: with_client_def)
qed

lemma server_worker_inv:
  assumes step: "server_worker_step fs al junk i s = Some (Inr s')" and inv: "server_inv A clients s"
    and A: "\<And>k c'. checkAndSend_socket fs al junk (clients k) = Inr c' \<Longrightarrow> A k c'"
  shows "server_inv A clients s'"
proof (cases "if i < length (stages (team s)) then client_of (stages (team s) ! i) else None")
  case None
  then show ?thesis
    using step worker_takes_client_inv [OF inv] by (auto simp: server_worker_step_def split: if_splits)
next
  case (Some c)
  then have i: "i < length (stages (team s))" "client_of (stages (team s) ! i) = Some c"
    by (auto split: if_splits)
  obtain k where k: "table s c = Some k"
    using worker_has [OF inv i] by blast
  show ?thesis
  proof (cases "replied s ! i")
    case False
    obtain c' where c': "checkAndSend_socket fs al junk (socks s k) = Inr c'"
      and s': "s' = s\<lparr>socks := (socks s)(k := c'), replied := (replied s)[i := True]\<rparr>"
      using step Some False k by (auto simp: server_worker_step_def Let_def result_simps)
    show ?thesis
      unfolding s' using A c' by (intro worker_answers_inv [OF inv i k False]) simp
  next
    case True
    then show ?thesis
      using step Some worker_closes_inv [OF inv i True] by (auto simp: server_worker_step_def Let_def)
  qed
qed

section \<open>Runs\<close>

text \<open>What is asked of the surroundings: requests, files and listings that fit, and memory.\<close>

definition serving :: "filesystem \<Rightarrow> allocator \<Rightarrow> (nat \<Rightarrow> sock) \<Rightarrow> bool" where
  "serving fs al clients \<longleftrightarrow> fs_ok fs \<and> ample al \<and> fs_small fs \<and> (\<forall>k. fits (rx (clients k)))"

abbreviation got_answer :: "filesystem \<Rightarrow> allocator \<Rightarrow> (nat \<Rightarrow> sock) \<Rightarrow> nat \<Rightarrow> sock \<Rightarrow> bool" where
  "got_answer fs al clients k c' \<equiv> served_as fs al (NUL, NUL) (clients k) c'"

lemma serving_answers:
  assumes "serving fs al clients"
  shows "\<exists>c'. checkAndSend_socket fs al junk (clients k) = Inr c' \<and> got_answer fs al clients k c'"
proof -
  have "checkAndSend fs al junk = checkAndSend fs al (NUL, NUL)"
    using checkAndSend_junk by blast
  then have "checkAndSend_socket fs al junk c = checkAndSend_socket fs al (NUL, NUL) c" for c
    unfolding checkAndSend_socket_def by presburger
  moreover obtain c' where "got_answer fs al clients k c'"
    using connection_served [of fs al "clients k" "(NUL, NUL)"] assms unfolding serving_def by blast
  ultimately show ?thesis
    by (auto simp: served_as_def)
qed

lemma server_moves_inv:
  assumes "server_moves fs al junk m s = Some (Inr s')" and "server_inv (got_answer fs al clients) clients s"
    and "serving fs al clients"
  shows "server_inv (got_answer fs al clients) clients s'"
proof (cases m)
  case M_Main
  then show ?thesis
    using assms(1) main_effect_inv [OF _ _ assms(2)] main_effect_cases [of "main_step (team s)" s s']
    by (auto simp: server_main_step_def)
next
  case M_Signal
  then show ?thesis
    using assms(1,2) same_seen_inv [OF assms(2) signal_seen [where a = PROCESS]] pool_step_inv [OF by_signal]
    by (auto simp: server_inv_def)
next
  case M_Handler
  then show ?thesis
    using assms(1,2) same_seen_inv [OF assms(2) handler_seen [where a = PROCESS]] pool_step_inv [OF by_handler]
    by (auto simp: server_inv_def)
next
  case (M_Worker i)
  have "got_answer fs al clients k c'" if "checkAndSend_socket fs al junk (clients k) = Inr c'" for k c'
    using serving_answers [OF assms(3), of junk k] that by auto
  then show ?thesis
    using assms(1,2) M_Worker server_worker_inv by simp
qed

lemma server_reach_inv:
  assumes "(server_step fs al)\<^sup>*\<^sup>* s s'" and "server_inv (got_answer fs al clients) clients s" and "serving fs al clients"
  shows "server_inv (got_answer fs al clients) clients s'"
  using assms(1)
proof (induction rule: rtranclp_induct)
  case (step t u)
  then show ?case
    using server_moves_inv [OF _ _ assms(3)] by (auto elim: server_stepE)
qed (rule assms(2))

lemmas server_reached = server_reach_inv [OF _ start_server_inv]

text \<open>What the invariant says of the clients.\<close>

lemma inv_untouched:
  assumes "server_inv A clients s"
  shows "socks s k = clients k \<or> A k (socks s k)"
proof -
  let ?fds = "map client_of (stages (team s))" and ?lg = "take (length (procs (given (team s)))) (logged s)"
  have j: "jobs A clients (table s) ?lg (socks s) (whose (table s) ?fds) (replied s)"
    using assms by (simp add: server_inv_def seen_of_def)
  consider "k \<notin> set ?lg" | "A k (socks s k)" | "Some k \<in> set (whose (table s) ?fds)"
    using j unfolding jobs_def by blast
  then show ?thesis
  proof cases
    case 3
    then obtain i where "i < length (whose (table s) ?fds)" "whose (table s) ?fds ! i = Some k"
      by (auto simp: in_set_conv_nth)
    then have "with_client A clients ?lg (socks s) (Some k) (replied s ! i)"
      using j unfolding jobs_def by metis
    then show ?thesis
      by (auto simp: with_client_def split: if_splits)
  qed (use j in \<open>simp_all add: jobs_def\<close>)
qed

lemma whose_ran:
  assumes "Some k \<in> set (whose tbl fds)"
  shows "k \<in> ran tbl"
proof -
  obtain d where "Option.bind d tbl = Some k"
    using assms by (force simp: whose_def)
  then show ?thesis
    by (cases d) (auto simp: ran_def)
qed

lemma inv_closed:
  assumes "server_inv A clients s" and "k < arrived s" and "k \<notin> ran (table s)"
  shows "A k (socks s k)"
  using assms whose_ran by (fastforce simp: server_inv_def seen_of_def descs_def jobs_def)

lemma inv_alone:
  assumes "server_inv A clients s" and "i < length (stages (team s))" and "j < length (stages (team s))"
    and "client_of (stages (team s) ! i) = Some c" and "client_of (stages (team s) ! j) = Some c"
  shows "i = j"
proof -
  obtain k where "table s c = Some k"
    using worker_has [OF assms(1,2,4)] by blast
  then show ?thesis
    using assms sole_other [of "whose (table s) (map client_of (stages (team s)))" j k i]
    by (simp add: server_inv_def seen_of_def jobs_def whose_def)
qed

text \<open>A step of the server is a step of the pool, or one that the pool does not see.\<close>

lemma server_step_pool:
  assumes "server_step fs al s s'"
  shows "pool_step\<^sup>=\<^sup>= (team s) (team s')"
  using assms
proof (rule server_stepE)
  fix junk m assume step: "server_moves fs al junk m s = Some (Inr s')"
  show ?thesis
  proof (cases m)
    case M_Main
    then show ?thesis
      using step main_effect_cases [of "main_step (team s)" s s'] by (auto simp: server_main_step_def intro: by_main)
  qed (use step in \<open>auto simp: server_worker_step_def Let_def result_simps
      intro: pool_step.intros split: option.splits if_splits\<close>)
qed

lemma server_reach_pool: "(server_step fs al)\<^sup>*\<^sup>* s s' \<Longrightarrow> pool_step\<^sup>*\<^sup>* (team s) (team s')"
proof (induction rule: rtranclp_induct)
  case (step t u)
  then show ?case
    using server_step_pool [of fs al t u] by auto
qed simp

text \<open>No step faults.\<close>

lemma server_worker_faults:
  assumes "server_worker_step fs al junk i s = Some (Inl e)" and "server_inv (got_answer fs al clients) clients s"
    and "serving fs al clients"
  shows "worker_pool_step i (team s) = Some (Inl e)"
proof (cases "if i < length (stages (team s)) then client_of (stages (team s) ! i) else None")
  case None
  then show ?thesis
    using assms(1) by (auto simp: server_worker_step_def Let_def)
next
  case (Some c)
  then have "i < length (stages (team s))" "client_of (stages (team s) ! i) = Some c"
    by (auto split: if_splits)
  then obtain k where k: "table s c = Some k"
    "if replied s ! i then got_answer fs al clients k (socks s k) else socks s k = clients k"
    using worker_has [OF assms(2)] by blast
  obtain c' where c': "checkAndSend_socket fs al junk (clients k) = Inr c'"
    using serving_answers [OF assms(3)] by blast
  show ?thesis
  proof (cases "replied s ! i")
    case True
    then show ?thesis
      using assms(1) Some by (simp add: server_worker_step_def Let_def)
  next
    case False
    then have "server_worker_step fs al junk i s =
        Some (Inr (s\<lparr>socks := (socks s)(k := c'), replied := (replied s)[i := True]\<rparr>))"
      using k c' Some unfolding server_worker_step_def Let_def by simp
    then show ?thesis
      using assms(1) by simp
  qed
qed

lemma server_moves_faults:
  assumes "server_moves fs al junk m s = Some (Inl e)" and inv: "server_inv (got_answer fs al clients) clients s"
    and "serving fs al clients"
  shows "e = Exit_With SOCKET_FAILURE"
proof -
  have pi: "pool_inv (team s)"
    using inv by (simp add: server_inv_def)
  have "moves m (team s) = Some (Inl e)"
  proof (cases m)
    case M_Main
    then show ?thesis
      using assms(1) main_effect_fault by (simp add: server_main_step_def)
  next
    case (M_Worker i)
    then show ?thesis
      using assms(1) server_worker_faults [OF _ inv assms(3)] by simp
  qed (use assms(1) in simp_all)
  then show ?thesis
    using moves_keeps [OF pi, of m] by (simp add: pool_keeps_def)
qed

section \<open>Towards an answer\<close>

lemma moved: "server_moves fs al junk m s = Some (Inr t) \<Longrightarrow> (server_step fs al)\<^sup>*\<^sup>* t u \<Longrightarrow> (server_step fs al)\<^sup>*\<^sup>* s u"
  by (blast intro: server_moved converse_rtranclp_into_rtranclp)

text \<open>A worker with a client, answered or not, can always go on to the end of it.\<close>

lemma worker_finishes:
  assumes inv: "server_inv (got_answer fs al clients) clients s" and "serving fs al clients"
    and i: "i < length (stages (team s))" "client_of (stages (team s) ! i) = Some c"
    and p: "worker_pool_step i (team s) = Some (Inr p)"
  shows "\<exists>k s'. table s c = Some k \<and> (server_step fs al)\<^sup>*\<^sup>* s s' \<and> team s' = p \<and>
    got_answer fs al clients k (socks s' k) \<and> k \<notin> ran (table s')"
proof -
  obtain k where k: "table s c = Some k"
    "if replied s ! i then got_answer fs al clients k (socks s k) else socks s k = clients k"
    using worker_has [OF inv i] by blast
  have inj: "\<forall>d. table s d = Some k \<longrightarrow> d = c"
    using inv k(1) by (simp add: server_inv_def descs_def seen_of_def)
  have "i < length (replied s)"
    using inv i(1) by (simp add: server_inv_def jobs_def seen_of_def whose_def)
  have close: "\<exists>s'. (server_step fs al)\<^sup>*\<^sup>* t s' \<and> team s' = p \<and> socks s' = socks t \<and> k \<notin> ran (table s')"
    if "team t = team s" "table t = table s" "replied t ! i" for t
  proof -
    let ?u = "t\<lparr>team := p, table := (table s)(c := None), replied := (replied t)[i := False]\<rparr>"
    have "server_moves fs al (NUL, NUL) (M_Worker i) t = Some (Inr ?u)"
      using that i p by (simp add: server_worker_step_def with_pool_def)
    then have "(server_step fs al)\<^sup>*\<^sup>* t ?u"
      using moved by blast
    moreover have "k \<notin> ran ((table s)(c := None))"
      using inj by (auto simp: ran_def)
    ultimately show ?thesis
      by (intro exI [of _ ?u]) simp
  qed
  show ?thesis
  proof (cases "replied s ! i")
    case True
    then show ?thesis
      using k close [of s] by auto
  next
    case False
    obtain c' where c': "checkAndSend_socket fs al (NUL, NUL) (clients k) = Inr c'" "got_answer fs al clients k c'"
      using serving_answers [OF assms(2)] by blast
    let ?t = "s\<lparr>socks := (socks s)(k := c'), replied := (replied s)[i := True]\<rparr>"
    have answer: "server_moves fs al (NUL, NUL) (M_Worker i) s = Some (Inr ?t)"
      using i k False c'(1) by (simp add: server_worker_step_def)
    obtain s' where "(server_step fs al)\<^sup>*\<^sup>* ?t s'" "team s' = p" "socks s' = socks ?t" "k \<notin> ran (table s')"
      using close [of ?t] \<open>i < length (replied s)\<close> by auto
    then show ?thesis
      using k(1) c'(2) moved [OF answer] by (intro exI [of _ k] exI [of _ s']) simp
  qed
qed

text \<open>What the pool can do by itself, the server can.\<close>

lemma server_follows:
  assumes "inner_step (team s) p" and "server_inv (got_answer fs al clients) clients s" and "serving fs al clients"
  shows "\<exists>s'. (server_step fs al)\<^sup>*\<^sup>* s s' \<and> team s' = p"
  using assms(1)
proof (rule inner_stepE)
  assume "main_step (team s) = Some (Inr p)" "main_at (team s) \<noteq> Accepting"
  then have "\<exists>s'. server_moves fs al (NUL, NUL) M_Main s = Some (Inr s') \<and> team s' = p"
    by (auto simp: server_main_step_def main_effect_def split: main_stage.split)
  then show ?thesis
    using moved by blast
next
  assume "handler_step (team s) = Some (Inr p)"
  then have "server_moves fs al (NUL, NUL) M_Handler s = Some (Inr (s\<lparr>team := p\<rparr>))"
    by simp
  then show ?thesis
    using moved by fastforce
next
  fix i assume p: "worker_pool_step i (team s) = Some (Inr p)"
  then have i: "i < length (stages (team s))"
    by (auto simp: worker_pool_step_def split: if_splits)
  show ?thesis
  proof (cases "client_of (stages (team s) ! i)")
    case None
    then have "server_moves fs al (NUL, NUL) (M_Worker i) s = Some (Inr (s\<lparr>team := p\<rparr>))"
      using p by (simp add: server_worker_step_def Let_def with_pool_def)
    then show ?thesis
      using moved by fastforce
  next
    case (Some c)
    then show ?thesis
      using worker_finishes [OF assms(2,3) i Some p] by blast
  qed
qed

lemma server_follows_run:
  assumes "inner_step\<^sup>*\<^sup>* p0 p" and "team s = p0" and "server_inv (got_answer fs al clients) clients s"
    and "serving fs al clients"
  shows "\<exists>s'. (server_step fs al)\<^sup>*\<^sup>* s s' \<and> team s' = p"
  using assms(1)
proof (induction rule: rtranclp_induct)
  case base
  then show ?case
    using assms(2) by blast
next
  case (step p q)
  then obtain t where t: "(server_step fs al)\<^sup>*\<^sup>* s t" "team t = p"
    by blast
  then show ?case
    using server_follows [OF _ server_reach_inv [OF t(1) assms(3,4)] assms(4), of q] step.hyps(2)
    by (meson rtranclp_trans)
qed

lemma logged_grows: "(server_step fs al)\<^sup>*\<^sup>* s t \<Longrightarrow> prefix (logged s) (logged t)"
proof (induction rule: rtranclp_induct)
  case (step t u)
  obtain junk m where "server_moves fs al junk m t = Some (Inr u)"
    using step.hyps(2) by (auto elim: server_stepE)
  then have "prefix (logged t) (logged u)"
    by (cases m) (auto simp: server_main_step_def main_effect_def server_worker_step_def Let_def result_simps
        split: option.splits sum.splits main_stage.splits if_splits)
  then show ?case
    using step.IH by (rule prefix_order.trans [rotated])
qed simp

lemma next_client_answered:
  assumes inv: "server_inv (got_answer fs al clients) clients s" and sv: "serving fs al clients"
    and "cheld (queue (team s)) = (c, PROCESS) # xs" and "i < length (stages (team s))"
    and "\<not> stopped (stages (team s) ! i)" and "\<not> self_locked (team s)"
  shows "\<exists>k s'. table s c = Some k \<and> (server_step fs al)\<^sup>*\<^sup>* s s' \<and> got_answer fs al clients k (socks s' k) \<and>
    k \<notin> ran (table s')"
proof -
  let ?m = "length (procs (given (team s)))"
  have "pool_inv (team s)"
    using inv by (simp add: server_inv_def)
  then obtain p where p: "inner_step\<^sup>*\<^sup>* (team s) p" "given p = given (team s) @ [(c, PROCESS)]"
    using next_job_given assms(3-6) by blast
  obtain t where t: "(server_step fs al)\<^sup>*\<^sup>* s t" "team t = p"
    using server_follows_run [OF p(1) refl inv sv] by blast
  have "descs (table s) (arrived s) (logged s) ?m (c # procs xs) (hand PROCESS (team s))"
    using inv assms(3) by (simp add: server_inv_def seen_of_def)
  then obtain k where k: "table s c = Some k" "?m < length (logged s)" "logged s ! ?m = k"
    using descs_next by blast
  have invt: "server_inv (got_answer fs al clients) clients t"
    by (rule server_reach_inv [OF t(1) inv sv])
  have "k \<in> set (take (Suc ?m) (logged t))"
    using logged_grows [OF t(1)] k(2,3) by (auto simp: prefix_def take_Suc_conv_app_nth nth_append)
  then consider "got_answer fs al clients k (socks t k)" "k \<notin> ran (table t)"
    | "Some k \<in> set (whose (table t) (map client_of (stages p)))"
    using invt t(2) p(2) by (auto simp: server_inv_def seen_of_def jobs_def)
  then show ?thesis
  proof cases
    case 1
    then show ?thesis
      using k(1) t(1) by blast
  next
    case 2
    then obtain w where "w \<in> set (stages p)" "Option.bind (client_of w) (table t) = Some k"
      by (force simp: whose_def)
    then obtain j d where j: "j < length (stages p)" "client_of (stages p ! j) = Some d" "table t d = Some k"
      by (auto simp: in_set_conv_nth bind_eq_Some_conv)
    then have "\<exists>q. worker_pool_step j p = Some (Inr q)"
      by (cases "stages p ! j") (auto simp: job_of_def worker_pool_step_def)
    then show ?thesis
      using worker_finishes [OF invt sv, of j d] j k(1) t by (metis option.inject rtranclp_trans)
  qed
qed

section \<open>At the end\<close>

lemma inv_drained:
  assumes inv: "server_inv A clients s" and "pool_step\<^sup>*\<^sup>* (start_pool n cs gs) (team s)"
    and "list_all (\<lambda>w. w = Exited) (stages (team s))" and "accepted (team s) = xs @ (c, TERMINATE) # ys"
  shows "\<forall>k \<in> set (take (length (procs xs)) (logged s)). A k (socks s k) \<and> k \<notin> ran (table s)"
proof -
  obtain zs where "given (team s) = xs @ (c, TERMINATE) # zs"
    using drained [OF assms(2-4)] by blast
  then have "length (procs xs) \<le> length (procs (given (team s)))"
    by simp
  then have early: "set (take (length (procs xs)) (logged s)) \<subseteq> set (take (length (procs (given (team s)))) (logged s))"
    by (rule set_take_subset_set_take)
  have "client_of w = None" if "w \<in> set (stages (team s))" for w
    using assms(3) that by (auto simp: list_all_iff job_of_def)
  then have "Some k \<notin> set (whose (table s) (map client_of (stages (team s))))" for k
    by (auto simp: whose_def)
  then show ?thesis
    using inv early by (auto simp: server_inv_def seen_of_def jobs_def)
qed

end
