(* ===== verification/ProxyPool.thy ===== *)
theory ProxyPool
  imports PoolRuns
begin

text \<open>
  The proxy's pool of workers (src/proxy.c): its \<open>main\<close> differs from the server's in that it never
  polls the shared memory and that its socket blocks, so that every failure of \<open>accept\<close> is an error;
  its own handler of SIGINT and waiting loop turn out to make the server's steps. Every run of it is a run of the server's pool, whose invariants it inherits.
\<close>

section \<open>The steps\<close>

definition proxy_main_step :: "pool \<Rightarrow> pool result option" where
  "proxy_main_step s = (if handler s \<noteq> None then None else case main_at s of
     Head \<Rightarrow> Some (Inr (s\<lparr>main_at := if LOOP s then Entering else Left\<rparr>))
   | Entering \<Rightarrow> Some (Inr (s\<lparr>main_at := Accepting, eintr := False\<rparr>))
   | Accepting \<Rightarrow>
       if eintr s then
         (if \<not> LOOP s then Some (Inr (s\<lparr>main_at := Left\<rparr>)) else Some (Inl (Exit_With SOCKET_FAILURE)))
       else (case incoming s of
         [] \<Rightarrow> None
       | Client c # cs \<Rightarrow> Some (Inr (s\<lparr>main_at := Got (c, PROCESS), incoming := cs\<rparr>))
       | _ # cs \<Rightarrow>
           if \<not> LOOP s then Some (Inr (s\<lparr>main_at := Left, incoming := cs\<rparr>))
           else Some (Inl (Exit_With SOCKET_FAILURE)))
   | Got x \<Rightarrow>
       if owner s = None then Some (Inr (s\<lparr>main_at := Adding x, owner := Some Main_Thread\<rparr>)) else None
   | Adding x \<Rightarrow> Some (bindR (put_job x s) (\<lambda>s1. Inr (s1\<lparr>main_at := Added (snd x)\<rparr>)))
   | Added a \<Rightarrow> Some (Inr (s\<lparr>sleepers := [], main_at := Unlocking a\<rparr>))
   | Unlocking a \<Rightarrow> Some (Inr (s\<lparr>owner := None, main_at := Head\<rparr>))
   | Left \<Rightarrow>
       if list_all (\<lambda>w. w = Exited) (stages s) then Some (Inr (s\<lparr>main_at := Finished\<rparr>)) else None
   | _ \<Rightarrow> None)"

text \<open>The proxy's \<open>catchInterrupt\<close>, and the head of its \<open>handleClient\<close>.\<close>

definition proxy_catchInterrupt :: "pool \<Rightarrow> pool result option" where
  "proxy_catchInterrupt s =
     (if handler s \<noteq> None \<or> main_at s = Finished then None
      else Some (Inr (if \<not> LOOP s then s\<lparr>eintr := (main_at s = Accepting)\<rparr>
        else s\<lparr>LOOP := False, handler := Some (H_Lock (length (stages s))), eintr := (main_at s = Accepting)\<rparr>)))"

definition proxy_handler_step :: "pool \<Rightarrow> pool result option" where
  "proxy_handler_step s = (case handler s of
     None \<Rightarrow> None
   | Some (H_Lock 0) \<Rightarrow> Some (Inr (s\<lparr>handler := None\<rparr>))
   | Some (H_Lock (Suc i)) \<Rightarrow>
       if owner s = None then Some (Inr (s\<lparr>handler := Some (H_Add i), owner := Some Main_Thread\<rparr>)) else None
   | Some (H_Add i) \<Rightarrow> Some (bindR (put_job (0, TERMINATE) s) (\<lambda>s1. Inr (s1\<lparr>handler := Some (H_Added i)\<rparr>)))
   | Some (H_Added i) \<Rightarrow> Some (Inr (s\<lparr>sleepers := [], handler := Some (H_Unlock i)\<rparr>))
   | Some (H_Unlock i) \<Rightarrow> Some (Inr (s\<lparr>owner := None, handler := Some (H_Lock i)\<rparr>)))"

definition proxy_worker_pool_step :: "nat \<Rightarrow> pool \<Rightarrow> pool result option" where
  "proxy_worker_pool_step i s = (if length (stages s) \<le> i then None else
     let at = (\<lambda>w. s\<lparr>stages := (stages s)[i := w]\<rparr>) in
     case stages s ! i of
       Locking \<Rightarrow> if owner s = None then Some (Inr ((at Testing)\<lparr>owner := Some (Pool_Thread i)\<rparr>)) else None
     | Testing \<Rightarrow>
         if isEmpty (fst (queue s)) then Some (Inr ((at Waiting)\<lparr>owner := None, sleepers := sleepers s @ [i]\<rparr>))
         else Some (bindR (cget (queue s)) (\<lambda>(client, q).
           Inr ((at (Given client))\<lparr>queue := q, owner := None, given := given s @ [client]\<rparr>)))
     | Waiting \<Rightarrow>
         if i \<notin> set (sleepers s) \<and> owner s = None
         then Some (Inr ((at Testing)\<lparr>owner := Some (Pool_Thread i)\<rparr>)) else None
     | Given client \<Rightarrow> Some (Inr (if snd client = TERMINATE then at Exited else at Locking))
     | Exited \<Rightarrow> None)"

text \<open>They are the server's.\<close>

lemma proxy_same_steps [simp]:
  "proxy_catchInterrupt s = catchInterrupt s"
  "proxy_handler_step s = handler_step s"
  "proxy_worker_pool_step i s = worker_pool_step i s"
  by (auto simp: proxy_catchInterrupt_def catchInterrupt_def proxy_handler_step_def handler_step_def
      proxy_worker_pool_step_def worker_pool_step_def Let_def
      split: option.split handler_stage.split nat.split worker_stage.split intro!: arg_cong [where f = "bindR _"])

inductive proxy_pool_step :: "pool \<Rightarrow> pool \<Rightarrow> bool" where
  proxy_main: "proxy_main_step s = Some (Inr s') \<Longrightarrow> proxy_pool_step s s'"
| proxy_signal: "proxy_catchInterrupt s = Some (Inr s') \<Longrightarrow> proxy_pool_step s s'"
| proxy_handler: "proxy_handler_step s = Some (Inr s') \<Longrightarrow> proxy_pool_step s s'"
| proxy_worker: "proxy_worker_pool_step i s = Some (Inr s') \<Longrightarrow> proxy_pool_step s s'"

inductive_cases proxy_pool_stepE: "proxy_pool_step s s'"

section \<open>The simulation\<close>

text \<open>What the proxy's main thread can meet: it has no shared requests, as job or as arrival.\<close>

definition socket_only :: "pool \<Rightarrow> bool" where
  "socket_only s \<longleftrightarrow> Shared_Request \<notin> set (incoming s) \<and>
     (\<forall>c. main_at s \<noteq> Got (c, SHARED) \<and> main_at s \<noteq> Adding (c, SHARED)) \<and>
     main_at s \<noteq> Added SHARED \<and> main_at s \<noteq> Unlocking SHARED"

lemma put_job_same: "put_job x s = Inr s1 \<Longrightarrow> incoming s1 = incoming s \<and> main_at s1 = main_at s \<and> handler s1 = handler s"
  by (auto simp: put_job_def result_simps)

lemma proxy_main_simulated:
  assumes "proxy_main_step s = Some (Inr s')" and "socket_only s"
  shows "pool_step\<^sup>*\<^sup>* s s' \<and> socket_only s'"
proof (cases "main_at s = Head \<and> LOOP s")
  case True
  let ?p = "s\<lparr>main_at := Polling\<rparr>"
  have h: "handler s = None" and s': "s' = s\<lparr>main_at := Entering\<rparr>"
    using assms(1) True by (auto simp: proxy_main_step_def split: if_splits)
  have "main_step s = Some (Inr ?p)"
    using h True by (simp add: main_step_def)
  moreover have "main_step ?p = Some (Inr s')"
    using h s' assms(2) by (simp add: main_step_def socket_only_def split: list.split arrival.split) auto
  ultimately have "pool_step s ?p" "pool_step ?p s'"
    by (blast intro: by_main)+
  then have "pool_step\<^sup>*\<^sup>* s s'"
    by (meson r_into_rtranclp rtranclp.rtrancl_into_rtrancl)
  then show ?thesis
    using assms(2) s' by (simp add: socket_only_def)
next
  case False
  have "main_step s = Some (Inr s')"
    using assms False
    by (auto simp: proxy_main_step_def main_step_def socket_only_def result_simps
        split: main_stage.splits if_splits list.splits arrival.splits instruction.splits)
  moreover have "socket_only s'"
    using assms False
    by (auto simp: proxy_main_step_def socket_only_def result_simps dest: put_job_same
        split: main_stage.splits if_splits list.splits arrival.splits)
  ultimately show ?thesis
    by (blast intro: by_main)
qed

lemma signal_frame: "catchInterrupt s = Some (Inr s') \<Longrightarrow> incoming s' = incoming s \<and> main_at s' = main_at s"
  by (auto simp: catchInterrupt_def split: if_splits)

lemma handler_frame:
  assumes "handler_step s = Some (Inr s')"
  shows "incoming s' = incoming s \<and> main_at s' = main_at s"
proof (cases "handler s")
  case (Some h)
  then show ?thesis
    using assms by (cases h) (auto simp: handler_step_def result_simps dest: put_job_same split: if_splits)
qed (use assms in \<open>simp add: handler_step_def\<close>)

lemma worker_frame:
  assumes "worker_pool_step i s = Some (Inr s')"
  shows "incoming s' = incoming s \<and> main_at s' = main_at s"
  using assms
  by (cases "stages s ! i") (auto simp: worker_pool_step_def result_simps split: if_splits)

lemma same_socket_only:
  "incoming s' = incoming s \<and> main_at s' = main_at s \<Longrightarrow> socket_only s \<Longrightarrow> socket_only s'"
  by (simp add: socket_only_def)

lemma proxy_pool_simulated:
  assumes "proxy_pool_step s s'" and "socket_only s"
  shows "pool_step\<^sup>*\<^sup>* s s' \<and> socket_only s'"
  using assms(1)
proof (rule proxy_pool_stepE)
  assume "proxy_main_step s = Some (Inr s')"
  then show ?thesis
    using assms(2) by (rule proxy_main_simulated)
qed (use signal_frame handler_frame worker_frame same_socket_only [OF _ assms(2)] pool_step.intros in blast)+

lemma proxy_pool_reach:
  assumes "proxy_pool_step\<^sup>*\<^sup>* s t" and "socket_only s"
  shows "pool_step\<^sup>*\<^sup>* s t \<and> socket_only t"
  using assms(1)
proof (induction rule: rtranclp_induct)
  case base
  then show ?case
    using assms(2) by simp
next
  case (step t u)
  then show ?case
    using proxy_pool_simulated by (meson rtranclp_trans)
qed

lemma start_socket_only: "Shared_Request \<notin> set cs \<Longrightarrow> socket_only (start_pool n cs gs)"
  by (simp add: socket_only_def start_pool_def)

lemma proxy_main_faults:
  assumes "proxy_main_step s = Some (Inl e)"
  shows "e = Exit_With SOCKET_FAILURE \<or> main_step s = Some (Inl e)"
  using assms
  by (auto simp: proxy_main_step_def main_step_def result_simps
      split: main_stage.splits if_splits list.splits arrival.splits)

section \<open>Properties\<close>

text \<open>
  C15: every run of the proxy's pool is a run of the server's, so that what holds of that in every
  interleaving holds of the proxy: its workers are given, in order and each once, the connections that
  its list accepted, no step faults on the list, the mutex excludes, and no wake-up is lost.
\<close>

theorem proxy_pool_refines:
  assumes "proxy_pool_step\<^sup>*\<^sup>* (start_pool n cs gs) s" and "Shared_Request \<notin> set cs"
  shows "pool_step\<^sup>*\<^sup>* (start_pool n cs gs) s \<and> given s @ cheld (queue s) = accepted s \<and>
    (\<forall>e. proxy_main_step s = Some (Inl e) \<longrightarrow> e = Exit_With SOCKET_FAILURE) \<and>
    (\<forall>i < n. stages s ! i = Testing \<longrightarrow> \<not> main_holds s) \<and>
    (sleepers s \<noteq> [] \<longrightarrow> cheld (queue s) = [] \<or> about_to_wake s)"
proof -
  have run: "pool_step\<^sup>*\<^sup>* (start_pool n cs gs) s"
    using proxy_pool_reach [OF assms(1) start_socket_only [OF assms(2)]] by blast
  have inv: "pool_inv s" and n: "length (stages s) = n"
    using reached_inv pool_reach_length run by (force simp: start_pool_def)+
  have "e = Exit_With SOCKET_FAILURE" if "proxy_main_step s = Some (Inl e)" for e
    using proxy_main_faults [OF that] moves_keeps [OF inv, of M_Main] by (auto simp: pool_keeps_def)
  then show ?thesis
    using run inv n tester(2,4) [OF inv] by (auto simp: pool_inv_def)
qed

theorem proxy_pool_refines_witness:
  "\<exists>s. proxy_pool_step\<^sup>*\<^sup>* (start_pool 1 [Client 7] []) s \<and> main_at s = Got (7, PROCESS) \<and>
     given s @ cheld (queue s) = accepted s"
proof -
  let ?s0 = "start_pool 1 [Client 7] []"
  let ?s1 = "?s0\<lparr>main_at := Entering\<rparr>" and ?s2 = "?s0\<lparr>main_at := Accepting\<rparr>"
  let ?s3 = "?s0\<lparr>main_at := Got (7, PROCESS), incoming := []\<rparr>"
  have "proxy_pool_step ?s0 ?s1" "proxy_pool_step ?s1 ?s2" "proxy_pool_step ?s2 ?s3"
    by (rule proxy_main; simp add: proxy_main_step_def start_pool_def)+
  then have run: "proxy_pool_step\<^sup>*\<^sup>* ?s0 ?s3"
    by (meson converse_rtranclp_into_rtranclp rtranclp.rtrancl_refl)
  show ?thesis
    using proxy_pool_refines [OF run] run by (intro exI [of _ ?s3]) (simp add: start_pool_def)
qed

end
