(* ===== verification/ProxyRun.thy ===== *)
theory ProxyRun
  imports ServerRun ProxyPool Relay
begin

text \<open>
  The proxy as a whole, src/proxy.c at work on sockets: its pool of workers, the table of open
  descriptors and the clients' sockets as in ServerRun.thy, and for each worker the relaying of
  Relay.thy over the one global \<open>serverSock\<close>. With one worker every client gets exactly the answer
  of its server in every interleaving with the accepting thread, the signal and its handler; what
  several workers do to each other is in Relay.thy. The proxy is one without \<open>-o\<close>: the shared
  memory is the subject of Exchange.thy.
\<close>

section \<open>The state and the steps\<close>

text \<open>\<open>relays\<close> has the relaying that each worker is at, once the request was read.\<close>

record proxy_state =
  base :: server_state
  relays :: "relay option list"
  nets :: sockets

definition start_proxy :: "nat \<Rightarrow> (nat \<Rightarrow> sock) \<Rightarrow> arrival list \<Rightarrow> bool list \<Rightarrow> sockets \<Rightarrow> proxy_state" where
  "start_proxy n clients cs gs g = \<lparr>base = start_server n clients cs gs, relays = replicate n None, nets = g\<rparr>"

definition with_base :: "server_state result option \<Rightarrow> (server_state \<Rightarrow> proxy_state) \<Rightarrow> proxy_state result option" where
  "with_base r f = map_option (\<lambda>x. bindR x (\<lambda>b. Inr (f b))) r"

lemma with_base_iff [simp]:
  "with_base r f = Some (Inr s') \<longleftrightarrow> (\<exists>b. r = Some (Inr b) \<and> s' = f b)"
  "with_base r f = Some (Inl e) \<longleftrightarrow> r = Some (Inl e)"
  by (cases r; cases "the r"; auto simp: with_base_def)+

text \<open>Reading the request and deciding; an error page ends the matter.\<close>

definition begin_relay :: "allocator \<Rightarrow> network \<Rightarrow> bool \<Rightarrow> nat \<Rightarrow> nat \<Rightarrow> proxy_state \<Rightarrow> proxy_state result option" where
  "begin_relay al net COMPRESS i k s =
     (let b = base s; c = socks b k in
      case proxy_route al net False COMPRESS OFFLINE (rx c) of
        Inl e \<Rightarrow> Some (Inl e)
      | Inr (Fail status title why) \<Rightarrow>
          Some (bindR (sendError status title None why) (\<lambda>page.
            bindR (sendResponse_socket page c) (\<lambda>c'.
              Inr (s\<lparr>base := b\<lparr>socks := (socks b)(k := c'), replied := (replied b)[i := True]\<rparr>\<rparr>))))
      | Inr (Shared_Memory h jpg full ip) \<Rightarrow> None
      | Inr (To_Server h jpg a) \<Rightarrow>
          Some (Inr (s\<lparr>relays := (relays s)[i :=
            Some \<lparr>rpc = R_Open, dest = a, rheader = h, compressed = jpg, rclient = c\<rparr>]\<rparr>)))"

text \<open>
  A step of the relaying; the client has all it will get when only the server's socket is left to
  close.
\<close>

definition answered_pc :: "relay_pc \<Rightarrow> bool" where
  "answered_pc p \<longleftrightarrow> p = R_Close \<or> p = R_Done"

definition go_on :: "allocator \<Rightarrow> network \<Rightarrow> (buffer \<Rightarrow> buffer option) \<Rightarrow> nat \<Rightarrow> nat \<Rightarrow> relay \<Rightarrow> proxy_state \<Rightarrow>
  proxy_state result option" where
  "go_on al net compress i k r s = map_option (\<lambda>x. bindR x (\<lambda>(r', g).
     Inr (s\<lparr>relays := (relays s)[i := Some r'], nets := g, base := (base s)\<lparr>socks := (socks (base s))(k := rclient r'),
       replied := (replied (base s))[i := answered_pc (rpc r')]\<rparr>\<rparr>))) (relay_step al net compress r (nets s))"

text \<open>The end of a connection: the client's descriptor is closed, the worker is back at the list.\<close>

definition close_client :: "nat \<Rightarrow> int \<Rightarrow> proxy_state \<Rightarrow> proxy_state result option" where
  "close_client i c s = with_base
     (with_pool (proxy_worker_pool_step i (team (base s))) (\<lambda>p. (base s)\<lparr>team := p,
        table := (table (base s))(c := None), replied := (replied (base s))[i := False]\<rparr>))
     (\<lambda>b. s\<lparr>base := b, relays := (relays s)[i := None]\<rparr>)"

text \<open>A worker with a connection; on a descriptor that is not open nothing is received or sent.\<close>

definition proxy_worker_step :: "allocator \<Rightarrow> network \<Rightarrow> (buffer \<Rightarrow> buffer option) \<Rightarrow> bool \<Rightarrow> nat \<Rightarrow> proxy_state \<Rightarrow>
  proxy_state result option" where
  "proxy_worker_step al net compress COMPRESS i s =
     (let b = base s; ws = stages (team b) in
      case (if i < length ws then client_of (ws ! i) else None) of
        None \<Rightarrow> with_base (with_pool (proxy_worker_pool_step i (team b)) (\<lambda>p. b\<lparr>team := p\<rparr>)) (\<lambda>b. s\<lparr>base := b\<rparr>)
      | Some c \<Rightarrow>
          (case table b c of
             None \<Rightarrow>
               if replied b ! i then close_client i c s
               else Some (Inr (s\<lparr>base := b\<lparr>replied := (replied b)[i := True]\<rparr>\<rparr>))
           | Some k \<Rightarrow>
               (case relays s ! i of
                  None \<Rightarrow> if replied b ! i then close_client i c s else begin_relay al net COMPRESS i k s
                | Some r \<Rightarrow> if rpc r = R_Done then close_client i c s else go_on al net compress i k r s)))"

fun proxy_moves :: "allocator \<Rightarrow> network \<Rightarrow> (buffer \<Rightarrow> buffer option) \<Rightarrow> bool \<Rightarrow> mover \<Rightarrow> proxy_state \<Rightarrow>
  proxy_state result option" where
  "proxy_moves al net compress COMPRESS M_Main s =
     with_base (main_effect (proxy_main_step (team (base s))) (base s)) (\<lambda>b. s\<lparr>base := b\<rparr>)"
| "proxy_moves al net compress COMPRESS M_Signal s =
     with_base (with_pool (proxy_catchInterrupt (team (base s))) (\<lambda>p. (base s)\<lparr>team := p\<rparr>)) (\<lambda>b. s\<lparr>base := b\<rparr>)"
| "proxy_moves al net compress COMPRESS M_Handler s =
     with_base (with_pool (proxy_handler_step (team (base s))) (\<lambda>p. (base s)\<lparr>team := p\<rparr>)) (\<lambda>b. s\<lparr>base := b\<rparr>)"
| "proxy_moves al net compress COMPRESS (M_Worker i) s = proxy_worker_step al net compress COMPRESS i s"

inductive proxy_system_step :: "allocator \<Rightarrow> network \<Rightarrow> (buffer \<Rightarrow> buffer option) \<Rightarrow> bool \<Rightarrow> proxy_state \<Rightarrow> proxy_state \<Rightarrow> bool"
  for al net compress COMPRESS where
  proxy_moved: "proxy_moves al net compress COMPRESS m s = Some (Inr s') \<Longrightarrow> proxy_system_step al net compress COMPRESS s s'"

inductive_cases proxy_system_stepE: "proxy_system_step al net compress COMPRESS s s'"

fun proxy_run :: "allocator \<Rightarrow> network \<Rightarrow> (buffer \<Rightarrow> buffer option) \<Rightarrow> bool \<Rightarrow> mover list \<Rightarrow> proxy_state \<Rightarrow>
  proxy_state option" where
  "proxy_run al net compress COMPRESS [] s = Some s"
| "proxy_run al net compress COMPRESS (m # ms) s =
     (case proxy_moves al net compress COMPRESS m s of
        Some (Inr s') \<Rightarrow> proxy_run al net compress COMPRESS ms s' | _ \<Rightarrow> None)"

lemma proxy_run_reaches:
  "proxy_run al net compress COMPRESS ms s = Some s' \<Longrightarrow> (proxy_system_step al net compress COMPRESS)\<^sup>*\<^sup>* s s'"
  by (induction ms arbitrary: s)
    (auto split: option.splits sum.splits intro: proxy_moved converse_rtranclp_into_rtranclp)

section \<open>The pool's part\<close>

lemma proxy_main_stages:
  "proxy_main_step p = Some (Inr p') \<Longrightarrow> stages p' = stages p"
  by (auto simp: proxy_main_step_def result_simps split: if_splits main_stage.splits list.splits arrival.splits
      sum.splits dest!: put_job_frame)

lemma signal_stages: "catchInterrupt p = Some (Inr p') \<Longrightarrow> stages p' = stages p"
  by (auto simp: catchInterrupt_def split: if_splits)

lemma handler_stages: "handler_step p = Some (Inr p') \<Longrightarrow> stages p' = stages p"
  by (auto simp: handler_step_def result_simps split: if_splits option.splits handler_stage.splits
      sum.splits dest!: put_job_frame)

lemma main_effect_frame:
  assumes "main_effect r s = Some (Inr s')"
  shows "socks s' = socks s" and "replied s' = replied s" and "table s c = Some k \<Longrightarrow> table s' c = Some k"
  using assms by (auto simp: main_effect_def split: option.splits sum.splits main_stage.splits if_splits)

text \<open>The accepting thread of the proxy keeps the invariant of the connections.\<close>

lemma proxy_main_inv:
  assumes "main_effect (proxy_main_step (team s)) s = Some (Inr s')" and "server_inv A clients s"
    and "socket_only (team s)"
  shows "server_inv A clients s' \<and> socket_only (team s')"
proof -
  obtain p where p: "proxy_main_step (team s) = Some (Inr p)" "team s' = p"
    using main_effect_cases [OF assms(1)] by blast
  have so: "pool_step\<^sup>*\<^sup>* (team s) p" "socket_only p"
    using proxy_main_simulated [OF p(1) assms(3)] by auto
  have "server_inv A clients s'"
  proof (cases "main_step (team s) = Some (Inr p)")
    case True
    then show ?thesis
      using assms(1,2) p(1) main_effect_inv by simp
  next
    case False
    then have "main_at (team s) = Head" "main_at p = Entering \<or> main_at p = Left" "seen p = seen (team s)"
      using p(1) assms(3)
      by (auto simp: proxy_main_step_def main_step_def socket_only_def seen_of_def hand_def result_simps
          split: main_stage.splits if_splits list.splits arrival.splits instruction.splits)
    moreover have "pool_inv p"
      using assms(2) pool_reach_inv [OF so(1)] by (simp add: server_inv_def)
    ultimately show ?thesis
      using assms(1) p(1) same_seen_inv [OF assms(2), of p] by (auto simp: main_effect_def)
  qed
  then show ?thesis
    using so(2) p(2) by simp
qed

section \<open>One relaying\<close>

definition idle :: "sockets \<Rightarrow> bool" where
  "idle g \<longleftrightarrow> \<not> socket_fails g \<and> open_socks g = Map.empty"

text \<open>A client whose request the named server answers with \<open>resp\<close>.\<close>

definition relayable :: "allocator \<Rightarrow> network \<Rightarrow> sock \<Rightarrow> string \<Rightarrow> bool" where
  "relayable al net c resp \<longleftrightarrow> (\<exists>hdr meth h port rest ip b cs1. proxied hdr meth (host_port h port) rest \<and>
     good_host h port \<and> recvHeader al (rx c) = Inr (Some hdr, int (length hdr), b, cs1) \<and> lookup net h = Some ip \<and>
     up net (ip, port) \<and> txo c = [] \<and> in_int (int (length hdr)) \<and> responds net (ip, port) (meth @ SP # rest) resp)"

lemma relay_keeps_sockets:
  "relay_step al net compress r g = Some (Inr (r', g')) \<Longrightarrow> socket_fails g' = socket_fails g"
  by (auto simp: relay_step_def refuse_def closed_sock_def Let_def result_simps
      split: relay_pc.splits if_splits option.splits sum.splits prod.splits)

lemma relay_run_keeps_sockets:
  "relay_run al net compress is (rs, g) = Some (Inr (rs', g')) \<Longrightarrow> socket_fails g' = socket_fails g"
proof (induction "is" arbitrary: rs g)
  case (Cons i "is")
  then obtain r g1 where "relay_step al net compress (rs ! i) g = Some (Inr (r, g1))"
    "relay_run al net compress is (rs[i := r], g1) = Some (Inr (rs', g'))"
    by (auto split: if_splits option.splits sum.splits)
  then show ?case
    using Cons.IH relay_keeps_sockets by metis
qed simp

lemma relayable_routed:
  assumes "ample al" and "relayable al net c resp"
  shows "\<exists>hdr a. proxy_route al net False False OFFLINE (rx c) = Inr (To_Server hdr False a) \<and>
    (\<forall>g. idle g \<longrightarrow> (\<exists>r g'. relay_run al net compress (replicate 7 0) ([new_relay a hdr c], g) = Some (Inr ([r], g')) \<and>
       rpc r = R_Done \<and> tx (rclient r) = tx c @ resp \<and> idle g'))"
proof -
  obtain hdr meth h port rest ip b cs1 where r: "proxied hdr meth (host_port h port) rest" "good_host h port"
    "recvHeader al (rx c) = Inr (Some hdr, int (length hdr), b, cs1)" "lookup net h = Some ip"
    "up net (ip, port)" "txo c = []" "in_int (int (length hdr))" "responds net (ip, port) (meth @ SP # rest) resp"
    using assms(2) by (auto simp: relayable_def)
  have "proxy_route al net False False OFFLINE (rx c) = Inr (To_Server hdr False (ip, port))"
    using proxy_route_host [OF r(1,2) assms(1) r(3,4)] by (simp add: shared_wanted_def)
  moreover have "\<exists>r g'. relay_run al net compress (replicate 7 0) ([new_relay (ip, port) hdr c], g) = Some (Inr ([r], g')) \<and>
      rpc r = R_Done \<and> tx (rclient r) = tx c @ resp \<and> idle g'" if g: "idle g" for g
  proof -
    obtain r' g' where run: "relay_run al net compress (replicate 7 0) ([new_relay (ip, port) hdr c], g) = Some (Inr ([r'], g'))"
      "rpc r' = R_Done" "tx (rclient r') = tx c @ resp" "open_socks g' = (open_socks g)(fresh_fd g := None)"
      using relay_alone [OF assms(1) r(1,2) _ r(5,6,7,8), of g compress] g unfolding idle_def by blast
    then show ?thesis
      using g relay_run_keeps_sockets [OF run(1)] by (auto simp: idle_def)
  qed
  ultimately show ?thesis
    by blast
qed

text \<open>A relaying under way: a part of the whole run, which is determined by its start.\<close>

definition underway :: "allocator \<Rightarrow> network \<Rightarrow> (buffer \<Rightarrow> buffer option) \<Rightarrow> sock \<Rightarrow> relay \<Rightarrow> sockets \<Rightarrow> bool" where
  "underway al net compress c r g \<longleftrightarrow> (\<exists>hdr a m g0. m \<le> 7 \<and> idle g0 \<and>
     proxy_route al net False False OFFLINE (rx c) = Inr (To_Server hdr False a) \<and>
     relay_run al net compress (replicate m 0) ([new_relay a hdr c], g0) = Some (Inr ([r], g))) \<and>
     (\<not> answered_pc (rpc r) \<longrightarrow> rclient r = c)"

lemma relay_run_append:
  "relay_run al net compress (is @ js) st = (case relay_run al net compress is st of
     Some (Inr st') \<Rightarrow> relay_run al net compress js st' | r \<Rightarrow> r)"
  by (induction al net compress "is" st rule: relay_run.induct) (auto split: option.split sum.split)

lemma relay_step_client:
  assumes "relay_step al net compress r g = Some (Inr (r', g'))" and "\<not> answered_pc (rpc r')"
  shows "rclient r' = rclient r" and "\<not> answered_pc (rpc r)"
  using assms by (auto simp: relay_step_def refuse_def closed_sock_def answered_pc_def Let_def result_simps
      split: relay_pc.splits if_splits option.splits sum.splits prod.splits)

lemma underway_begins:
  assumes "proxy_route al net False False OFFLINE (rx c) = Inr (To_Server hdr False a)" and "idle g"
  shows "underway al net compress c (new_relay a hdr c) g"
  unfolding underway_def using assms
  by (intro conjI exI [of _ hdr] exI [of _ a] exI [of _ 0] exI [of _ g]) (simp_all add: new_relay_def)

lemma underway_step:
  assumes "underway al net compress c r g" and "ample al" and "relayable al net c resp" and "rpc r \<noteq> R_Done"
  shows "\<exists>r' g'. relay_step al net compress r g = Some (Inr (r', g')) \<and> underway al net compress c r' g'"
proof -
  obtain hdr a m g0 where m: "m \<le> 7" "idle g0" "proxy_route al net False False OFFLINE (rx c) = Inr (To_Server hdr False a)"
    and run: "relay_run al net compress (replicate m 0) ([new_relay a hdr c], g0) = Some (Inr ([r], g))"
    and c: "\<not> answered_pc (rpc r) \<longrightarrow> rclient r = c"
    using assms(1) unfolding underway_def by blast
  obtain rf gf where whole: "relay_run al net compress (replicate 7 0) ([new_relay a hdr c], g0) = Some (Inr ([rf], gf))"
    "rpc rf = R_Done"
    using relayable_routed [OF assms(2,3), of compress] m(2,3) by auto
  have less: "m < 7"
    using m(1) run whole assms(4) by (cases "m = 7") auto
  then obtain j where j: "7 = m + Suc j"
    using that [of "6 - m"] by simp
  have "relay_run al net compress (0 # replicate j 0) ([r], g) = Some (Inr ([rf], gf))"
    using whole(1) run unfolding j replicate_add relay_run_append by simp
  then obtain r' g' where step: "relay_step al net compress r g = Some (Inr (r', g'))"
    by (auto split: option.splits sum.splits)
  have more: "relay_run al net compress (replicate (Suc m) 0) ([new_relay a hdr c], g0) = Some (Inr ([r'], g'))"
    using run step unfolding replicate_Suc replicate_append_same [symmetric] relay_run_append by simp
  have "\<not> answered_pc (rpc r') \<longrightarrow> rclient r' = c"
    using relay_step_client [OF step] c by simp
  moreover have "Suc m \<le> 7"
    using less by simp
  ultimately have "underway al net compress c r' g'"
    unfolding underway_def using m(2,3) more by blast
  then show ?thesis
    using step by blast
qed

lemma underway_done:
  assumes "underway al net compress c r g" and "ample al" and "relayable al net c resp" and "rpc r = R_Done"
  shows "tx (rclient r) = tx c @ resp \<and> idle g"
proof -
  obtain hdr a m g0 where m: "m \<le> 7" "idle g0" "proxy_route al net False False OFFLINE (rx c) = Inr (To_Server hdr False a)"
    and run: "relay_run al net compress (replicate m 0) ([new_relay a hdr c], g0) = Some (Inr ([r], g))"
    using assms(1) unfolding underway_def by blast
  obtain rf gf where whole: "relay_run al net compress (replicate 7 0) ([new_relay a hdr c], g0) = Some (Inr ([rf], gf))"
    "tx (rclient rf) = tx c @ resp" "idle gf"
    using relayable_routed [OF assms(2,3), of compress] m(2,3) by auto
  have "m = 7"
  proof (rule ccontr)
    assume "m \<noteq> 7"
    then obtain j where j: "7 = m + Suc j"
      using m(1) that [of "6 - m"] by simp
    have "relay_run al net compress (0 # replicate j 0) ([r], g) = Some (Inr ([rf], gf))"
      using whole(1) run unfolding j replicate_add relay_run_append by simp
    then show False
      using assms(4) by (simp add: relay_step_def)
  qed
  then show ?thesis
    using run whole by simp
qed

lemma underway_answered:
  assumes "underway al net compress c r g" and "ample al" and "relayable al net c resp" and "answered_pc (rpc r)"
  shows "tx (rclient r) = tx c @ resp"
proof (cases "rpc r = R_Done")
  case False
  then have close: "relay_step al net compress r g = Some (Inr (r\<lparr>rpc := R_Done\<rparr>, closed_sock (serverSock g) g))"
    using assms(4) by (simp add: relay_step_def answered_pc_def)
  then show ?thesis
    using underway_step [OF assms(1-3) False] underway_done [OF _ assms(2,3)] by fastforce
qed (use underway_done [OF assms(1-3)] in simp)

section \<open>The invariant with one worker\<close>

text \<open>
  While the worker relays, its relaying is under way and shows in the client's socket; else the global
  sockets are idle.
\<close>

definition at_work :: "allocator \<Rightarrow> network \<Rightarrow> (buffer \<Rightarrow> buffer option) \<Rightarrow> (nat \<Rightarrow> sock) \<Rightarrow> proxy_state \<Rightarrow> bool" where
  "at_work al net compress clients s \<longleftrightarrow> (case relays s ! 0 of
     None \<Rightarrow> idle (nets s) \<and> \<not> replied (base s) ! 0
   | Some r \<Rightarrow> (\<exists>c k. client_of (stages (team (base s)) ! 0) = Some c \<and> table (base s) c = Some k \<and>
       underway al net compress (clients k) r (nets s) \<and> rclient r = socks (base s) k \<and>
       replied (base s) ! 0 = answered_pc (rpc r)))"

definition proxy_inv :: "allocator \<Rightarrow> network \<Rightarrow> (buffer \<Rightarrow> buffer option) \<Rightarrow> (nat \<Rightarrow> sock) \<Rightarrow> (nat \<Rightarrow> string) \<Rightarrow>
  proxy_state \<Rightarrow> bool" where
  "proxy_inv al net compress clients resp s \<longleftrightarrow>
     server_inv (\<lambda>k c'. tx c' = tx (clients k) @ resp k) clients (base s) \<and> socket_only (team (base s)) \<and>
     length (stages (team (base s))) = 1 \<and> length (relays s) = 1 \<and> length (replied (base s)) = 1 \<and>
     at_work al net compress clients s"

lemma start_proxy_inv:
  assumes "idle g" and "Shared_Request \<notin> set cs"
  shows "proxy_inv al net compress clients resp (start_proxy 1 clients cs gs g)"
proof -
  let ?b = "start_server 1 clients cs gs"
  have "team ?b = start_pool 1 cs gs" "stages (start_pool 1 cs gs) = [Locking]" "replied ?b = [False]"
    by (simp_all add: start_server_def start_pool_def)
  then show ?thesis
    using assms(1) start_server_inv start_socket_only [OF assms(2)]
    by (simp add: proxy_inv_def at_work_def start_proxy_def)
qed

text \<open>The other threads do not touch the worker's client.\<close>

lemma at_work_frame:
  assumes "at_work al net compress clients s" and "stages (team b) = stages (team (base s))"
    and "socks b = socks (base s)" and "replied b = replied (base s)"
    and "\<And>c k. table (base s) c = Some k \<Longrightarrow> table b c = Some k"
  shows "at_work al net compress clients (s\<lparr>base := b\<rparr>)"
proof (cases "relays s ! 0")
  case (Some r)
  then show ?thesis
    using assms(1) assms(5) unfolding at_work_def by (simp add: assms(2-4)) blast
qed (use assms in \<open>simp add: at_work_def\<close>)

lemma proxy_main_keeps:
  assumes "main_effect (proxy_main_step (team (base s))) (base s) = Some (Inr b)"
    and "proxy_inv al net compress clients resp s"
  shows "proxy_inv al net compress clients resp (s\<lparr>base := b\<rparr>)"
proof -
  have "stages (team b) = stages (team (base s))"
    using main_effect_cases [OF assms(1)] proxy_main_stages by auto
  moreover have "server_inv (\<lambda>k c'. tx c' = tx (clients k) @ resp k) clients b \<and> socket_only (team b)"
    using assms(2) by (intro proxy_main_inv [OF assms(1)]) (simp_all add: proxy_inv_def)
  ultimately show ?thesis
    using assms(2) main_effect_frame [OF assms(1)] at_work_frame [of al net compress clients s b]
    by (simp add: proxy_inv_def)
qed

lemma proxy_pool_keeps:
  assumes "proxy_inv al net compress clients resp s" and "seen p = seen (team (base s))"
    and "pool_inv p" and "stages p = stages (team (base s))" and "socket_only p"
  shows "proxy_inv al net compress clients resp (s\<lparr>base := (base s)\<lparr>team := p\<rparr>\<rparr>)"
  using assms same_seen_inv [OF _ assms(2,3)] at_work_frame [of al net compress clients s "(base s)\<lparr>team := p\<rparr>"]
  by (simp add: proxy_inv_def)

section \<open>The worker's steps\<close>

lemma worker_pool_length: "worker_pool_step i p = Some (Inr p') \<Longrightarrow> length (stages p') = length (stages p)"
  by (rule pool_step_length [OF by_worker])

lemma worker_takes_keeps:
  assumes inv: "proxy_inv al net compress clients resp s" and p: "worker_pool_step 0 (team (base s)) = Some (Inr p)"
    and "client_of (stages (team (base s)) ! 0) = None"
  shows "proxy_inv al net compress clients resp (s\<lparr>base := (base s)\<lparr>team := p\<rparr>\<rparr>)"
proof -
  have "socket_only p"
    using same_socket_only [OF worker_frame [OF p]] inv by (simp add: proxy_inv_def)
  moreover have "relays s ! 0 = None"
    using inv assms(3) by (auto simp: proxy_inv_def at_work_def split: option.splits)
  ultimately show ?thesis
    using inv worker_takes_client_inv [OF _ p] worker_pool_length [OF p] assms(3)
    by (simp add: proxy_inv_def at_work_def)
qed

lemma close_keeps:
  assumes inv: "proxy_inv al net compress clients resp s" and "close_client 0 c s = Some (Inr s')"
    and c: "client_of (stages (team (base s)) ! 0) = Some c" and "relays s ! 0 = Some r" and "rpc r = R_Done"
    and al: "ample al" and "\<And>k. relayable al net (clients k) (resp k)"
  shows "proxy_inv al net compress clients resp s'"
proof -
  let ?b = "base s"
  obtain p where p: "worker_pool_step 0 (team ?b) = Some (Inr p)"
    and s': "s' = s\<lparr>base := ?b\<lparr>team := p, table := (table ?b)(c := None), replied := (replied ?b)[0 := False]\<rparr>,
      relays := (relays s)[0 := None]\<rparr>"
    using assms(2) by (auto simp: close_client_def)
  have "socket_only p"
    using same_socket_only [OF worker_frame [OF p]] inv by (simp add: proxy_inv_def)
  moreover obtain k where "underway al net compress (clients k) r (nets s)" "replied ?b ! 0"
    using inv assms(4,5) by (auto simp: proxy_inv_def at_work_def answered_pc_def)
  moreover have "idle (nets s)"
    using underway_done [OF \<open>underway al net compress (clients k) r (nets s)\<close> al assms(7,5)] by blast
  ultimately show ?thesis
    using inv worker_closes_inv [OF _ _ c _ p] worker_pool_length [OF p]
    by (simp add: proxy_inv_def at_work_def s')
qed

lemma begin_keeps:
  assumes inv: "proxy_inv al net compress clients resp s" and "begin_relay al net False 0 k s = Some (Inr s')"
    and c: "client_of (stages (team (base s)) ! 0) = Some c" and k: "table (base s) c = Some k" and "relays s ! 0 = None"
    and al: "ample al" and "\<And>k. relayable al net (clients k) (resp k)"
  shows "proxy_inv al net compress clients resp s'"
proof -
  have idle: "idle (nets s)" "\<not> replied (base s) ! 0"
    using inv assms(5) by (simp_all add: proxy_inv_def at_work_def)
  then have same: "socks (base s) k = clients k"
    using inv worker_has [OF _ _ c, of _ clients] k by (fastforce simp: proxy_inv_def)
  obtain hdr a where r: "proxy_route al net False False OFFLINE (rx (clients k)) = Inr (To_Server hdr False a)"
    using relayable_routed [OF al assms(7), of k] by blast
  then have "s' = s\<lparr>relays := (relays s)[0 := Some (new_relay a hdr (clients k))]\<rparr>"
    using assms(2) same by (simp add: begin_relay_def Let_def new_relay_def)
  moreover have "rclient (new_relay a hdr (clients k)) = clients k" "\<not> answered_pc (rpc (new_relay a hdr (clients k)))"
    by (simp_all add: new_relay_def answered_pc_def)
  ultimately show ?thesis
    using inv c k idle same underway_begins [OF r idle(1), of compress]
    by (simp add: proxy_inv_def at_work_def)
qed

lemma go_on_keeps:
  assumes inv: "proxy_inv al net compress clients resp s" and "go_on al net compress 0 k r s = Some (Inr s')"
    and c: "client_of (stages (team (base s)) ! 0) = Some c" and k: "table (base s) c = Some k"
    and "relays s ! 0 = Some r" and "rpc r \<noteq> R_Done"
    and al: "ample al" and rel: "\<And>k. relayable al net (clients k) (resp k)"
  shows "proxy_inv al net compress clients resp s'"
proof -
  let ?b = "base s"
  have u: "underway al net compress (clients k) r (nets s)" "rclient r = socks ?b k" "replied ?b ! 0 = answered_pc (rpc r)"
    using inv assms(5) c k by (auto simp: proxy_inv_def at_work_def)
  obtain r' g' where step: "relay_step al net compress r (nets s) = Some (Inr (r', g'))"
    and u': "underway al net compress (clients k) r' g'"
    using underway_step [OF u(1) al rel assms(6)] by blast
  have s': "s' = s\<lparr>relays := (relays s)[0 := Some r'], nets := g', base := ?b\<lparr>socks := (socks ?b)(k := rclient r'),
      replied := (replied ?b)[0 := answered_pc (rpc r')]\<rparr>\<rparr>"
    using assms(2) step by (simp add: go_on_def)
  have "server_inv (\<lambda>k c'. tx c' = tx (clients k) @ resp k) clients
      (?b\<lparr>socks := (socks ?b)(k := rclient r'), replied := (replied ?b)[0 := answered_pc (rpc r')]\<rparr>)"
  proof (cases "answered_pc (rpc r') \<longleftrightarrow> answered_pc (rpc r)")
    case True
    then have "rclient r' = socks ?b k"
      using step assms(6) u(2) relay_step_client(1) [OF step]
      by (cases "answered_pc (rpc r)") (auto simp: answered_pc_def relay_step_def)
    moreover have "(replied ?b)[0 := answered_pc (rpc r')] = replied ?b"
      using list_update_id [of "replied ?b" 0] True u(3) by simp
    ultimately show ?thesis
      using inv by (simp add: proxy_inv_def)
  next
    case False
    then have "answered_pc (rpc r')" "\<not> replied ?b ! 0"
      using relay_step_client(2) [OF step] u(3) by auto
    then show ?thesis
      using inv c k underway_answered [OF u' al rel] worker_answers_inv [of _ clients ?b 0 c k "rclient r'"]
      by (simp add: proxy_inv_def)
  qed
  then show ?thesis
    using inv c k u' by (simp add: proxy_inv_def at_work_def s')
qed

lemma proxy_worker_keeps:
  assumes inv: "proxy_inv al net compress clients resp s" and step: "proxy_worker_step al net compress False i s = Some (Inr s')"
    and al: "ample al" and rel: "\<And>k. relayable al net (clients k) (resp k)"
  shows "proxy_inv al net compress clients resp s'"
proof -
  have len: "length (stages (team (base s))) = 1"
    using inv by (simp add: proxy_inv_def)
  show ?thesis
  proof (cases "if i < length (stages (team (base s))) then client_of (stages (team (base s)) ! i) else None")
    case None
    then obtain p where p: "worker_pool_step i (team (base s)) = Some (Inr p)" "s' = s\<lparr>base := (base s)\<lparr>team := p\<rparr>\<rparr>"
      using step by (auto simp: proxy_worker_step_def Let_def)
    then have "i = 0"
      using len by (auto simp: worker_pool_step_def split: if_splits)
    then show ?thesis
      using None len p worker_takes_keeps [OF inv] by simp
  next
    case (Some c)
    then have i: "i = 0" "client_of (stages (team (base s)) ! 0) = Some c"
      using len by (auto split: if_splits)
    have some: "stages (team (base s)) \<noteq> []"
      using len by auto
    obtain k where k: "table (base s) c = Some k"
      using inv worker_has [OF _ _ i(2)] by (fastforce simp: proxy_inv_def)
    show ?thesis
    proof (cases "relays s ! 0")
      case None
      then have "\<not> replied (base s) ! 0"
        using inv by (simp add: proxy_inv_def at_work_def)
      then show ?thesis
        using step some i k None begin_keeps [OF inv _ i(2) k None al rel] by (simp add: proxy_worker_step_def Let_def)
    next
      case r: (Some r)
      then show ?thesis
        using step some i k close_keeps [OF inv _ i(2) r _ al rel] go_on_keeps [OF inv _ i(2) k r _ al rel]
        by (simp add: proxy_worker_step_def Let_def split: if_splits)
    qed
  qed
qed

lemma proxy_moves_keeps:
  assumes inv: "proxy_inv al net compress clients resp s" and step: "proxy_moves al net compress False m s = Some (Inr s')"
    and "ample al" and "\<And>k. relayable al net (clients k) (resp k)"
  shows "proxy_inv al net compress clients resp s'"
proof (cases m)
  case M_Main
  then show ?thesis
    using step proxy_main_keeps [OF _ inv] by auto
next
  case M_Signal
  then obtain p where p: "catchInterrupt (team (base s)) = Some (Inr p)" "s' = s\<lparr>base := (base s)\<lparr>team := p\<rparr>\<rparr>"
    using step by auto
  show ?thesis
    unfolding p(2) using inv
    by (intro proxy_pool_keeps [OF inv signal_seen [OF p(1)] _ signal_stages [OF p(1)]])
      (auto simp: proxy_inv_def server_inv_def intro: pool_step_inv [OF by_signal [OF p(1)]] same_socket_only [OF signal_frame [OF p(1)]])
next
  case M_Handler
  then obtain p where p: "handler_step (team (base s)) = Some (Inr p)" "s' = s\<lparr>base := (base s)\<lparr>team := p\<rparr>\<rparr>"
    using step by auto
  have "pool_inv (team (base s))"
    using inv by (simp add: proxy_inv_def server_inv_def)
  then show ?thesis
    unfolding p(2) using inv
    by (intro proxy_pool_keeps [OF inv handler_seen [OF p(1)] _ handler_stages [OF p(1)]])
      (auto simp: proxy_inv_def intro: pool_step_inv [OF by_handler [OF p(1)]] same_socket_only [OF handler_frame [OF p(1)]])
next
  case (M_Worker i)
  then show ?thesis
    using step proxy_worker_keeps [OF inv _ assms(3,4)] by simp
qed

lemma proxy_reach_keeps:
  assumes "(proxy_system_step al net compress False)\<^sup>*\<^sup>* s s'" and "proxy_inv al net compress clients resp s"
    and "ample al" and "\<And>k. relayable al net (clients k) (resp k)"
  shows "proxy_inv al net compress clients resp s'"
  using assms(1)
proof (induction rule: rtranclp_induct)
  case (step t u)
  then show ?case
    using proxy_moves_keeps [OF _ _ assms(3,4)] by (auto elim: proxy_system_stepE)
qed (rule assms(2))

section \<open>Runs\<close>

lemma proxy_system_pool:
  assumes "proxy_system_step al net compress COMPRESS s s'"
  shows "proxy_pool_step\<^sup>=\<^sup>= (team (base s)) (team (base s'))"
  using assms
proof (rule proxy_system_stepE)
  fix m assume step: "proxy_moves al net compress COMPRESS m s = Some (Inr s')"
  show ?thesis
  proof (cases m)
    case M_Main
    then show ?thesis
      using step main_effect_cases by (auto intro: proxy_main)
  next
    case (M_Worker i)
    then show ?thesis
      using step by (auto simp: proxy_worker_step_def close_client_def begin_relay_def go_on_def Let_def result_simps
          intro: proxy_worker split: option.splits if_splits sum.splits route.splits)
  qed (use step in \<open>auto intro: proxy_signal proxy_handler\<close>)
qed

lemma proxy_system_reach:
  "(proxy_system_step al net compress COMPRESS)\<^sup>*\<^sup>* s s' \<Longrightarrow> proxy_pool_step\<^sup>*\<^sup>* (team (base s)) (team (base s'))"
proof (induction rule: rtranclp_induct)
  case (step t u)
  then show ?case
    using proxy_system_pool [of al net compress COMPRESS t u] by auto
qed simp

lemma proxy_system_faults:
  assumes inv: "proxy_inv al net compress clients resp s" and fault: "proxy_moves al net compress False m s = Some (Inl e)"
    and al: "ample al" and rel: "\<And>k. relayable al net (clients k) (resp k)"
  shows "e = Exit_With SOCKET_FAILURE"
proof -
  have pi: "pool_inv (team (base s))"
    using inv by (simp add: proxy_inv_def server_inv_def)
  have pool: "e = Exit_With SOCKET_FAILURE" if "moves m' (team (base s)) = Some (Inl e)" for m'
    using moves_keeps [OF pi, of m'] that by (simp add: pool_keeps_def)
  show ?thesis
  proof (cases m)
    case M_Main
    then have "proxy_main_step (team (base s)) = Some (Inl e)"
      using fault main_effect_fault by auto
    then show ?thesis
      using proxy_main_faults pool [of M_Main] by auto
  next
    case (M_Worker i)
    show ?thesis
    proof (cases "worker_pool_step i (team (base s)) = Some (Inl e)")
      case False
      let ?c = "if i < length (stages (team (base s))) then client_of (stages (team (base s)) ! i) else None"
      obtain c k where c: "?c = Some c" "table (base s) c = Some k"
        using False fault M_Worker
        by (auto simp: proxy_worker_step_def close_client_def Let_def split: option.splits if_splits)
      then have i: "i = 0" "client_of (stages (team (base s)) ! 0) = Some c"
        using inv by (auto simp: proxy_inv_def split: if_splits)
      show ?thesis
      proof (cases "relays s ! 0")
        case None
        then have "begin_relay al net False 0 k s = Some (Inl e)"
          using False fault M_Worker c i inv
          by (auto simp: proxy_worker_step_def close_client_def proxy_inv_def at_work_def Let_def split: if_splits)
        moreover have "socks (base s) k = clients k"
          using inv None worker_has [OF _ _ i(2), of _ clients] c(2) by (fastforce simp: proxy_inv_def at_work_def)
        ultimately show ?thesis
          using relayable_routed [OF al rel, of k compress] by (auto simp: begin_relay_def Let_def)
      next
        case (Some r)
        then have "rpc r \<noteq> R_Done" "go_on al net compress 0 k r s = Some (Inl e)"
          using False fault M_Worker c i by (auto simp: proxy_worker_step_def close_client_def Let_def split: if_splits)
        moreover have "underway al net compress (clients k) r (nets s)"
          using inv Some c i by (auto simp: proxy_inv_def at_work_def)
        ultimately show ?thesis
          using underway_step [OF _ al rel] by (force simp: go_on_def)
      qed
    qed (use pool [of "M_Worker i"] in simp)
  qed (use fault pool [of M_Signal] pool [of M_Handler] in auto)
qed

section \<open>An example\<close>

definition caller :: "nat \<Rightarrow> sock" where
  "caller k = \<lparr>rx = [Data small_request], tx = [], txo = []\<rparr>"

lemma caller_relayable: "relayable (\<lambda>n. 0 \<le> n) small_net (caller k) small_answer"
proof -
  obtain cs' where "recvHeader (\<lambda>n. 0 \<le> n) (rx (caller k)) = Inr (Some small_request, int (length small_request), 0, cs')"
    using small_received by (auto simp: caller_def)
  then show ?thesis
    unfolding relayable_def
    by (intro exI [of _ small_request] exI [of _ "''GET''"] exI [of _ "''h''"] exI [of _ 80]
        exI [of _ "origin_form ''/f'' (host_port ''h'' 80)"] exI [of _ "''10.0.0.1''"] exI [of _ 0] exI [of _ cs'])
      (simp add: small_proxied small_host(1) small_responds small_length, simp add: small_net_def caller_def)
qed

lemma no_socks_idle: "idle no_socks"
  by (simp add: idle_def no_socks_def)

text \<open>One worker serves one caller: it reads the request, relays in seven steps and closes.\<close>

definition one_call :: "mover list" where
  "one_call = replicate 7 M_Main @ replicate 11 (M_Worker 0)"

lemma proxy_run_append:
  "proxy_run al net compress COMPRESS (xs @ ys) s =
    (case proxy_run al net compress COMPRESS xs s of None \<Rightarrow> None | Some t \<Rightarrow> proxy_run al net compress COMPRESS ys t)"
  by (induction xs arbitrary: s) (auto split: option.split sum.split)

text \<open>A worker that moves alone makes the relaying's steps.\<close>

definition relaying_at :: "server_state \<Rightarrow> nat \<Rightarrow> relay \<Rightarrow> sockets \<Rightarrow> proxy_state" where
  "relaying_at b k r g = \<lparr>base = b\<lparr>socks := (socks b)(k := rclient r), replied := [answered_pc (rpc r)]\<rparr>,
     relays = [Some r], nets = g\<rparr>"

lemma relaying_run:
  assumes "stages (team b) = [Given (c, PROCESS)]" and "table b c = Some k"
    and "relay_run al net compress (replicate m 0) ([r], g) = Some (Inr ([r'], g'))"
  shows "proxy_run al net compress False (replicate m (M_Worker 0)) (relaying_at b k r g) = Some (relaying_at b k r' g')"
  using assms(3)
proof (induction m arbitrary: r g)
  case (Suc m)
  then obtain r1 g1 where step: "relay_step al net compress r g = Some (Inr (r1, g1))"
    and rest: "relay_run al net compress (replicate m 0) ([r1], g1) = Some (Inr ([r'], g'))"
    by (auto split: option.splits sum.splits)
  have "rpc r \<noteq> R_Done"
    using step by (auto simp: relay_step_def)
  then have "proxy_moves al net compress False (M_Worker 0) (relaying_at b k r g) = Some (Inr (relaying_at b k r1 g1))"
    using assms(1,2) step by (simp add: proxy_worker_step_def relaying_at_def job_of_def go_on_def)
  then show ?case
    using Suc.IH [OF rest] by simp
qed simp

lemma one_call_runs:
  assumes "ample al" and "relayable al net (clients 0) resp"
  shows "\<exists>s. proxy_run al net compress False one_call (start_proxy 1 clients [Client 7] [] no_socks) = Some s \<and>
     arrived (base s) = 1 \<and> table (base s) = Map.empty \<and> relays s = [None]"
proof -
  let ?run = "proxy_run al net compress False"
  obtain hdr a where route: "proxy_route al net False False OFFLINE (rx (clients 0)) = Inr (To_Server hdr False a)"
    and relay: "\<forall>g. idle g \<longrightarrow> (\<exists>r g'. relay_run al net compress (replicate 7 0) ([new_relay a hdr (clients 0)], g) =
      Some (Inr ([r], g')) \<and> rpc r = R_Done \<and> tx (rclient r) = tx (clients 0) @ resp \<and> idle g')"
    using relayable_routed [where compress = compress, OF assms] by blast
  obtain r g' where r: "relay_run al net compress (replicate 7 0) ([new_relay a hdr (clients 0)], no_socks) =
      Some (Inr ([r], g'))" "rpc r = R_Done"
    using relay no_socks_idle by blast
  have fresh: "new_relay a hdr (clients 0) = \<lparr>rpc = R_Open, dest = a, rheader = hdr, compressed = False, rclient = clients 0\<rparr>"
    by (simp add: new_relay_def)
  obtain t where begin_run: "?run (replicate 7 M_Main @ replicate 3 (M_Worker 0)) (start_proxy 1 clients [Client 7] [] no_socks) = Some t"
    and t: "relays t = [Some (new_relay a hdr (clients 0))]" "nets t = no_socks" "socks (base t) = clients"
      "replied (base t) = [False]"
    and b: "stages (team (base t)) = [Given (7, PROCESS)]" "table (base t) = [7 \<mapsto> 0]" "arrived (base t) = 1"
    unfolding fresh using route
    by (simp add: run_simps numeral_eq_Suc start_proxy_def start_server_def proxy_main_step_def main_effect_def
        proxy_worker_step_def with_base_def with_pool_def job_of_def begin_relay_def Let_def)
  let ?b = "base t"
  have shape: "t = relaying_at ?b 0 (new_relay a hdr (clients 0)) no_socks"
    using t by (cases t; cases "base t") (simp add: relaying_at_def new_relay_def answered_pc_def fun_upd_idem)
  have "?run (replicate 7 (M_Worker 0)) (relaying_at ?b 0 (new_relay a hdr (clients 0)) no_socks) = Some (relaying_at ?b 0 r g')"
    using b by (intro relaying_run [OF b(1) _ r(1)]) simp
  then have middle: "?run (replicate 7 (M_Worker 0)) t = Some (relaying_at ?b 0 r g')"
    using shape by simp
  obtain s where last: "?run [M_Worker 0] (relaying_at ?b 0 r g') = Some s"
    and s: "arrived (base s) = 1" "table (base s) = Map.empty" "relays s = [None]"
    using b r(2) by (simp add: relaying_at_def proxy_worker_step_def close_client_def job_of_def worker_pool_step_def
        with_base_def with_pool_def Let_def)
  have parts: "one_call = (replicate 7 M_Main @ replicate 3 (M_Worker 0)) @ replicate 7 (M_Worker 0) @ [M_Worker 0]"
    by (simp add: one_call_def numeral_eq_Suc)
  have "?run one_call (start_proxy 1 clients [Client 7] [] no_socks) = Some s"
    unfolding parts proxy_run_append [of _ _ _ _ "replicate 7 M_Main @ replicate 3 (M_Worker 0)"] begin_run
    by (simp del: proxy_run.simps add: proxy_run_append [of _ _ _ _ "replicate 7 (M_Worker 0)"] middle last)
  then show ?thesis
    using s by blast
qed

section \<open>Properties\<close>

text \<open>
  C9: a proxy with one worker, in every interleaving of its accepting thread, its worker, SIGINT and
  its handler: every client's socket is untouched or carries exactly the response of the server that
  it named, a connection is closed only after that, the one global \<open>serverSock\<close> never leaks an open
  socket from one client to the next, an orderly end leaves nobody out whom the list took before the
  worker was told to stop, and no step of any thread is a memory fault.
\<close>

theorem proxy_serves:
  assumes "ample al" and "\<And>k. relayable al net (clients k) (resp k)" and "idle g" and "Shared_Request \<notin> set cs"
    and "(proxy_system_step al net compress False)\<^sup>*\<^sup>* (start_proxy 1 clients cs gs g) s"
  shows "(\<forall>k. socks (base s) k = clients k \<or> tx (socks (base s) k) = tx (clients k) @ resp k) \<and>
    (\<forall>k < arrived (base s). k \<notin> ran (table (base s)) \<longrightarrow> tx (socks (base s) k) = tx (clients k) @ resp k) \<and>
    (relays s ! 0 = None \<longrightarrow> open_socks (nets s) = Map.empty) \<and>
    (\<forall>xs c ys. list_all (\<lambda>w. w = Exited) (stages (team (base s))) \<and> accepted (team (base s)) = xs @ (c, TERMINATE) # ys \<longrightarrow>
       (\<forall>k \<in> set (take (length (procs xs)) (logged (base s))). tx (socks (base s) k) = tx (clients k) @ resp k \<and> k \<notin> ran (table (base s)))) \<and>
    (\<forall>m e. proxy_moves al net compress False m s = Some (Inl e) \<longrightarrow> e = Exit_With SOCKET_FAILURE)"
proof -
  have inv: "proxy_inv al net compress clients resp s"
    by (rule proxy_reach_keeps [OF assms(5) start_proxy_inv [OF assms(3,4)] assms(1,2)])
  then have sinv: "server_inv (\<lambda>k c'. tx c' = tx (clients k) @ resp k) clients (base s)"
    by (simp add: proxy_inv_def)
  have "pool_step\<^sup>*\<^sup>* (start_pool 1 cs gs) (team (base s))"
    using proxy_pool_reach [OF proxy_system_reach [OF assms(5)]] start_socket_only [OF assms(4)]
    by (simp add: start_proxy_def start_server_def)
  moreover have "relays s ! 0 = None \<longrightarrow> open_socks (nets s) = Map.empty"
    using inv by (auto simp: proxy_inv_def at_work_def idle_def)
  ultimately show ?thesis
    using inv_drained [OF sinv, of 1 cs gs] inv_untouched [OF sinv] inv_closed [OF sinv]
      proxy_system_faults [OF inv _ assms(1,2)]
    by blast
qed

theorem proxy_serves_witness:
  "\<exists>s. proxy_run (\<lambda>n. 0 \<le> n) small_net Some False one_call (start_proxy 1 caller [Client 7] [] no_socks) = Some s \<and>
     arrived (base s) = 1 \<and> tx (socks (base s) 0) = small_answer"
proof -
  obtain s where s: "proxy_run (\<lambda>n. 0 \<le> n) small_net Some False one_call (start_proxy 1 caller [Client 7] [] no_socks) = Some s"
    "arrived (base s) = 1" "table (base s) = Map.empty"
    using one_call_runs [where clients = caller, OF ample_nonneg caller_relayable] by blast
  have "tx (socks (base s) 0) = tx (caller 0) @ small_answer"
    using proxy_serves [where resp = "\<lambda>k. small_answer", OF ample_nonneg caller_relayable no_socks_idle _ proxy_run_reaches [OF s(1)]]
      s(2,3) by simp
  then show ?thesis
    using s by (auto simp: caller_def)
qed

end
