(* ===== verification/ServerServes.thy ===== *)
theory ServerServes
  imports ServerRun
begin

text \<open>
  What the server does for its clients in every interleaving of its threads, the signal and the
  arrivals: nobody gets another's answer or half of one, nobody is closed without an answer, the next
  client in the list can always be brought to its answer, and an orderly end leaves nobody out whom
  the list took before the workers were told to stop.
\<close>

section \<open>An example\<close>

definition visitor :: "nat \<Rightarrow> sock" where
  "visitor k = \<lparr>rx = [Data ''GET /x HTTP/1.0''], tx = [], txo = []\<rparr>"

lemma visitor_serving: "serving (beside None) (\<lambda>n. 0 \<le> n) visitor"
proof -
  have "fs_ok (beside None)" "fs_small (beside None)"
    by (simp_all add: fs_ok_def fs_small_def beside_def)
  then show ?thesis
    by (simp add: serving_def ample_nonneg fits_def visitor_def cstr_def)
qed

text \<open>Main accepts one client and puts it on the list; one worker serves it; SIGINT; the end.\<close>

definition one_client :: "mover list" where
  "one_client = replicate 8 M_Main @ [M_Worker 0, M_Worker 0, M_Worker 0]"

definition one_client_out :: "mover list" where
  "one_client_out = one_client @ [M_Worker 0, M_Signal] @ replicate 5 M_Handler @ [M_Worker 0, M_Worker 0, M_Worker 0]"

lemmas server_run_simps = run_simps numeral_eq_Suc start_server_def server_main_step_def main_effect_def server_worker_step_def
  with_pool_def job_of_def Let_def

section \<open>Properties\<close>

text \<open>
  C4: the server as a whole, in every interleaving of its threads, of SIGINT and of any arrivals, with
  descriptors that come back as other clients' once they are closed: every client's socket is
  untouched or carries exactly its own one complete answer, a connection is closed only after that
  answer, a descriptor never stands for two clients, no two workers have the same one, and no step of
  any thread is a memory fault.
\<close>

theorem server_serves:
  assumes "serving fs al clients" and "(server_step fs al)\<^sup>*\<^sup>* (start_server n clients cs gs) s"
  shows "(\<forall>k. socks s k = clients k \<or> got_answer fs al clients k (socks s k)) \<and>
    (\<forall>k < arrived s. k \<notin> ran (table s) \<longrightarrow> got_answer fs al clients k (socks s k)) \<and>
    (\<forall>i < n. \<forall>j < n. \<forall>c. client_of (stages (team s) ! i) = Some c \<and> client_of (stages (team s) ! j) = Some c \<longrightarrow> i = j) \<and>
    (\<forall>junk m e. server_moves fs al junk m s = Some (Inl e) \<longrightarrow> e = Exit_With SOCKET_FAILURE)"
proof -
  have inv: "server_inv (got_answer fs al clients) clients s"
    by (rule server_reached [OF assms(2,1)])
  have "length (stages (team s)) = n"
    using pool_reach_length [OF server_reach_pool [OF assms(2)]] by (simp add: start_server_def start_pool_def)
  then show ?thesis
    using inv_untouched [OF inv] inv_closed [OF inv] inv_alone [OF inv] server_moves_faults [OF _ inv assms(1)] by metis
qed

theorem server_serves_witness:
  "\<exists>s. server_run (beside None) (\<lambda>n. 0 \<le> n) (NUL, NUL) (one_client @ [M_Worker 0])
       (start_server 1 visitor [Client 7] []) = Some s \<and> table s = Map.empty \<and> arrived s = 1 \<and>
     got_answer (beside None) (\<lambda>n. 0 \<le> n) visitor 0 (socks s 0)"
proof -
  obtain c' where "checkAndSend_socket (beside None) (\<lambda>n. 0 \<le> n) (NUL, NUL) (visitor 0) = Inr c'"
    using serving_answers [OF visitor_serving] by blast
  then obtain s where s: "server_run (beside None) (\<lambda>n. 0 \<le> n) (NUL, NUL) (one_client @ [M_Worker 0])
      (start_server 1 visitor [Client 7] []) = Some s" "table s = Map.empty" "arrived s = 1"
    by (simp add: one_client_def server_run_simps)
  then show ?thesis
    using server_serves [OF visitor_serving server_run_reaches [OF s(1)]] by auto
qed

text \<open>
  C16: the server refines its pool: every run of it is a run of the pool, and the descriptors on the
  connection list stand for the clients that the list took and no worker got yet, in the order in
  which it took them, each client once.
\<close>

theorem server_refines_pool:
  assumes "serving fs al clients" and "(server_step fs al)\<^sup>*\<^sup>* (start_server n clients cs gs) s"
  shows "pool_step\<^sup>*\<^sup>* (start_pool n cs gs) (team s) \<and> distinct (logged s) \<and>
    map (table s) (procs (cheld (queue (team s)))) = map Some (drop (length (procs (given (team s)))) (logged s))"
proof -
  have "server_inv (got_answer fs al clients) clients s"
    by (rule server_reached [OF assms(2,1)])
  then show ?thesis
    using server_reach_pool [OF assms(2)] by (simp add: server_inv_def seen_of_def descs_def start_server_def)
qed

theorem server_refines_pool_witness:
  "\<exists>s. server_run (beside None) (\<lambda>n. 0 \<le> n) (NUL, NUL) (replicate 6 M_Main) (start_server 1 visitor [Client 7] []) = Some s \<and>
     procs (cheld (queue (team s))) = [7] \<and> logged s = [0] \<and> map (table s) [7] = map Some [0] \<and>
     pool_step\<^sup>*\<^sup>* (start_pool 1 [Client 7] []) (team s)"
proof -
  obtain s where s: "server_run (beside None) (\<lambda>n. 0 \<le> n) (NUL, NUL) (replicate 6 M_Main)
      (start_server 1 visitor [Client 7] []) = Some s"
    "procs (cheld (queue (team s))) = [7]" "given (team s) = []" "logged s = [0]"
    by (simp add: server_run_simps cheld_def items_def walk.simps vals_def)
  then show ?thesis
    using server_refines_pool [OF visitor_serving server_run_reaches [OF s(1)]] by simp
qed

text \<open>
  C7: the next client can always be answered: from every reachable state of the server whose list
  holds a connection, while some worker was not told to stop, a run leads to a state in which the
  client of the first connection has its complete answer and is closed; the one exception is the
  handler of SIGINT that waits for the mutex of its own thread.
\<close>

theorem server_progress:
  assumes "serving fs al clients" and "(server_step fs al)\<^sup>*\<^sup>* (start_server n clients cs gs) s"
    and "cheld (queue (team s)) = (c, PROCESS) # xs" and "i < n" and "\<not> stopped (stages (team s) ! i)"
    and "\<not> self_locked (team s)"
  shows "\<exists>k s'. table s c = Some k \<and> (server_step fs al)\<^sup>*\<^sup>* s s' \<and> got_answer fs al clients k (socks s' k) \<and>
    k \<notin> ran (table s')"
proof -
  have "i < length (stages (team s))"
    using pool_reach_length [OF server_reach_pool [OF assms(2)]] assms(4) by (simp add: start_server_def start_pool_def)
  then show ?thesis
    using next_client_answered [OF server_reached [OF assms(2,1)] assms(1,3)] assms(5,6) by blast
qed

theorem server_progress_witness:
  "\<exists>s s'. server_run (beside None) (\<lambda>n. 0 \<le> n) (NUL, NUL) (replicate 8 M_Main) (start_server 1 visitor [Client 7] []) = Some s \<and>
     socks s 0 = visitor 0 \<and> (server_step (beside None) (\<lambda>n. 0 \<le> n))\<^sup>*\<^sup>* s s' \<and>
     got_answer (beside None) (\<lambda>n. 0 \<le> n) visitor 0 (socks s' 0) \<and> 0 \<notin> ran (table s')"
proof -
  obtain s where s: "server_run (beside None) (\<lambda>n. 0 \<le> n) (NUL, NUL) (replicate 8 M_Main)
      (start_server 1 visitor [Client 7] []) = Some s"
    and at: "cheld (queue (team s)) = [(7, PROCESS)]" "stages (team s) = [Locking]" "handler (team s) = None"
      "table s 7 = Some 0" "socks s 0 = visitor 0"
    by (simp add: server_run_simps cheld_def items_def walk.simps vals_def)
  then show ?thesis
    using server_progress [OF visitor_serving server_run_reaches [OF s], of 7 "[]" 0]
    by (auto simp: stopped_def self_locked_def)
qed

text \<open>
  C8: an orderly end leaves nobody out: when main has joined every worker, every client whose
  connection the list took before a termination token has got its complete answer, and its connection
  is closed.
\<close>

theorem server_drained:
  assumes "serving fs al clients" and "(server_step fs al)\<^sup>*\<^sup>* (start_server n clients cs gs) s"
    and "list_all (\<lambda>w. w = Exited) (stages (team s))" and "accepted (team s) = xs @ (c, TERMINATE) # ys"
  shows "\<forall>k \<in> set (take (length (procs xs)) (logged s)). got_answer fs al clients k (socks s k) \<and> k \<notin> ran (table s)"
  using inv_drained [OF server_reached [OF assms(2,1)] _ assms(3,4)] server_reach_pool [OF assms(2)]
  by (simp add: start_server_def)

theorem server_drained_witness:
  "\<exists>s. server_run (beside None) (\<lambda>n. 0 \<le> n) (NUL, NUL) one_client_out (start_server 1 visitor [Client 7] []) = Some s \<and>
     LOOP (team s) = False \<and> got_answer (beside None) (\<lambda>n. 0 \<le> n) visitor 0 (socks s 0) \<and> 0 \<notin> ran (table s)"
proof -
  obtain c' where "checkAndSend_socket (beside None) (\<lambda>n. 0 \<le> n) (NUL, NUL) (visitor 0) = Inr c'"
    using serving_answers [OF visitor_serving] by blast
  then obtain s where s: "server_run (beside None) (\<lambda>n. 0 \<le> n) (NUL, NUL) one_client_out
      (start_server 1 visitor [Client 7] []) = Some s"
    and at: "stages (team s) = [Exited]" "accepted (team s) = [(7, PROCESS)] @ (0, TERMINATE) # []" "logged s = [0]"
      "LOOP (team s) = False"
    by (simp add: one_client_out_def one_client_def server_run_simps)
  then show ?thesis
    using server_drained [OF visitor_serving server_run_reaches [OF s], of "[(7, PROCESS)]" 0 "[]"] by simp
qed

end
