(* ===== verification/Together.thy ===== *)
theory Together
  imports Fetch ProxyRun ServerServes
begin

text \<open>
  All three programs: clients of src/client.c that ask the proxy, as a whole with one worker, for files
  of the server. What the proxy's clients are answered in every interleaving is put together with
  what the server answers and what the client counts.
\<close>

text \<open>The connection of a client that has written its request for the name.\<close>

definition asking :: "setting \<Rightarrow> string \<Rightarrow> string \<Rightarrow> sock" where
  "asking st h f = \<lparr>rx = [Data (proxy_text st h f)], tx = [], txo = []\<rparr>"

lemma asking_relayable:
  assumes "ample al" and "serves fs junk f b" and "asks st h f" and "lookup net h = Some ip" and "up net (ip, port st)"
    and "replies net (ip, port st) = served fs al junk" and "Tx_Error \<notin> set (takes net (ip, port st))"
  shows "relayable al net (asking st h f) (file_response f b)"
proof -
  obtain cs' where cs: "recvHeader al [Data (proxy_text st h f)] =
      Inr (Some (proxy_text st h f), int (length (proxy_text st h f)), 0, cs')"
    using proxy_text_received [OF assms(2,3,1)] by blast
  have "good_host h (port st)"
    using assms(3) by (simp add: asks_def)
  then show ?thesis
    unfolding relayable_def
    using cs assms(4,5) proxy_text_proxied [OF assms(2,3)] proxy_text_parts(5) [OF assms(2,3)] file_responds [OF assms(2,3,6,7)]
    by (intro exI [of _ "proxy_text st h f"] exI [of _ "''GET''"] exI [of _ h] exI [of _ "port st"]
        exI [of _ "origin_form (CHR ''/'' # f) (host_port h (port st))"] exI [of _ ip] exI [of _ 0] exI [of _ cs'])
      (simp add: asking_def server_text_def)
qed

lemma file_counted:
  assumes "ample al" and "serves fs junk f b" and "asks st h f"
  shows "client_access al st (Some f) (Peer [] (\<lambda>q. [Data (file_response f b)])) = Inr (int (length b))"
proof -
  have req: "client_request st (Some f) = Inr (proxy_text st h f)"
    using proxy_request assms(2,3) .
  have "answers (\<lambda>q. [Data (file_response f b)]) (proxy_text st h f) b"
    using served_answers [OF assms(2) server_text_served [OF assms(2,3)], of al]
    by (simp add: answers_def server_text_served [OF assms(2,3)])
  then show ?thesis
    using client_access_counts [OF assms(1) req _ client_request_short [OF req], of "[]"] by simp
qed

end
