(* ===== verification/Races.thy ===== *)
theory Races
  imports Exchange
begin

text \<open>
  Runs of the exchange over shared memory that go wrong: a request of two segments whose first is
  lost, two proxy threads on one node whose responses are crossed, and a worker that serves
  another node than the one that was flagged, which then waits for ever.
\<close>

section \<open>Runs that go wrong\<close>

text \<open>The memory of a node with \<open>d\<close> written to its front.\<close>

definition over :: "buffer \<Rightarrow> buffer \<Rightarrow> buffer" where
  "over d m = d @ drop (length d) m"

lemma length_over [simp]: "length d \<le> length m \<Longrightarrow> length (over d m) = length m"
  by (simp add: over_def)

lemma take_over [simp]: "take (length d) (over d m) = d"
  by (simp add: over_def)

lemma sendShared_turn_last:
  assumes "k < length m" and "length m - k \<le> SEGMENTSIZE" and "length (mem n) = SEGMENTSIZE"
  shows "sendShared_turn \<lparr>msg = m, totalBytes = int k, isServer = b\<rparr> n =
    Inr (Go_On b, \<lparr>msg = m, totalBytes = int (length m), isServer = b\<rparr>,
      signalled ((set_theState b COMPLETE n)
        \<lparr>mem := over (drop k m) (mem n), spaceUsed := int (length m - k)\<rparr>))"
proof -
  have "setMapping (set_theState b BUSY n) (drop k m) (int (length m) - int k) =
      Inr (int (length m) - int k, (set_theState b BUSY n)
        \<lparr>mem := drop k m @ drop (length m - k) (mem n), spaceUsed := int (length m - k)\<rparr>)"
    using assms setMapping_fits [of "set_theState b BUSY n" "drop k m"]
    by (simp add: set_theState_def of_nat_diff)
  moreover have "\<not> int SEGMENTSIZE < int (length m) - int k"
    using assms by linarith
  ultimately show ?thesis
    using assms by (cases n) (simp add: sendShared_turn_def set_theState_def Let_def over_def)
qed

lemma sendShared_turn_part:
  assumes "SEGMENTSIZE < length m - k" and "length (mem n) = SEGMENTSIZE"
  shows "sendShared_turn \<lparr>msg = m, totalBytes = int k, isServer = b\<rparr> n =
    Inr (Go_On True, \<lparr>msg = m, totalBytes = int (k + SEGMENTSIZE), isServer = b\<rparr>,
      signalled ((set_theState b (if b then WAITING_CONT_PRXY else WAITING_CONT_SRVR) n)
        \<lparr>mem := take SEGMENTSIZE (drop k m), spaceUsed := int SEGMENTSIZE\<rparr>))"
proof -
  have "setMapping (set_theState b BUSY n) (drop k m) (int SEGMENTSIZE) =
      Inr (int SEGMENTSIZE, (set_theState b BUSY n)
        \<lparr>mem := take SEGMENTSIZE (drop k m), spaceUsed := int SEGMENTSIZE\<rparr>)"
    using assms by (simp add: set_theState_def setMapping_def Let_def)
  moreover have "int SEGMENTSIZE < int (length m) - int k"
    "int k < int (length m)" "int k + int SEGMENTSIZE \<noteq> int (length m)"
    using assms(1) by linarith+
  ultimately show ?thesis
    by (cases n) (simp add: sendShared_turn_def set_theState_def Let_def)
qed

lemma run_step:
  "act al reply a w = Some (Inr w1) \<Longrightarrow> schedule al reply (a # as) w = schedule al reply as w1"
  by simp

lemmas run_defs = pstep_def wstep_def mstep_def proxy_step.simps worker_step.simps pmove_def wmove_def
  node_ops findState_def findState_loop.simps pid_def wid_def new_proxy_def new_worker_def
  zero_node_def one_def set_theState_def Let_def

text \<open>
  A request of two segments. When the worker announces itself before the proxy looks, the proxy
  starts to send without having been signalled; the worker's signal then wakes it from the wait
  for its first segment to be read, and the second segment overwrites the first.
\<close>

definition race :: "actor list" where
  "race = [Proxy 0, Proxy 0, Main, Worker 0, Worker 0, Proxy 0, Proxy 0, Proxy 0,
     Worker 0, Worker 0, Proxy 0, Proxy 0, Proxy 0, Proxy 0, Worker 0, Worker 0]"

lemma race_run:
  assumes "ample al" and R: "R = d1 @ d2" "length d1 = SEGMENTSIZE" "d2 \<noteq> []" "length d2 \<le> SEGMENTSIZE"
    and strip: "stripAbsURL al hdr (length hdr) = Inr (Some R, int (length R))"
  shows "\<exists>w. schedule al reply race (one zero_node [] (new_proxy hdr c) new_worker 0) = Some (Inr w) \<and>
     wpc (workers w ! 0) = W_Reply \<and> line (workers w ! 0) = d2"
proof -
  have seg: "0 < SEGMENTSIZE"
    by (simp add: SEGMENTSIZE_def)
  note turn1 = sendShared_turn_part [where m = "d1 @ d2" and k = 0, simplified]
  note turn2 = sendShared_turn_last [where m = "d1 @ d2" and k = SEGMENTSIZE, simplified]
  show ?thesis
    using assms seg segment_room(1)
    by (simp add: race_def run_defs sendShared_start_def ample_grants turn1 turn2 sendShared_turn_done
      receiveShared_def)
qed

text \<open>
  Two proxy threads that find the same node idle. The second starts its send when the first has
  completed its own, takes itself for the server, and its request is what the worker reads; the
  response to it goes to the first thread's client.
\<close>

definition two_proxies :: "pthread \<Rightarrow> pthread \<Rightarrow> world" where
  "two_proxies p q = \<lparr>nodes = [zero_node], numNodes' = 1, proxies = [p, q],
     workers = [new_worker], tokens = 0\<rparr>"

definition same_node :: "actor list" where
  "same_node = [Proxy 0, Proxy 1, Proxy 0, Proxy 0, Proxy 1, Proxy 1, Main, Worker 0, Worker 0,
     Worker 0, Worker 0, Proxy 0, Proxy 0, Proxy 0, Proxy 0, Proxy 0, Proxy 1, Proxy 1, Proxy 1,
     Worker 0, Worker 0, Worker 0, Worker 0, Proxy 0, Proxy 0]"

lemma same_node_run:
  assumes "ample al" and R: "R0 \<noteq> []" "length R0 \<le> SEGMENTSIZE" "R1 \<noteq> []" "length R1 \<le> SEGMENTSIZE"
    and strip: "stripAbsURL al h0 (length h0) = Inr (Some R0, int (length R0))"
      "stripAbsURL al h1 (length h1) = Inr (Some R1, int (length R1))"
    and reply: "reply (R1 @ replicate (20000 - length R1) NUL) = Inr (H, B)"
      "H @ B = A" "A \<noteq> []" "length A \<le> SEGMENTSIZE"
    and c: "txo c0 = []"
  shows "\<exists>w. schedule al reply same_node (two_proxies (new_proxy h0 c0) (new_proxy h1 c1)) = Some (Inr w) \<and>
     tx (client (proxies w ! 0)) = tx c0 @ A"
proof -
  have seg: "0 < SEGMENTSIZE"
    by (simp add: SEGMENTSIZE_def)
  note turn0 = sendShared_turn_last [where m = R0 and k = 0, simplified]
  note turn1 = sendShared_turn_last [where m = R1 and k = 0, simplified]
  note turn2 = sendShared_turn_last [where m = A and k = 0, simplified]
  have room: "in_int (int (length A))"
    using reply(4) by (simp add: in_int_def SEGMENTSIZE_def)
  show ?thesis
    using assms seg segment_room(1) room
    by (simp add: same_node_def run_defs sendShared_start_def ample_grants turn0 turn1 turn2
      sendShared_turn_done receiveShared_def two_proxies_def sendAll_plain)
qed

text \<open>
  Two nodes, one worker. While the first node is being left, a request on the second is flagged
  and queued; before the worker takes it, a new request comes to the first node, and the worker,
  which looks for the first node that waits, serves that one. The flagged node stays \<open>BUSY\<close>, so it
  is never queued again.
\<close>

definition full_exchange :: "nat \<Rightarrow> actor list" where
  "full_exchange i = [Worker 0, Worker 0, Worker 0, Worker 0,
     Proxy i, Proxy i, Proxy i, Proxy i, Proxy i, Worker 0, Worker 0, Worker 0, Worker 0,
     Proxy i, Proxy i, Worker 0, Worker 0, Worker 0, Worker 0]"

definition wrong_node :: "actor list" where
  "wrong_node = [Proxy 0, Proxy 0, Proxy 0, Main] @ full_exchange 0 @
     [Proxy 1, Proxy 1, Proxy 1, Main, Proxy 0] @ [Proxy 2, Proxy 2, Proxy 2] @ full_exchange 2 @ [Proxy 2]"


definition three_proxies :: "buffer \<Rightarrow> sock \<Rightarrow> world" where
  "three_proxies h c = \<lparr>nodes = [zero_node, zero_node], numNodes' = 2,
     proxies = [new_proxy h c, new_proxy h c, new_proxy h c], workers = [new_worker], tokens = 0\<rparr>"

lemma schedule_append:
  "schedule al reply (as @ bs) w = (case schedule al reply as w of
     Some (Inr w') \<Rightarrow> schedule al reply bs w' | r \<Rightarrow> r)"
  by (induction as arbitrary: w) (auto split: option.splits sum.splits)

lemma wrong_node_run:
  assumes "ample al" and R: "R \<noteq> []" "length R \<le> SEGMENTSIZE"
    and strip: "stripAbsURL al h (length h) = Inr (Some R, int (length R))"
    and reply: "reply (R @ replicate (20000 - length R) NUL) = Inr (H, B)"
      "H @ B = A" "A \<noteq> []" "length A \<le> SEGMENTSIZE"
    and c: "txo c = []"
  shows "\<exists>w. schedule al reply wrong_node (three_proxies h c) = Some (Inr w) \<and>
     map ppc (proxies w) = [P_Done, P_Wait0, P_Done] \<and> map wpc (workers w) = [W_Idle] \<and>
     map pnode (proxies w) = [0, 1, 0] \<and> tokens w = 0 \<and> numNodes' w = 2 \<and>
     map proxyState (nodes w) = [IDLE, WAITING_INIT_SRVR] \<and> serverState (nodes w ! 1) = BUSY \<and>
     condition (nodes w ! 1) = [pid 1]"
proof -
  have seg: "0 < SEGMENTSIZE"
    by (simp add: SEGMENTSIZE_def)
  note turn0 = sendShared_turn_last [where m = R and k = 0, simplified]
  note turn2 = sendShared_turn_last [where m = A and k = 0, simplified]
  have room: "in_int (int (length A))"
    using reply(4) by (simp add: in_int_def SEGMENTSIZE_def)
  show ?thesis
    using assms seg segment_room(1) room
    by (simp add: wrong_node_def full_exchange_def run_defs sendShared_start_def ample_grants turn0 turn2
      sendShared_turn_done receiveShared_def three_proxies_def sendAll_plain)
qed


lemma starved:
  assumes "map ppc (proxies w) = [P_Done, P_Wait0, P_Done]" and "map wpc (workers w) = [W_Idle]"
    and "map pnode (proxies w) = [0, 1, 0]" and "tokens w = 0" and "numNodes' w = 2"
    and "map proxyState (nodes w) = [IDLE, WAITING_INIT_SRVR]" and "serverState (nodes w ! 1) = BUSY"
    and "condition (nodes w ! 1) = [pid 1]"
  shows "act al reply a w = None"
proof -
  obtain p0 p1 p2 where p: "proxies w = [p0, p1, p2]" "ppc p0 = P_Done" "ppc p1 = P_Wait0" "ppc p2 = P_Done"
    "pnode p0 = 0" "pnode p1 = 1" "pnode p2 = 0"
    using assms(1,3) by auto
  obtain s where s: "workers w = [s]" "wpc s = W_Idle"
    using assms(2) by auto
  obtain n0 n1 where n: "nodes w = [n0, n1]" "proxyState n0 = IDLE" "proxyState n1 = WAITING_INIT_SRVR"
    "serverState n1 = BUSY" "condition n1 = [pid 1]"
    using assms(6,7,8) by auto
  have "findState (nodes w) (numNodes' w) WAITING_INIT_SRVR = Inr (Some 1)"
    using n assms(5) by (simp add: findState_Some)
  then have "mstep w = None"
    using n by (simp add: mstep_def)
  moreover have "wstep al reply j w = None" for j
    using s assms(4) by (cases j) (simp_all add: wstep_def Let_def)
  moreover have "pstep al i w = None" for i
  proof -
    consider "i = 0" | "i = 1" | "i = 2" | "3 \<le> i"
      by linarith
    then show ?thesis
      using p n by cases (simp_all add: pstep_def Let_def proxy_step.simps woken_def)
  qed
  ultimately show ?thesis
    by (cases a) simp_all
qed

section \<open>Properties\<close>

text \<open>
  C32: a request of two segments can lose its first one: when the worker has announced itself before
  the proxy looks at its state, the proxy skips its first wait, the worker's signal wakes it from the
  wait for the first segment to be read, and the worker takes the second segment alone for the
  request.
\<close>

theorem lost_first_segment:
  assumes "ample al" and "length d1 = SEGMENTSIZE" and "d2 \<noteq> []" and "length d2 \<le> SEGMENTSIZE"
    and "stripAbsURL al hdr (length hdr) = Inr (Some (d1 @ d2), int (length (d1 @ d2)))"
  shows "\<exists>w. schedule al reply race (one zero_node [] (new_proxy hdr c) new_worker 0) = Some (Inr w) \<and>
    wpc (workers w ! 0) = W_Reply \<and> line (workers w ! 0) = d2"
  using race_run [OF assms(1) refl assms(2,3,4,5)] .

text \<open>A request for a name of 10000 letters.\<close>

definition long_name :: string where
  "long_name = CHR ''/'' # replicate SEGMENTSIZE (CHR ''a'')"

theorem lost_first_segment_witness:
  "\<exists>w. schedule (\<lambda>n. 0 \<le> n) (\<lambda>b. Inr ([], [])) race
     (one zero_node [] (new_proxy (page_header long_name) \<lparr>rx = [], tx = [], txo = []\<rparr>) new_worker 0) = Some (Inr w) \<and>
   line (workers w ! 0) = drop SEGMENTSIZE (page_request long_name)"
proof -
  let ?R = "page_request long_name"
  have "length (take SEGMENTSIZE ?R) = SEGMENTSIZE" "drop SEGMENTSIZE ?R \<noteq> []"
    "length (drop SEGMENTSIZE ?R) \<le> SEGMENTSIZE"
    by (simp_all add: page_request_def long_name_def EOL_def SEGMENTSIZE_def)
  moreover have "stripAbsURL (\<lambda>n. 0 \<le> n) (page_header long_name) (length (page_header long_name)) = Inr (Some
      (take SEGMENTSIZE ?R @ drop SEGMENTSIZE ?R), int (length (take SEGMENTSIZE ?R @ drop SEGMENTSIZE ?R)))"
    unfolding append_take_drop_id by (rule page_strip [OF ample_nonneg]) (simp_all add: long_name_def)
  ultimately show ?thesis
    using lost_first_segment [OF ample_nonneg] by blast
qed

text \<open>
  C33: two threads of the proxy that find the same node idle cross their responses: after both have
  locked the node in turn, the second takes itself for the server, and the first thread's client
  receives the response to the second thread's request.
\<close>

theorem crossed_responses:
  assumes "ample al" and "R0 \<noteq> []" and "length R0 \<le> SEGMENTSIZE" and "R1 \<noteq> []" and "length R1 \<le> SEGMENTSIZE"
    and "stripAbsURL al h0 (length h0) = Inr (Some R0, int (length R0))"
    and "stripAbsURL al h1 (length h1) = Inr (Some R1, int (length R1))"
    and "reply (R1 @ replicate (20000 - length R1) NUL) = Inr (H, B)"
    and "H @ B \<noteq> []" and "length (H @ B) \<le> SEGMENTSIZE" and "txo c0 = []"
  shows "\<exists>w. schedule al reply same_node (two_proxies (new_proxy h0 c0) (new_proxy h1 c1)) = Some (Inr w) \<and>
    tx (client (proxies w ! 0)) = tx c0 @ H @ B"
  using same_node_run [where reply = reply and A = "H @ B", OF assms(1-8) refl assms(9-11)] .

text \<open>A server that answers with the request line it got.\<close>

definition echo :: "buffer \<Rightarrow> (buffer \<times> buffer) result" where
  "echo b = Inr (''HTTP'', takeWhile (\<lambda>c. c \<noteq> CR) b)"

theorem crossed_responses_witness:
  "\<exists>w. schedule (\<lambda>n. 0 \<le> n) echo same_node
     (two_proxies (new_proxy (page_header ''/mine'') \<lparr>rx = [], tx = [], txo = []\<rparr>)
        (new_proxy (page_header ''/yours'') \<lparr>rx = [], tx = [], txo = []\<rparr>)) = Some (Inr w) \<and>
     tx (client (proxies w ! 0)) = ''HTTPGET /yours HTTP/1.0''"
proof -
  have R: "page_request ''/mine'' \<noteq> []" "length (page_request ''/mine'') \<le> SEGMENTSIZE"
    "page_request ''/yours'' \<noteq> []" "length (page_request ''/yours'') \<le> SEGMENTSIZE"
    by (simp_all add: page_request_fits)
  have A: "''HTTP'' @ ''GET /yours HTTP/1.0'' \<noteq> []" "length (''HTTP'' @ ''GET /yours HTTP/1.0'') \<le> SEGMENTSIZE"
    by (simp_all add: SEGMENTSIZE_def)
  have "echo (page_request ''/yours'' @ replicate (20000 - length (page_request ''/yours'')) NUL) =
      Inr (''HTTP'', ''GET /yours HTTP/1.0'')"
    by (simp add: echo_def page_request_def EOL_def)
  then show ?thesis
    using crossed_responses [OF ample_nonneg R page_strip [OF ample_nonneg] page_strip [OF ample_nonneg] _ A,
        of echo "\<lparr>rx = [], tx = [], txo = []\<rparr>" "\<lparr>rx = [], tx = [], txo = []\<rparr>"]
    by simp
qed

text \<open>
  C34: a request can wait for ever: when the worker serves another node than the one the server's
  main loop flagged, the flagged node stays \<open>BUSY\<close>; the run ends in a world where no thread can
  move while the thread that posted the request still waits.
\<close>

theorem starved_request:
  assumes "ample al" and "R \<noteq> []" and "length R \<le> SEGMENTSIZE"
    and "stripAbsURL al h (length h) = Inr (Some R, int (length R))"
    and "reply (R @ replicate (20000 - length R) NUL) = Inr (H, B)"
    and "H @ B \<noteq> []" and "length (H @ B) \<le> SEGMENTSIZE" and "txo c = []"
  shows "\<exists>w. schedule al reply wrong_node (three_proxies h c) = Some (Inr w) \<and>
    ppc (proxies w ! 1) = P_Wait0 \<and> (\<forall>a. act al reply a w = None)"
proof -
  obtain w where w: "schedule al reply wrong_node (three_proxies h c) = Some (Inr w)"
    "map ppc (proxies w) = [P_Done, P_Wait0, P_Done]" "map wpc (workers w) = [W_Idle]"
    "map pnode (proxies w) = [0, 1, 0]" "tokens w = 0" "numNodes' w = 2"
    "map proxyState (nodes w) = [IDLE, WAITING_INIT_SRVR]" "serverState (nodes w ! 1) = BUSY"
    "condition (nodes w ! 1) = [pid 1]"
    using wrong_node_run [where reply = reply and A = "H @ B", OF assms(1-5) refl assms(6-8)]
    by (elim exE conjE) (rule that)
  have "ppc (proxies w ! 1) = P_Wait0"
    using w(2) by auto
  then show ?thesis
    using w(1) starved [OF w(2-9)] by (intro exI [of _ w]) simp
qed

theorem starved_request_witness:
  "\<exists>w. schedule (\<lambda>n. 0 \<le> n) (\<lambda>b. Inr (''HTTP'', ''x'')) wrong_node
     (three_proxies sample_header \<lparr>rx = [], tx = [], txo = []\<rparr>) = Some (Inr w) \<and>
     ppc (proxies w ! 1) = P_Wait0"
proof -
  have R: "sample_request \<noteq> []" "length sample_request \<le> SEGMENTSIZE"
    by (simp_all add: sample_request_def page_request_fits)
  have A: "''HTTP'' @ ''x'' \<noteq> []" "length (''HTTP'' @ ''x'') \<le> SEGMENTSIZE"
    by (simp_all add: SEGMENTSIZE_def)
  show ?thesis
    using starved_request [OF ample_nonneg R sample_strip [OF ample_nonneg] refl A,
        of "\<lparr>rx = [], tx = [], txo = []\<rparr>"]
    by (auto simp del: append.simps)
qed

end
