(* ===== verification/Startup.thy ===== *)
theory Startup
  imports ConList MemList
begin

text \<open>
  How the server and the proxy start and end: the argument checks of the two \<open>main\<close> functions,
  \<open>initializeGlobals\<close> and \<open>cleanUpGlobals\<close> of src/server.c and src/proxy.c, and the server's
  \<open>DELETE\<close> mode. Both processes meet in the shared memory objects, which outlive them: every
  function gives, next to its result, the objects it leaves behind.
\<close>

section \<open>The machine around it\<close>

text \<open>Whether the calls that can fail succeed.\<close>

record system =
  chdir_ok :: "string \<Rightarrow> bool"
  mutex_init_ok :: bool
  cond_init_ok :: bool
  alloc :: allocator
  socket_ok :: bool
  bind_ok :: bool
  listen_ok :: bool

text \<open>The globals: the connection list with its heap, the flag, and the number of workers.\<close>

record globals =
  conns :: conlist
  gheap :: cheap
  OPTIMIZED :: bool
  threads :: int

type_synonym 'a startup = "'a result \<times> shm"

definition exiting :: "int \<Rightarrow> shm \<Rightarrow> 'a startup" where
  "exiting code os = (Inl (Exit_With code), os)"

section \<open>The server\<close>

definition server_meta :: "int \<Rightarrow> shm \<Rightarrow> unit startup" where
  "server_meta nodes os =
     (case getMetanode os of
        (None, os1) \<Rightarrow>
          (case destroyMemList nodes os1 of
             Inl e \<Rightarrow> (Inl e, os1)
           | Inr (r, os2) \<Rightarrow> exiting MEMALLOC_FAILURE os2)
      | (Some _, os1) \<Rightarrow>
          (case set_meta (\<lambda>m. m\<lparr>serverFlag := ONLINE, metaNodes := nodes\<rparr>) os1 of
             Inl e \<Rightarrow> (Inl e, os1)
           | Inr os2 \<Rightarrow> (Inr (), os2)))"

text \<open>When the list for all workers cannot be had, the default number of nodes is tried.\<close>

definition server_shared :: "int \<Rightarrow> shm \<Rightarrow> unit startup" where
  "server_shared n os =
     (case getMemList n os of
        Inl e \<Rightarrow> (Inl e, os)
      | Inr (Some _, os1) \<Rightarrow> server_meta n os1
      | Inr (None, os1) \<Rightarrow>
          (case getMemList (NUMSEGMENTS) os1 of
             Inl e \<Rightarrow> (Inl e, os1)
           | Inr (None, os2) \<Rightarrow> exiting MEMALLOC_FAILURE os2
           | Inr (Some _, os2) \<Rightarrow> server_meta (NUMSEGMENTS) os2))"

definition initializeGlobals_server :: "system \<Rightarrow> bool \<Rightarrow> int \<Rightarrow> cheap \<Rightarrow> shm \<Rightarrow> globals startup" where
  "initializeGlobals_server sys opt n h os =
     (if \<not> mutex_init_ok sys \<or> \<not> cond_init_ok sys then exiting MUTEX_FAILURE os
      else if \<not> alloc sys (8 * n) then exiting MEMALLOC_FAILURE os
      else case newConList h of
        (None, h1) \<Rightarrow> exiting MEMALLOC_FAILURE os
      | (Some l, h1) \<Rightarrow>
          if \<not> socket_ok sys then exiting SOCKET_FAILURE os
          else
            let g = \<lparr>conns = l, gheap = h1, OPTIMIZED = opt, threads = n\<rparr> in
            if \<not> opt then (Inr g, os)
            else (case server_shared n os of
                    (Inl e, os1) \<Rightarrow> (Inl e, os1)
                  | (Inr _, os1) \<Rightarrow> (Inr g, os1)))"

text \<open>\<open>server DELETE\<close>.\<close>

definition delete_shared :: "shm \<Rightarrow> globals startup" where
  "delete_shared os =
     (case getMetanode os of
        (None, os1) \<Rightarrow> (Inl Null_Deref, os1)
      | (Some _, os1) \<Rightarrow>
          (case the_meta os1 of
             Inl e \<Rightarrow> (Inl e, os1)
           | Inr m \<Rightarrow>
               if metaNodes m = 0 then exiting INCORRECT_ARGS os1
               else (case getMemList (metaNodes m) os1 of
                 Inl e \<Rightarrow> (Inl e, os1)
               | Inr (None, os2) \<Rightarrow> (Inl Null_Deref, os2)
               | Inr (Some _, os2) \<Rightarrow>
                   (case destroyMemList (metaNodes m) os2 of
                      Inl e \<Rightarrow> (Inl e, os2)
                    | Inr (r, os3) \<Rightarrow> (case destroyMetanode os3 of (r', os4) \<Rightarrow> exiting 1 os4)))))"

text \<open>The document directory, in the order in which the source tests the cases.\<close>

definition root_ok :: "system \<Rightarrow> bool \<Rightarrow> string list \<Rightarrow> bool" where
  "root_ok sys opt argv \<longleftrightarrow>
     \<not> (length argv = 5 \<and> \<not> chdir_ok sys (argv ! 3) \<or>
        length argv = 4 \<and> opt \<and> \<not> chdir_ok sys ''.'' \<or>
        length argv = 4 \<and> \<not> opt \<and> \<not> chdir_ok sys (argv ! 3) \<or>
        length argv = 3 \<and> \<not> chdir_ok sys ''.'')"

text \<open>\<open>main\<close>, up to the creation of the workers.\<close>

definition server_start :: "system \<Rightarrow> string list \<Rightarrow> cheap \<Rightarrow> shm \<Rightarrow> globals startup" where
  "server_start sys argv h os =
     (if length argv = 2 \<and> argv ! 1 = ''DELETE'' then delete_shared os
      else if length argv < 3 then exiting INCORRECT_ARGS os
      else
        let opt = (isOptimized argv = 1); n = atoi (argv ! 2) in
        if \<not> root_ok sys opt argv then exiting INCORRECT_ARGS os
        else if n \<le> 0 then exiting INCORRECT_ARGS os
        else (case initializeGlobals_server sys opt n h os of
                (Inl e, os1) \<Rightarrow> (Inl e, os1)
              | (Inr g, os1) \<Rightarrow>
                  if \<not> bind_ok sys \<or> \<not> listen_ok sys then exiting SOCKET_FAILURE os1 else (Inr g, os1)))"

text \<open>The end: the list is emptied; the shared memory goes, its size read from the metanode.\<close>

definition cleanUpGlobals_server :: "globals \<Rightarrow> shm \<Rightarrow> cheap startup" where
  "cleanUpGlobals_server g os =
     (case destroyAll (conns g) (gheap g) of
        Inl e \<Rightarrow> (Inl e, os)
      | Inr h \<Rightarrow>
          if \<not> OPTIMIZED g then (Inr h, os)
          else (case the_meta os of
                  Inl e \<Rightarrow> (Inl e, os)
                | Inr m \<Rightarrow>
                    (case destroyMemList (metaNodes m) os of
                       Inl e \<Rightarrow> (Inl e, os)
                     | Inr (r, os1) \<Rightarrow> (case destroyMetanode os1 of (r', os2) \<Rightarrow> (Inr h, os2)))))"

section \<open>The proxy\<close>

primrec isCompressed_loop :: "string list \<Rightarrow> int" where
  "isCompressed_loop [] = 0"
| "isCompressed_loop (a # args) = (if a = ''-c'' then 1 else isCompressed_loop args)"

definition isCompressed :: "string list \<Rightarrow> int" where
  "isCompressed argv = isCompressed_loop argv"

definition proxy_shared :: "shm \<Rightarrow> unit startup" where
  "proxy_shared os =
     (case getMetanode os of
        (None, os1) \<Rightarrow> exiting MEMALLOC_FAILURE os1
      | (Some _, os1) \<Rightarrow>
          (case bindR (the_meta os1) (\<lambda>m.
                  if serverFlag m = OFFLINE
                  then set_meta (\<lambda>m. m\<lparr>metaNodes := NUMSEGMENTS\<rparr>) os1 else Inr os1) of
             Inl e \<Rightarrow> (Inl e, os1)
           | Inr os2 \<Rightarrow>
               (case bindR (the_meta os2) (\<lambda>m. getMemList (metaNodes m) os2) of
                  Inl e \<Rightarrow> (Inl e, os2)
                | Inr (None, os3) \<Rightarrow> exiting MEMALLOC_FAILURE os3
                | Inr (Some _, os3) \<Rightarrow>
                    (case set_meta (\<lambda>m. m\<lparr>proxyFlag := ONLINE\<rparr>) os3 of
                       Inl e \<Rightarrow> (Inl e, os3)
                     | Inr os4 \<Rightarrow> (Inr (), os4)))))"

definition initializeGlobals_proxy :: "system \<Rightarrow> bool \<Rightarrow> int \<Rightarrow> cheap \<Rightarrow> shm \<Rightarrow> globals startup" where
  "initializeGlobals_proxy sys opt n h os =
     (if \<not> mutex_init_ok sys \<or> \<not> cond_init_ok sys then exiting MUTEX_FAILURE os
      else if \<not> alloc sys (8 * n) then exiting MEMALLOC_FAILURE os
      else case newConList h of
        (None, h1) \<Rightarrow> exiting MEMALLOC_FAILURE os
      | (Some l, h1) \<Rightarrow>
          let g = \<lparr>conns = l, gheap = h1, OPTIMIZED = opt, threads = n\<rparr> in
          if \<not> opt then (Inr g, os)
          else (case proxy_shared os of
                  (Inl e, os1) \<Rightarrow> (Inl e, os1)
                | (Inr _, os1) \<Rightarrow> (Inr g, os1)))"

text \<open>
  The arguments of the compression: \<open>argv[4]\<close> and \<open>argv[5]\<close>, wherever the flag stands; at the
  end of \<open>argv\<close> is a null pointer, and nothing of it behind that.
\<close>

definition compression_args :: "string list \<Rightarrow> (string \<times> int) option result" where
  "compression_args argv =
     (if isCompressed argv = 0 then Inr None
      else if length argv < 4 then Inl Over_Read
      else if length argv < 5 then Inl Null_Deref
      else if strstr (argv ! 4) ''http://'' \<noteq> None then Inl (Exit_With INCORRECT_ARGS)
      else if length argv < 6 then Inl Null_Deref
      else Inr (Some (argv ! 4, atoi (argv ! 5))))"

text \<open>\<open>main\<close>, up to the creation of the workers; the image server is part of what it gives.\<close>

definition proxy_start :: "system \<Rightarrow> string list \<Rightarrow> cheap \<Rightarrow> shm \<Rightarrow>
  (globals \<times> (string \<times> int) option) startup" where
  "proxy_start sys argv h os =
     (if length argv < 3 \<or> 7 < length argv then exiting INCORRECT_ARGS os
      else case compression_args argv of
        Inl e \<Rightarrow> (Inl e, os)
      | Inr dist \<Rightarrow>
          let opt = (isOptimized argv = 1); n = atoi (argv ! 2) in
          if n \<le> 0 then exiting INCORRECT_ARGS os
          else if \<not> socket_ok sys \<or> \<not> bind_ok sys \<or> \<not> listen_ok sys then exiting SOCKET_FAILURE os
          else (case initializeGlobals_proxy sys opt n h os of
                  (Inl e, os1) \<Rightarrow> (Inl e, os1)
                | (Inr g, os1) \<Rightarrow> (Inr (g, dist), os1)))"

text \<open>The proxy removes the shared memory only when no server is online.\<close>

definition cleanUpGlobals_proxy :: "globals \<Rightarrow> shm \<Rightarrow> cheap startup" where
  "cleanUpGlobals_proxy g os =
     (case destroyAll (conns g) (gheap g) of
        Inl e \<Rightarrow> (Inl e, os)
      | Inr h \<Rightarrow>
          if \<not> OPTIMIZED g then (Inr h, os)
          else (case the_meta os of
                  Inl e \<Rightarrow> (Inl e, os)
                | Inr m \<Rightarrow>
                    if serverFlag m \<noteq> OFFLINE then (Inr h, os)
                    else (case destroyMemList (metaNodes m) os of
                       Inl e \<Rightarrow> (Inl e, os)
                     | Inr (r, os1) \<Rightarrow> (case destroyMetanode os1 of (r', os2) \<Rightarrow> (Inr h, os2)))))"

section \<open>What they do\<close>

text \<open>Nothing the machine is asked for fails.\<close>

definition all_well :: "system \<Rightarrow> bool" where
  "all_well sys \<longleftrightarrow> (\<forall>d. chdir_ok sys d) \<and> mutex_init_ok sys \<and> cond_init_ok sys \<and> ample (alloc sys) \<and>
     socket_ok sys \<and> bind_ok sys \<and> listen_ok sys"

definition no_objects :: "shm \<Rightarrow> bool" where
  "no_objects os \<longleftrightarrow> objs os SEGMENTNAME = None \<and> objs os METANODENAME = None"

text \<open>The objects of \<open>n\<close> nodes, with a metanode.\<close>

definition has_objects :: "int \<Rightarrow> memnode list \<Rightarrow> metanode \<Rightarrow> shm \<Rightarrow> bool" where
  "has_objects n ns m os \<longleftrightarrow> objs os SEGMENTNAME = Some (sizeof_memnode * n, Nodes ns) \<and> length ns = nat n \<and>
     objs os METANODENAME = Some (sizeof_metanode, Meta m)"

lemma names_differ [simp]: "SEGMENTNAME \<noteq> METANODENAME" "METANODENAME \<noteq> SEGMENTNAME"
  by (simp_all add: SEGMENTNAME_def METANODENAME_def)

lemma has_objects_nodes: "has_objects n ns m os \<Longrightarrow> mapped_nodes os = ns"
  by (rule mapped_all) (simp_all add: has_objects_def)

lemma has_objects_meta: "has_objects n ns m os \<Longrightarrow> the_meta os = Inr m"
  by (simp add: has_objects_def the_meta_def)

lemma server_meta_new:
  assumes "objs os SEGMENTNAME = Some (sizeof_memnode * k, Nodes ns)" and "length ns = nat k"
    and "objs os METANODENAME = None" and "calls os = []"
  shows "\<exists>os'. server_meta n os = (Inr (), os') \<and> calls os' = [] \<and>
    has_objects k ns \<lparr>serverFlag = ONLINE, proxyFlag = OFFLINE, metaNodes = n\<rparr> os'"
  using assms
  by (simp add: server_meta_def getMetanode_new set_meta_def the_meta_def has_objects_def zero_meta_def)

lemma server_shared_new:
  assumes "no_objects os" and "calls os = []"
  shows "\<exists>os'. server_shared n os = (Inr (), os') \<and> calls os' = [] \<and>
    has_objects n (replicate (nat n) zero_node) \<lparr>serverFlag = ONLINE, proxyFlag = OFFLINE, metaNodes = n\<rparr> os'"
proof -
  obtain os1 where g: "getMemList n os = Inr (Some SEGMENTNAME, os1)"
    "objs os1 = (objs os)(SEGMENTNAME \<mapsto> (sizeof_memnode * n, Nodes (replicate (nat n) zero_node)))" "calls os1 = []"
    using getMemList_new [of os n] assms by (auto simp: no_objects_def)
  have "objs os1 SEGMENTNAME = Some (sizeof_memnode * n, Nodes (replicate (nat n) zero_node))"
    "objs os1 METANODENAME = None"
    using assms(1) g(2) by (simp_all add: no_objects_def)
  then show ?thesis
    using server_meta_new [OF _ _ _ g(3)] g(1) by (simp add: server_shared_def)
qed

text \<open>The server's \<open>main\<close> when its arguments are good.\<close>

definition server_args :: "string list \<Rightarrow> int \<Rightarrow> bool" where
  "server_args argv n \<longleftrightarrow> 3 \<le> length argv \<and> isOptimized argv = 1 \<and> atoi (argv ! 2) = n \<and> 0 < n"

lemma server_start_shared:
  assumes "server_args argv n" and "\<forall>d. chdir_ok sys d" and "mutex_init_ok sys" and "cond_init_ok sys"
    and "ample (alloc sys)" and "socket_ok sys" and "granted h" and "server_shared n os = (Inr (), os1)"
  shows "server_start sys argv h os =
    (if \<not> bind_ok sys \<or> \<not> listen_ok sys then exiting SOCKET_FAILURE os1
     else (Inr \<lparr>conns = \<lparr>head = None, tail = None, numNodes = 0\<rparr>, gheap = asked h, OPTIMIZED = True,
                  threads = n\<rparr>, os1))"
proof -
  have "initializeGlobals_server sys True n h os =
      (Inr \<lparr>conns = \<lparr>head = None, tail = None, numNodes = 0\<rparr>, gheap = asked h, OPTIMIZED = True, threads = n\<rparr>, os1)"
    using assms by (simp add: initializeGlobals_server_def newConList_def server_args_def ample_grants)
  then show ?thesis
    using assms(1,2) by (auto simp: server_start_def server_args_def root_ok_def)
qed

text \<open>The clean-up frees the list and removes both objects.\<close>

lemma destroyMemList_objects:
  assumes "has_objects n ns m os" and "calls os = []"
  shows "destroyMemList n os = Inr (0, os\<lparr>objs := (objs os)(SEGMENTNAME := None)\<rparr>)"
  using assms by (intro destroyMemList_all) (auto simp: has_objects_def)

lemma destroyMetanode_objects:
  assumes "objs os METANODENAME = Some obj" and "calls os = []"
  shows "destroyMetanode os = (0, os\<lparr>objs := (objs os)(METANODENAME := None)\<rparr>)"
  using memOps_Destroy_present [OF assms] by (simp add: destroyMetanode_def)

lemma cleanUp_server_removes:
  assumes "has_objects n ns m os" and "metaNodes m = n" and "calls os = []" and "OPTIMIZED g"
    and "destroyAll (conns g) (gheap g) = Inr h"
  shows "cleanUpGlobals_server g os =
    (Inr h, os\<lparr>objs := (objs os)(SEGMENTNAME := None, METANODENAME := None)\<rparr>)"
  using assms destroyMemList_objects [OF assms(1,3)] has_objects_meta [OF assms(1)]
    destroyMetanode_objects [of "os\<lparr>objs := (objs os)(SEGMENTNAME := None)\<rparr>" "(sizeof_metanode, Meta m)"]
  by (simp add: cleanUpGlobals_server_def has_objects_def)

lemma delete_shared_removes:
  assumes "has_objects n ns m os" and "metaNodes m = n" and "n \<noteq> 0" and "calls os = []"
  shows "delete_shared os =
    (Inl (Exit_With 1), os\<lparr>objs := (objs os)(SEGMENTNAME := None, METANODENAME := None)\<rparr>)"
  using assms destroyMemList_objects [OF assms(1,4)] has_objects_meta [OF assms(1)]
    destroyMetanode_objects [of "os\<lparr>objs := (objs os)(SEGMENTNAME := None)\<rparr>" "(sizeof_metanode, Meta m)"]
    getMetanode_again [OF _ assms(4)] getMemList_again [OF _ assms(4)]
  by (simp add: delete_shared_def has_objects_def exiting_def)

text \<open>The proxy alone.\<close>

lemma proxy_shared_new:
  assumes "no_objects os" and "calls os = []"
  shows "\<exists>os'. proxy_shared os = (Inr (), os') \<and> calls os' = [] \<and>
    has_objects NUMSEGMENTS (replicate (nat NUMSEGMENTS) zero_node)
      \<lparr>serverFlag = OFFLINE, proxyFlag = ONLINE, metaNodes = NUMSEGMENTS\<rparr> os'"
proof -
  let ?os1 = "os\<lparr>objs := (objs os)(METANODENAME \<mapsto>
      (sizeof_metanode, Meta \<lparr>serverFlag = OFFLINE, proxyFlag = OFFLINE, metaNodes = NUMSEGMENTS\<rparr>))\<rparr>"
  obtain os2 where g: "getMemList NUMSEGMENTS ?os1 = Inr (Some SEGMENTNAME, os2)" "calls os2 = []"
    "objs os2 = (objs ?os1)(SEGMENTNAME \<mapsto>
       (sizeof_memnode * NUMSEGMENTS, Nodes (replicate (nat NUMSEGMENTS) zero_node)))"
    using getMemList_new [of ?os1 NUMSEGMENTS] assms by (auto simp: no_objects_def)
  have "getMetanode os = (Some METANODENAME, os\<lparr>objs := (objs os)(METANODENAME \<mapsto> (sizeof_metanode, Meta zero_meta))\<rparr>)"
    using assms by (intro getMetanode_new) (simp_all add: no_objects_def)
  then show ?thesis
    using g by (simp add: proxy_shared_def set_meta_def the_meta_def zero_meta_def has_objects_def)
qed

text \<open>The server finds what the proxy made: its list keeps the proxy's size.\<close>

lemma server_shared_attached:
  assumes "has_objects k ns m os" and "calls os = []"
  shows "\<exists>os'. server_shared n os = (Inr (), os') \<and> calls os' = [] \<and>
    has_objects k ns (m\<lparr>serverFlag := ONLINE, metaNodes := n\<rparr>) os'"
  using assms getMemList_again [OF _ assms(2)] getMetanode_again [OF _ assms(2)]
  by (simp add: server_shared_def server_meta_def set_meta_def the_meta_def has_objects_def)

lemma findState_beyond:
  assumes "\<forall>j < length ns. proxyState (ns ! j) \<noteq> s" and "int (length ns) < len"
  shows "findState ns len s = Inl Over_Read"
proof -
  have "findState_loop ns len s i = Inl Over_Read" if "i \<le> length ns" for i
    using that assms
  proof (induction "length ns - i" arbitrary: i)
    case 0
    then show ?case
      by (subst findState_loop.simps) (simp add: rd_def)
  next
    case (Suc k)
    then have "findState_loop ns len s (Suc i) = Inl Over_Read"
      by simp
    then show ?case
      using Suc.prems Suc.hyps(2) by (subst findState_loop.simps) simp
  qed
  then show ?thesis
    by (simp add: findState_def)
qed

section \<open>Properties\<close>

text \<open>The objects a server finds, and a machine on which nothing fails.\<close>

definition fresh_shm :: shm where
  "fresh_shm = \<lparr>objs = Map.empty, calls = []\<rparr>"

definition fresh_heap :: cheap where
  "fresh_heap = \<lparr>cells = Map.empty, brk = 0, grants = []\<rparr>"

definition good_system :: system where
  "good_system = \<lparr>chdir_ok = \<lambda>d. True, mutex_init_ok = True, cond_init_ok = True, alloc = \<lambda>n. 0 \<le> n,
     socket_ok = True, bind_ok = True, listen_ok = True\<rparr>"

lemma good_system_well: "all_well good_system"
  by (simp add: all_well_def good_system_def ample_def)

lemma fresh_shm_none: "no_objects fresh_shm" "calls fresh_shm = []"
  by (simp_all add: no_objects_def fresh_shm_def)

definition sample_argv :: "string list" where
  "sample_argv = [''./server'', ''8080'', ''12'', ''-o'']"

lemma sample_argv_args: "server_args sample_argv 12"
proof -
  have "fmt_d 12 = ''12''"
    by (simp add: fmt_d_def dec_nat.simps digit_char_def)
  then have "atoi ''12'' = 12"
    using atoi_fmt_d [of 12 "[]"] by (simp add: in_int_def)
  then show ?thesis
    by (simp add: server_args_def sample_argv_def isOptimized_def is_dash_o_def)
qed

lemma server_start_well:
  assumes "server_args argv n" and "all_well sys" and "granted h" and "server_shared n os = (Inr (), os1)"
  shows "server_start sys argv h os = (Inr \<lparr>conns = \<lparr>head = None, tail = None, numNodes = 0\<rparr>,
     gheap = asked h, OPTIMIZED = True, threads = n\<rparr>, os1)"
  using server_start_shared [OF assms(1) _ _ _ _ _ assms(3,4)] assms(2) by (simp add: all_well_def)

text \<open>
  C21: an optimised server that starts on a machine without its shared objects creates a list of one
  idle node for each worker and a metanode that says so and that the server is online; whatever
  states and data the nodes hold when it ends, and whatever connections are still on its list, its
  clean-up frees the list and removes both objects.
\<close>

theorem server_start_stop:
  assumes "server_args argv n" and "all_well sys" and "granted h" and "no_objects os" and "calls os = []"
    and "metaNodes m = n" and "has_objects n ns m os2" and "calls os2 = []" and "linked l h2"
  shows "\<exists>g os1. server_start sys argv h os = (Inr g, os1) \<and> OPTIMIZED g \<and>
      has_objects n (replicate (nat n) zero_node) \<lparr>serverFlag = ONLINE, proxyFlag = OFFLINE, metaNodes = n\<rparr> os1 \<and>
      (\<exists>h3. cleanUpGlobals_server (g\<lparr>conns := l, gheap := h2\<rparr>) os2 =
         (Inr h3, os2\<lparr>objs := (objs os2)(SEGMENTNAME := None, METANODENAME := None)\<rparr>))"
proof -
  obtain os1 where s: "server_shared n os = (Inr (), os1)" and
    o1: "has_objects n (replicate (nat n) zero_node) \<lparr>serverFlag = ONLINE, proxyFlag = OFFLINE, metaNodes = n\<rparr> os1"
    using server_shared_new [OF assms(4,5)] by blast
  obtain h3 where "destroyAll l h2 = Inr h3"
    using assms(9) destroyAll_rep by (metis linkedE)
  then show ?thesis
    using server_start_well [OF assms(1-3) s] o1 cleanUp_server_removes [OF assms(7,6,8)] by simp
qed

text \<open>What a running server with 12 workers has in shared memory.\<close>

definition server_12 :: metanode where
  "server_12 = \<lparr>serverFlag = ONLINE, proxyFlag = OFFLINE, metaNodes = 12\<rparr>"

definition shm_12 :: shm where
  "shm_12 = \<lparr>objs = [SEGMENTNAME \<mapsto> (sizeof_memnode * 12, Nodes (replicate 12 zero_node)),
     METANODENAME \<mapsto> (sizeof_metanode, Meta server_12)], calls = []\<rparr>"

lemma shm_12_has: "has_objects 12 (replicate 12 zero_node) server_12 shm_12" "calls shm_12 = []"
  "metaNodes server_12 = 12"
  by (simp_all add: has_objects_def shm_12_def server_12_def)

lemma shm_12_removed: "shm_12\<lparr>objs := (objs shm_12)(SEGMENTNAME := None, METANODENAME := None)\<rparr> = fresh_shm"
  by (simp add: shm_12_def fresh_shm_def fun_eq_iff)

lemma fresh_heap_granted: "granted fresh_heap"
  by (simp add: granted_def fresh_heap_def)

lemma no_conns_linked: "linked \<lparr>head = None, tail = None, numNodes = 0\<rparr> fresh_heap"
  by (simp add: linked_def walk.simps fresh_heap_def)

theorem server_start_stop_witness:
  "\<exists>g os1 h3. server_start good_system sample_argv fresh_heap fresh_shm = (Inr g, os1) \<and>
     mapped_nodes os1 = replicate 12 zero_node \<and>
     cleanUpGlobals_server (g\<lparr>conns := \<lparr>head = None, tail = None, numNodes = 0\<rparr>, gheap := fresh_heap\<rparr>) shm_12 =
       (Inr h3, fresh_shm)"
  using server_start_stop [OF sample_argv_args good_system_well fresh_heap_granted fresh_shm_none
      shm_12_has(3) shm_12_has(1,2) no_conns_linked]
  unfolding shm_12_removed by (auto dest: has_objects_nodes)

text \<open>
  A server whose port is taken (\<open>bind\<close> or \<open>listen\<close> fails) exits, but its shared objects stay
  behind, and with them the flag that says it is online: a proxy that starts then believes it has an
  optimised server, and \<open>server DELETE\<close> is what removes them.
\<close>

theorem server_bind_failure_leaves:
  assumes "server_args argv n" and "all_well sys" and "granted h" and "no_objects os" and "calls os = []"
  shows "\<exists>os1 m. server_start (sys\<lparr>bind_ok := False\<rparr>) argv h os = (Inl (Exit_With SOCKET_FAILURE), os1) \<and>
      the_meta os1 = Inr m \<and> serverFlag m = ONLINE \<and>
      (\<exists>os2 m2. proxy_shared os1 = (Inr (), os2) \<and> the_meta os2 = Inr m2 \<and> serverFlag m2 = ONLINE) \<and>
      server_start sys [''server'', ''DELETE''] h os1 =
        (Inl (Exit_With 1), os1\<lparr>objs := (objs os1)(SEGMENTNAME := None, METANODENAME := None)\<rparr>)"
proof -
  let ?m = "\<lparr>serverFlag = ONLINE, proxyFlag = OFFLINE, metaNodes = n\<rparr>"
  obtain os1 where s: "server_shared n os = (Inr (), os1)" "calls os1 = []"
    and o1: "has_objects n (replicate (nat n) zero_node) ?m os1"
    using server_shared_new [OF assms(4,5)] by blast
  have start: "server_start (sys\<lparr>bind_ok := False\<rparr>) argv h os = (Inl (Exit_With SOCKET_FAILURE), os1)"
    using server_start_shared [OF assms(1) _ _ _ _ _ assms(3) s(1), of "sys\<lparr>bind_ok := False\<rparr>"] assms(2)
    by (simp add: all_well_def exiting_def)
  have "\<exists>os2 m2. proxy_shared os1 = (Inr (), os2) \<and> the_meta os2 = Inr m2 \<and> serverFlag m2 = ONLINE"
    using o1 getMetanode_again [OF _ s(2)] getMemList_again [OF _ s(2)]
    by (simp add: proxy_shared_def set_meta_def the_meta_def has_objects_def)
  moreover have "server_start sys [''server'', ''DELETE''] h os1 = delete_shared os1"
    by (simp add: server_start_def)
  moreover have "n \<noteq> 0"
    using assms(1) by (simp add: server_args_def)
  ultimately show ?thesis
    using start has_objects_meta [OF o1] delete_shared_removes [OF o1 _ _ s(2)] by auto
qed

theorem server_bind_failure_leaves_witness:
  "\<exists>os1. server_start (good_system\<lparr>bind_ok := False\<rparr>) sample_argv fresh_heap fresh_shm =
     (Inl (Exit_With SOCKET_FAILURE), os1) \<and> map_sum id serverFlag (the_meta os1) = Inr ONLINE"
  using server_bind_failure_leaves [OF sample_argv_args good_system_well fresh_heap_granted fresh_shm_none] by auto

text \<open>
  The fallback to the default number of nodes does not work when it was \<open>ftruncate\<close> that failed:
  the empty object that the failed attempt left is taken for an initialised list, the server
  starts, and its first search of the list reads outside the mapping.
\<close>

theorem server_fallback_unusable:
  assumes "server_args argv n" and "all_well sys" and "granted h" and "no_objects os" and "calls os = [True, False]"
  shows "\<exists>g os1. server_start sys argv h os = (Inr g, os1) \<and> map_sum id metaNodes (the_meta os1) = Inr NUMSEGMENTS \<and>
      findState (mapped_nodes os1) NUMSEGMENTS WAITING_INIT_SRVR = Inl Over_Read"
proof -
  let ?ns = "Nodes (replicate (nat n) zero_node)"
  let ?os1 = "\<lparr>objs = (objs os)(SEGMENTNAME \<mapsto> (0, ?ns)), calls = []\<rparr>"
  let ?os2 = "?os1\<lparr>objs := (objs ?os1)(METANODENAME \<mapsto> (sizeof_metanode,
      Meta \<lparr>serverFlag = ONLINE, proxyFlag = OFFLINE, metaNodes = NUMSEGMENTS\<rparr>))\<rparr>"
  have none: "objs os SEGMENTNAME = None" "objs os METANODENAME = None"
    using assms(4) by (simp_all add: no_objects_def)
  have "getMemList n os = Inr (None, ?os1)"
    using none assms(5) by (simp add: getMemList_def memOps_defs)
  moreover have "getMemList NUMSEGMENTS ?os1 = Inr (Some SEGMENTNAME, ?os1)"
    by (rule getMemList_again) auto
  moreover have "server_meta NUMSEGMENTS ?os1 = (Inr (), ?os2)"
    using none getMetanode_new [of ?os1] by (simp add: server_meta_def set_meta_def the_meta_def zero_meta_def)
  ultimately have "server_shared n os = (Inr (), ?os2)"
    by (simp add: server_shared_def)
  moreover have "mapped_nodes ?os2 = []"
    by (simp add: mapped_nodes_def)
  then have "findState (mapped_nodes ?os2) NUMSEGMENTS WAITING_INIT_SRVR = Inl Over_Read"
    using findState_beyond [of "[]"] by (simp add: NUMSEGMENTS_def)
  ultimately show ?thesis
    using server_start_well [OF assms(1,2,3)] by (simp add: the_meta_def)
qed

theorem server_fallback_unusable_witness:
  "\<exists>g os1. server_start good_system sample_argv fresh_heap (fresh_shm\<lparr>calls := [True, False]\<rparr>) = (Inr g, os1) \<and>
     findState (mapped_nodes os1) NUMSEGMENTS WAITING_INIT_SRVR = Inl Over_Read"
  using server_fallback_unusable [OF sample_argv_args good_system_well fresh_heap_granted,
      of "fresh_shm\<lparr>calls := [True, False]\<rparr>"] fresh_shm_none
  by (auto simp: no_objects_def)

text \<open>
  The server in front of which a proxy has already run attaches to the proxy's list and announces
  its own number of nodes: with as many workers as the proxy made nodes, or fewer, every search
  stays inside the mapping; with more, the first poll, when no request waits, reads past its end.
\<close>

theorem server_after_proxy:
  assumes "server_args argv n" and "all_well sys" and "granted h" and "no_objects os" and "calls os = []"
  shows "\<exists>os1 g os2. proxy_shared os = (Inr (), os1) \<and> server_start sys argv h os1 = (Inr g, os2) \<and>
      map_sum id metaNodes (the_meta os2) = Inr n \<and>
      findState (mapped_nodes os2) n WAITING_INIT_SRVR = (if n \<le> NUMSEGMENTS then Inr None else Inl Over_Read)"
proof -
  let ?ns = "replicate (nat NUMSEGMENTS) zero_node"
  obtain os1 m where p: "proxy_shared os = (Inr (), os1)" "calls os1 = []" "has_objects NUMSEGMENTS ?ns m os1"
    using proxy_shared_new [OF assms(4,5)] by blast
  obtain os2 where s: "server_shared n os1 = (Inr (), os2)"
    "has_objects NUMSEGMENTS ?ns (m\<lparr>serverFlag := ONLINE, metaNodes := n\<rparr>) os2"
    using server_shared_attached [OF p(3,2)] by blast
  have idle: "\<forall>j < length ?ns. proxyState (?ns ! j) \<noteq> WAITING_INIT_SRVR"
    by (simp add: zero_node_def)
  have "findState ?ns n WAITING_INIT_SRVR = (if n \<le> NUMSEGMENTS then Inr None else Inl Over_Read)"
  proof (cases "n \<le> NUMSEGMENTS")
    case True
    then show ?thesis
      by (simp add: findState_None NUMSEGMENTS_def zero_node_def)
  next
    case False
    then show ?thesis
      using findState_beyond [OF idle, of n] by (simp add: NUMSEGMENTS_def)
  qed
  then show ?thesis
    using p(1) server_start_well [OF assms(1,2,3) s(1)] has_objects_nodes [OF s(2)] has_objects_meta [OF s(2)]
    by simp
qed

theorem server_after_proxy_witness:
  "\<exists>os1 g os2. proxy_shared fresh_shm = (Inr (), os1) \<and> server_start good_system sample_argv fresh_heap os1 = (Inr g, os2) \<and>
     findState (mapped_nodes os2) 12 WAITING_INIT_SRVR = Inl Over_Read"
  using server_after_proxy [OF sample_argv_args good_system_well fresh_heap_granted fresh_shm_none]
  by (auto simp: NUMSEGMENTS_def)

text \<open>
  A proxy told to compress with fewer arguments than the usage asks for reads behind the end of
  \<open>argv\<close> or follows the null pointer there: with \<open>-c\<close> among at most four more words and no port after
  the name, no check of \<open>argc\<close> comes first.
\<close>

theorem proxy_compression_unchecked:
  assumes "''-c'' \<in> set argv" and "3 \<le> length argv" and "length argv < 6"
    and "length argv = 5 \<Longrightarrow> strstr (argv ! 4) ''http://'' = None"
  shows "proxy_start sys argv h os = (Inl (if length argv = 3 then Over_Read else Null_Deref), os)"
proof -
  have "isCompressed_loop args = (if ''-c'' \<in> set args then 1 else 0)" for args
    by (induction args) auto
  then have "isCompressed argv = 1"
    using assms(1) by (simp add: isCompressed_def)
  then have "compression_args argv = Inl (if length argv = 3 then Over_Read else Null_Deref)"
    using assms(2-4) by (auto simp: compression_args_def)
  then show ?thesis
    using assms(2,3) by (simp add: proxy_start_def)
qed

theorem proxy_compression_unchecked_witness:
  "proxy_start good_system [''./proxy'', ''8081'', ''4'', ''-c''] fresh_heap fresh_shm = (Inl Null_Deref, fresh_shm)"
  using proxy_compression_unchecked [of "[''./proxy'', ''8081'', ''4'', ''-c'']"] by simp

text \<open>
  A proxy that runs alone gives back what it took: it creates the default number of nodes and
  the metanode, and its clean-up removes both when no server came; while a server is online the
  clean-up leaves the objects to the server.
\<close>

theorem proxy_start_stop:
  assumes "no_objects os" and "calls os = []" and "linked l h" and "OPTIMIZED g" and "conns g = l" and "gheap g = h"
    and "has_objects n ns m os2" and "metaNodes m = n" and "calls os2 = []"
  shows "(\<exists>os1. proxy_shared os = (Inr (), os1) \<and> mapped_nodes os1 = replicate (nat NUMSEGMENTS) zero_node \<and>
        map_sum id proxyFlag (the_meta os1) = Inr ONLINE) \<and>
      (\<exists>h'. cleanUpGlobals_proxy g os2 =
         (Inr h', if serverFlag m = OFFLINE then os2\<lparr>objs := (objs os2)(SEGMENTNAME := None, METANODENAME := None)\<rparr>
                  else os2))"
proof -
  obtain h' where d: "destroyAll l h = Inr h'"
    using assms(3) destroyAll_rep by (metis linkedE)
  have "cleanUpGlobals_proxy g os2 =
      (Inr h', if serverFlag m = OFFLINE then os2\<lparr>objs := (objs os2)(SEGMENTNAME := None, METANODENAME := None)\<rparr>
               else os2)"
    using assms(4-9) d destroyMemList_objects [OF assms(7,9)] has_objects_meta [OF assms(7)]
      destroyMetanode_objects [of "os2\<lparr>objs := (objs os2)(SEGMENTNAME := None)\<rparr>" "(sizeof_metanode, Meta m)"]
    by (simp add: cleanUpGlobals_proxy_def has_objects_def)
  moreover obtain os1 where "proxy_shared os = (Inr (), os1)"
    "has_objects NUMSEGMENTS (replicate (nat NUMSEGMENTS) zero_node)
       \<lparr>serverFlag = OFFLINE, proxyFlag = ONLINE, metaNodes = NUMSEGMENTS\<rparr> os1"
    using proxy_shared_new [OF assms(1,2)] by blast
  ultimately show ?thesis
    by (auto dest: has_objects_nodes has_objects_meta)
qed

theorem proxy_start_stop_witness:
  "\<exists>os1 h'. proxy_shared fresh_shm = (Inr (), os1) \<and> mapped_nodes os1 = replicate (nat NUMSEGMENTS) zero_node \<and>
     cleanUpGlobals_proxy \<lparr>conns = \<lparr>head = None, tail = None, numNodes = 0\<rparr>, gheap = fresh_heap, OPTIMIZED = True,
       threads = 4\<rparr> shm_12 = (Inr h', shm_12)"
  using proxy_start_stop [OF fresh_shm_none no_conns_linked _ _ _ shm_12_has(1,3,2), of
      "\<lparr>conns = \<lparr>head = None, tail = None, numNodes = 0\<rparr>, gheap = fresh_heap, OPTIMIZED = True, threads = 4\<rparr>"]
  by (auto simp: server_12_def)

end
