(* ===== verification/Crew.thy ===== *)
theory Crew
  imports Exchange
begin

text \<open>
  The exchange over shared memory with any number of workers: one of them takes the job, and the
  others never do anything. A world with that crew is the world of one worker of Exchange.thy up to
  the number of the thread, so that its phases and its measure serve for both.
\<close>

section \<open>A thread by another number\<close>

definition swapped :: "nat \<Rightarrow> nat \<Rightarrow> nat" where
  "swapped j t = (if t = W then wid j else if t = wid j then W else t)"

definition renamed :: "nat \<Rightarrow> memnode \<Rightarrow> memnode" where
  "renamed j n = n\<lparr>mutex := map_option (swapped j) (mutex n), condition := map (swapped j) (condition n)\<rparr>"

lemma swapped_inj: "swapped j t = swapped j u \<longleftrightarrow> t = u"
  by (simp add: swapped_def)

lemma swapped_own [simp]: "swapped j P = P" "swapped j W = wid j"
  by (simp_all add: swapped_def wid_def)

lemma swapped_first [simp]: "swapped 0 = id"
  by (simp add: swapped_def wid_def fun_eq_iff)

lemma renamed_first [simp]: "renamed 0 n = n"
  by (simp add: renamed_def option.map_id list.map_id)

lemma renamed_simps [simp]:
  "mem (renamed j n) = mem n" "spaceUsed (renamed j n) = spaceUsed n"
  "proxyState (renamed j n) = proxyState n" "serverState (renamed j n) = serverState n"
  "renamed j n\<lparr>mem := m\<rparr> = renamed j (n\<lparr>mem := m\<rparr>)" "renamed j n\<lparr>spaceUsed := k\<rparr> = renamed j (n\<lparr>spaceUsed := k\<rparr>)"
  "renamed j n\<lparr>proxyState := ps\<rparr> = renamed j (n\<lparr>proxyState := ps\<rparr>)"
  "renamed j n\<lparr>serverState := ss\<rparr> = renamed j (n\<lparr>serverState := ss\<rparr>)"
  by (simp_all add: renamed_def)

lemma renamed_ops [simp]:
  "locked (swapped j t) (renamed j n) = map_option (renamed j) (locked t n)"
  "woken (swapped j t) (renamed j n) = map_option (renamed j) (woken t n)"
  "unlocked (renamed j n) = renamed j (unlocked n)" "signalled (renamed j n) = renamed j (signalled n)"
  "waiting (swapped j t) (renamed j n) = renamed j (waiting t n)"
  by (simp_all add: renamed_def node_ops map_tl image_iff swapped_inj)

definition renamed_step :: "nat \<Rightarrow> ('a \<times> memnode) result option \<Rightarrow> ('a \<times> memnode) result option" where
  "renamed_step j r = map_option (map_sum id (map_prod id (renamed j))) r"

lemma renamed_step_simps [simp]:
  "renamed_step j None = None" "renamed_step j (Some (Inl e)) = Some (Inl e)"
  "renamed_step j (Some (Inr (x, n))) = Some (Inr (x, renamed j n))"
  by (simp_all add: renamed_step_def)

lemma renamed_moves [simp]:
  "renamed_step j (pmove p pc n) = pmove p pc (renamed j n)" "renamed_step j (wmove s wc n) = wmove s wc (renamed j n)"
  by (simp_all add: pmove_def wmove_def)

lemma renamed_sending [simp]:
  "sendShared_start al h b (renamed j n) = sendShared_start al h b n" "receiveShared al (renamed j n) = receiveShared al n"
  by (simp_all add: sendShared_start_def receiveShared_def)

lemma renamed_set [simp]: "set_theState b st (renamed j n) = renamed j (set_theState b st n)"
  by (simp add: set_theState_def)

lemma renamed_mapping: "setMapping (renamed j n) d k = map_sum id (map_prod id (renamed j)) (setMapping n d k)"
  by (simp add: setMapping_def Let_def)

lemma renamed_turn:
  "sendShared_turn s (renamed j n) = map_sum id (map_prod id (map_prod id (renamed j))) (sendShared_turn s n)"
  by (cases "setMapping (set_theState (isServer s) BUSY n) (drop (nat (totalBytes s)) (msg s))
      (if int SEGMENTSIZE < int (length (msg s)) - totalBytes s then int SEGMENTSIZE else int (length (msg s)) - totalBytes s)")
    (auto simp: sendShared_turn_def Let_def renamed_mapping)

lemma proxy_renamed: "proxy_step al (swapped j t) p (renamed j n) = renamed_step j (proxy_step al t p n)"
  by (cases "ppc p") (auto simp: proxy_step.simps renamed_turn Let_def split: option.split sum.split prod.split turn.split)

lemma worker_renamed: "worker_step al reply (swapped j t) s (renamed j n) = renamed_step j (worker_step al reply t s n)"
  by (cases "wpc s") (auto simp: worker_step.simps renamed_turn Let_def split: option.split sum.split prod.split turn.split)

section \<open>The crew\<close>

text \<open>The world of one worker, with the workers \<open>ws\<close> in the place of the one, who is the \<open>j\<close>-th of them.\<close>

definition crew :: "wthread list \<Rightarrow> nat \<Rightarrow> world \<Rightarrow> world" where
  "crew ws j w = w\<lparr>nodes := (nodes w)[0 := renamed j (nodes w ! 0)], workers := ws[j := workers w ! 0]\<rparr>"

definition crewed :: "wthread list \<Rightarrow> nat \<Rightarrow> world result option \<Rightarrow> world result option" where
  "crewed ws j r = map_option (map_sum id (crew ws j)) r"

lemma crew_one:
  "crew ws j (one n rest p s t) = \<lparr>nodes = renamed j n # rest, numNodes' = 1 + int (length rest), proxies = [p],
     workers = ws[j := s], tokens = t\<rparr>"
  by (simp add: crew_def one_def)

lemma findState_renamed:
  "findState (renamed j n # rest) (1 + int (length rest)) st = findState (n # rest) (1 + int (length rest)) st"
proof -
  have "(\<lambda>i. proxyState ((renamed j n # rest) ! i) = st) = (\<lambda>i. proxyState ((n # rest) ! i) = st)"
    by (auto simp: fun_eq_iff nth_Cons split: nat.split)
  then show ?thesis
    by (simp add: findState_find)
qed

lemma crew_proxy:
  assumes "phase hdr R A out n p s t"
  shows "act al reply (Proxy i) (crew ws j (one n rest p s t)) = crewed ws j (act al reply (Proxy i) (one n rest p s t))"
proof (cases "i = 0 \<and> ppc p \<noteq> P_Find")
  case True
  then have "pnode p = 0"
    using assms by (simp add: phase_def)
  then show ?thesis
    using True proxy_renamed [of al j P p n]
    by (cases "proxy_step al P p n") (auto simp: pstep_def one_def crew_def crewed_def pid_def renamed_step_def map_sum_def Let_def split: sum.split)
next
  case False
  then have "i = 0 \<Longrightarrow> proxyState n = IDLE"
    using assms by (simp add: phase_def)
  then show ?thesis
    using False findState_one [of n rest] findState_renamed [of j n rest]
    by (cases "i = 0") (auto simp: pstep_def one_def crew_def crewed_def Let_def)
qed

lemma crew_main: "act al reply Main (crew ws j (one n rest p s t)) = crewed ws j (act al reply Main (one n rest p s t))"
  by (cases "findState (n # rest) (1 + int (length rest)) WAITING_INIT_SRVR")
    (auto simp: mstep_def one_def crew_def crewed_def findState_renamed nth_Cons list_update_append split: option.split nat.split)

text \<open>The worker with the job.\<close>

lemma crew_worker:
  assumes "phase hdr R A out n p s t" and "j < length ws"
  shows "act al reply (Worker j) (crew ws j (one n rest p s t)) = crewed ws j (act al reply (Worker 0) (one n rest p s t))"
proof (cases "wpc s = W_Idle \<or> wpc s = W_Pick")
  case False
  then have "wnode s = 0"
    using assms by (simp add: phase_def)
  moreover have "worker_step al reply (wid j) s (renamed j n) = renamed_step j (worker_step al reply (wid 0) s n)"
    using worker_renamed [of al reply j W s n] unfolding swapped_own by (simp add: wid_def)
  ultimately show ?thesis
    using False assms(2)
    by (cases "worker_step al reply (wid 0) s n")
      (auto simp: wstep_def one_def crew_def crewed_def renamed_step_def map_sum_def Let_def split: sum.split)
next
  case True
  moreover have "findState (n # rest) (1 + int (length rest)) WAITING_INIT_SRVR = Inr (Some 0)" if "wpc s = W_Pick"
    using assms(1) that findState_one [of n rest] by (cases "ppc p") (auto simp: phase_defs)
  ultimately show ?thesis
    using assms(2) findState_renamed [of j n rest]
    by (cases t) (auto simp: wstep_def one_def crew_def crewed_def Let_def)
qed

text \<open>While nobody has a job, any worker can be the one.\<close>

lemma crew_switch:
  assumes "phase hdr R A out n p s t" and "wpc s = W_Idle" and "\<not> is_ended (ppc p)" and "j < length ws" and "i \<noteq> j"
  shows "crew ws j (one n rest p s t) = crew (ws[j := s]) i (one n rest p (ws ! i) t)"
proof -
  have own: "mutex n = None \<or> mutex n = Some P" "set (condition n) \<subseteq> {P}"
    using assms(1-3) by (cases "ppc p"; auto simp: phase_def is_ended_def)+
  have "map (swapped k) (condition n) = condition n" for k
    using own(2) by (intro map_idI) auto
  then have "renamed k n = n" for k
    using own(1) by (auto simp: renamed_def)
  moreover have "ws[j := s, i := ws ! i] = ws[j := s]"
    using assms(5) list_update_id [of "ws[j := s]" i] by simp
  ultimately show ?thesis
    by (simp add: crew_one)
qed


section \<open>What holds of every run\<close>

text \<open>A crew of \<open>m\<close> workers at a request, with \<open>k\<close> the measure of what is left to do.\<close>

definition manned :: "nat \<Rightarrow> buffer \<Rightarrow> buffer \<Rightarrow> buffer \<Rightarrow> string \<Rightarrow> memnode list \<Rightarrow> nat \<Rightarrow> world \<Rightarrow> bool" where
  "manned m hdr R A out rest k v \<longleftrightarrow>
     (\<exists>ws j n p s t. length ws = m \<and> j < m \<and> (\<forall>x \<in> set ws. wpc x = W_Idle) \<and> v = crew ws j (one n rest p s t) \<and>
        phase hdr R A out n p s t \<and> rank A n p s t = k)"

lemma tokens_all_idle:
  assumes "phase hdr R A out n p s t" and "0 < t"
  shows "wpc s = W_Idle" "\<not> is_ended (ppc p)"
  using assms by (cases "ppc p"; cases "wpc s"; auto simp: phase_def is_ended_def)+

text \<open>Whoever moves in the crew, one of them moves alone.\<close>

lemma crew_act:
  assumes "phase hdr R A out n p s t" and "length ws = m" and "j < m" and "\<forall>x \<in> set ws. wpc x = W_Idle"
    and "act al reply a (crew ws j (one n rest p s t)) = Some r"
  shows "\<exists>ws' i s' b r'. length ws' = m \<and> i < m \<and> (\<forall>x \<in> set ws'. wpc x = W_Idle) \<and> phase hdr R A out n p s' t \<and>
    rank A n p s' t = rank A n p s t \<and> act al reply b (one n rest p s' t) = Some r' \<and> r = map_sum id (crew ws' i) r'"
proof -
  have same: ?thesis if eq: "act al reply a (crew ws j (one n rest p s t)) = crewed ws j (act al reply b (one n rest p s t))" for b
  proof -
    obtain r' where "act al reply b (one n rest p s t) = Some r'" "r = map_sum id (crew ws j) r'"
      using assms(5) eq by (auto simp: crewed_def)
    then show ?thesis
      using assms(1-4) by blast
  qed
  have jl: "j < length ws"
    using assms(2,3) by simp
  show ?thesis
  proof (cases a)
    case (Worker i)
    show ?thesis
    proof (cases "i = j")
      case True
      then show ?thesis
        using same [of "Worker 0"] crew_worker [OF assms(1) jl] Worker by simp
    next
      case False
      have "i < m"
        using assms(2,5) Worker by (auto simp: crew_one wstep_def Let_def split: if_splits)
      then have idle: "wpc (ws ! i) = W_Idle"
        using assms(2,4) by simp
      then have "0 < t"
        using assms(5) Worker False by (cases t) (simp_all add: crew_one wstep_def Let_def split: if_splits)
      note over = tokens_all_idle [OF assms(1) this]
      have "act al reply a (crew ws j (one n rest p s t)) =
          crewed (ws[j := s]) i (act al reply (Worker 0) (one n rest p (ws ! i) t))"
        using crew_switch [OF assms(1) over jl False] crew_worker [OF phase_idle(1) [OF assms(1) over idle], of i "ws[j := s]"]
          \<open>i < m\<close> assms(2) Worker by simp
      then obtain r' where "act al reply (Worker 0) (one n rest p (ws ! i) t) = Some r'" "r = map_sum id (crew (ws[j := s]) i) r'"
        using assms(5) by (cases "act al reply (Worker 0) (one n rest p (ws ! i) t)") (simp_all add: crewed_def)
      moreover have "\<forall>x \<in> set (ws[j := s]). wpc x = W_Idle"
        using assms(4) over(1) set_update_subset_insert [of ws j s] by auto
      ultimately show ?thesis
        using phase_idle [OF assms(1) over idle] \<open>i < m\<close> assms(2) length_list_update [of ws j s] by blast
    qed
  next
    case (Proxy i)
    then show ?thesis
      using same [of a] crew_proxy [OF assms(1)] by simp
  next
    case Main
    then show ?thesis
      using same [of a] crew_main by simp
  qed
qed

lemma manned_keeps:
  assumes "manned m hdr R A out rest k v" and "exchange al reply hdr R A" and "idle_rest rest"
    and "act al reply a v = Some r"
  shows "\<exists>v' l. r = Inr v' \<and> manned m hdr R A out rest l v' \<and> l < k"
proof -
  obtain ws j n p s t where c: "length ws = m" "j < m" "\<forall>x \<in> set ws. wpc x = W_Idle" "v = crew ws j (one n rest p s t)"
    "phase hdr R A out n p s t" "rank A n p s t = k"
    using assms(1) by (auto simp: manned_def)
  obtain ws' i s' b r' where b: "length ws' = m" "i < m" "\<forall>x \<in> set ws'. wpc x = W_Idle" "phase hdr R A out n p s' t"
    "rank A n p s' t = k" "act al reply b (one n rest p s' t) = Some r'" "r = map_sum id (crew ws' i) r'"
    using crew_act [OF c(5,1,2,3)] assms(4) c(4,6) by blast
  have "good hdr R A out rest (one n rest p s' t)" "wrank A (one n rest p s' t) = k"
    using b(4,5) by (auto simp: good_def wrank_def one_def)
  then obtain w where w: "r' = Inr w" "good hdr R A out rest w" "wrank A w < k"
    using act_keeps [OF _ assms(2,3), of out "one n rest p s' t" b] b(6) by (cases r') (auto simp: keeps_def)
  then obtain n1 p1 s1 t1 where w1: "w = one n1 rest p1 s1 t1" "phase hdr R A out n1 p1 s1 t1"
    by (auto simp: good_def)
  then have "rank A n1 p1 s1 t1 < k"
    using w(3) by (simp add: wrank_def one_def)
  then show ?thesis
    using b w(1) w1 unfolding manned_def by fastforce
qed

lemma manned_reach:
  assumes "exchange al reply hdr R A" and "idle_rest rest" and "manned m hdr R A out rest k v" and "(step al reply)\<^sup>*\<^sup>* v v'"
  shows "\<exists>l. manned m hdr R A out rest l v'"
  using assms(4)
proof (induction rule: rtranclp_induct)
  case (step u w)
  then show ?case
    using manned_keeps [OF _ assms(1,2)] by (fastforce elim: stepE)
qed (use assms(3) in blast)

lemma manned_done:
  assumes "manned m hdr R A out rest k v" and "ppc (proxies v ! 0) = P_Done"
  shows "tx (client (proxies v ! 0)) = out @ A \<and> (\<exists>j < m. line (workers v ! j) = R) \<and> proxyState (nodes v ! 0) = IDLE"
  using assms by (fastforce simp: manned_def crew_one phase_defs)

text \<open>Until the proxy is done, somebody can move; while a job waits for a worker, all are idle.\<close>

lemma manned_progress:
  assumes "manned m hdr R A out rest k v" and "exchange al reply hdr R A" and "idle_rest rest"
  shows "ppc (proxies v ! 0) = P_Done \<and> list_all (\<lambda>s. wpc s = W_Idle) (workers v) \<or> (\<exists>a v'. act al reply a v = Some (Inr v'))"
proof -
  obtain ws j n p s t where c: "length ws = m" "j < m" "\<forall>x \<in> set ws. wpc x = W_Idle" "v = crew ws j (one n rest p s t)"
    "phase hdr R A out n p s t"
    using assms(1) by (auto simp: manned_def)
  then have jl: "j < length ws"
    by simp
  consider (ended) "ppc p = P_Done \<and> wpc s = W_Idle" | (go) b where "act al reply b (one n rest p s t) \<noteq> None"
    using phase_progress [OF c(5) assms(3)] by blast
  then show ?thesis
  proof cases
    case ended
    then show ?thesis
      using c(3,4) set_update_subset_insert [of ws j s] by (auto simp: crew_one list_all_iff)
  next
    case go
    have "\<exists>a. act al reply a v = crewed ws j (act al reply b (one n rest p s t))"
    proof (cases b)
      case (Worker i)
      then have "i = 0"
        using go by (cases i) (simp_all add: wstep_def one_def Let_def)
      then show ?thesis
        using crew_worker [OF c(5) jl] Worker c(4) by blast
    qed (use crew_proxy [OF c(5)] crew_main c(4) in blast)+
    then obtain a r where "act al reply a v = Some r"
      using go by (auto simp: crewed_def)
    then show ?thesis
      using manned_keeps [OF assms] by blast
  qed
qed

lemma manned_tokens:
  assumes "manned m hdr R A out rest k v" and "0 < tokens v" and "s \<in> set (workers v)"
  shows "wpc s = W_Idle"
proof -
  obtain ws j n p u t where c: "\<forall>x \<in> set ws. wpc x = W_Idle" "v = crew ws j (one n rest p u t)" "phase hdr R A out n p u t"
    using assms(1) by (auto simp: manned_def)
  then have "wpc u = W_Idle"
    using tokens_all_idle(1) assms(2) by (simp add: crew_one)
  then show ?thesis
    using assms(3) c set_update_subset_insert [of ws j u] by (auto simp: crew_one)
qed

lemma manned_ends:
  assumes "exchange al reply hdr R A" and "idle_rest rest" and "manned m hdr R A out rest k v"
  shows "\<exists>v' l. (step al reply)\<^sup>*\<^sup>* v v' \<and> manned m hdr R A out rest l v' \<and> ppc (proxies v' ! 0) = P_Done \<and>
    list_all (\<lambda>s. wpc s = W_Idle) (workers v')"
  using assms(3)
proof (induction k arbitrary: v rule: less_induct)
  case (less k)
  show ?case
  proof (cases "ppc (proxies v ! 0) = P_Done \<and> list_all (\<lambda>s. wpc s = W_Idle) (workers v)")
    case False
    then obtain a u where u: "act al reply a v = Some (Inr u)"
      using manned_progress [OF less.prems assms(1,2)] by blast
    then obtain l where l: "manned m hdr R A out rest l u" "l < k"
      using manned_keeps [OF less.prems assms(1,2) u] by auto
    have "step al reply v u"
      using u by (rule step.intros)
    then show ?thesis
      using less.IH [OF l(2,1)] by (meson converse_rtranclp_into_rtranclp)
  qed (use less.prems in blast)
qed

text \<open>The next request, and the first.\<close>

lemma rank_new:
  assumes "phase hdr R A out n p s t" and "ppc p = P_Find"
  shows "rank A n p s t \<le> 20 * length A + 194"
  using assms by (cases "wpc s") (auto simp: phase_defs rank_defs)

lemma manned_next:
  assumes "manned m hdr R A out rest k v" and "ppc (proxies v ! 0) = P_Done" and "txo c = []"
  shows "\<exists>l \<le> 20 * length A' + 194. manned m hdr' R' A' (tx c) rest l (v\<lparr>proxies := [new_proxy hdr' c]\<rparr>)"
proof -
  obtain ws j n p s t where w: "length ws = m" "j < m" "\<forall>x \<in> set ws. wpc x = W_Idle" "v = crew ws j (one n rest p s t)"
    "phase hdr R A out n p s t"
    using assms(1) by (auto simp: manned_def)
  then have ph: "phase hdr' R' A' (tx c) n (new_proxy hdr' c) s t"
    using phase_next assms(2,3) by (simp add: crew_one)
  moreover have "v\<lparr>proxies := [new_proxy hdr' c]\<rparr> = crew ws j (one n rest (new_proxy hdr' c) s t)"
    using w(4) by (simp add: crew_one)
  moreover have "rank A' n (new_proxy hdr' c) s t \<le> 20 * length A' + 194"
    using rank_new [OF ph] by (simp add: new_proxy_def)
  ultimately show ?thesis
    using w(1-3) unfolding manned_def by blast
qed

definition start_exchange :: "nat \<Rightarrow> memnode list \<Rightarrow> pthread \<Rightarrow> world" where
  "start_exchange m rest p = \<lparr>nodes = zero_node # rest, numNodes' = 1 + int (length rest), proxies = [p],
     workers = replicate m new_worker, tokens = 0\<rparr>"

lemma start_manned:
  assumes "0 < m" and "txo c = []"
  shows "\<exists>l \<le> 20 * length A + 194. manned m hdr R A (tx c) rest l (start_exchange m rest (new_proxy hdr c))"
proof -
  have ph: "phase hdr R A (tx c) zero_node (new_proxy hdr c) new_worker 0"
    using assms(2) by (rule phase_start)
  have "(replicate m new_worker)[0 := new_worker] = replicate m new_worker"
    using list_update_id [of "replicate m new_worker" 0] assms(1) by simp
  then have "start_exchange m rest (new_proxy hdr c) =
      crew (replicate m new_worker) 0 (one zero_node rest (new_proxy hdr c) new_worker 0)"
    by (simp add: crew_one start_exchange_def)
  moreover have "rank A zero_node (new_proxy hdr c) new_worker 0 \<le> 20 * length A + 194"
    using rank_new [OF ph] by (simp add: new_proxy_def)
  moreover have "\<forall>x \<in> set (replicate m new_worker). wpc x = W_Idle" "length (replicate m new_worker) = m"
    by (simp_all add: new_worker_def)
  ultimately show ?thesis
    using ph assms(1) unfolding manned_def by blast
qed

text \<open>A single request.\<close>

lemma exchange_manned:
  assumes "exchange al reply hdr R A" and "idle_rest rest" and "txo c = []" and "0 < m"
    and "(step al reply)\<^sup>*\<^sup>* (start_exchange m rest (new_proxy hdr c)) w"
  shows "\<exists>l. manned m hdr R A (tx c) rest l w"
  using start_manned [OF assms(4,3)] manned_reach [OF assms(1,2) _ assms(5)] by blast

lemma exchange_ends:
  assumes "exchange al reply hdr R A" and "idle_rest rest" and "txo c = []" and "0 < m"
    and "(step al reply)\<^sup>*\<^sup>* (start_exchange m rest (new_proxy hdr c)) w"
  shows "\<exists>w'. (step al reply)\<^sup>*\<^sup>* w w' \<and> ppc (proxies w' ! 0) = P_Done \<and> list_all (\<lambda>s. wpc s = W_Idle) (workers w') \<and>
    tx (client (proxies w' ! 0)) = tx c @ A"
proof -
  obtain l where l: "manned m hdr R A (tx c) rest l w"
    using exchange_manned [OF assms] ..
  obtain w' l' where "(step al reply)\<^sup>*\<^sup>* w w'" "manned m hdr R A (tx c) rest l' w'" "ppc (proxies w' ! 0) = P_Done"
    "list_all (\<lambda>s. wpc s = W_Idle) (workers w')"
    using manned_ends [OF assms(1,2) l] by blast
  then show ?thesis
    using manned_done by blast
qed

end
