(* ===== verification/Transport.thy ===== *)
theory Transport
  imports Fetch Crew
begin

text \<open>
  The ways in which a file can come to a client, as one interface: straight from the server, relayed
  by the proxy over a socket, or exchanged through the proxy's shared memory. A transport promises
  that what comes out of it is the server's answer and that something does; what a client makes of
  it is proved once, for all three.
\<close>

section \<open>The interface\<close>

text \<open>Who asks for what, on which server.\<close>

record visit =
  room :: allocator
  disk_of :: filesystem
  stack :: "char \<times> char"
  asker :: setting
  host_of :: string
  name_of :: string
  content :: buffer

definition visit_ok :: "visit \<Rightarrow> bool" where
  "visit_ok v \<longleftrightarrow> ample (room v) \<and> serves (disk_of v) (stack v) (name_of v) (content v)"

definition answer_of :: "visit \<Rightarrow> string" where
  "answer_of v = file_response (name_of v) (content v)"

locale transport =
  fixes fit :: "visit \<Rightarrow> bool" and outcome :: "visit \<Rightarrow> string \<Rightarrow> bool"
  assumes fit_ok: "fit v \<Longrightarrow> visit_ok v"
    and sound: "fit v \<Longrightarrow> outcome v out \<Longrightarrow> out = answer_of v"
    and arrives: "fit v \<Longrightarrow> \<exists>out. outcome v out"
begin

lemma exactly: "fit v \<Longrightarrow> outcome v out \<longleftrightarrow> out = answer_of v"
  using sound arrives by metis

text \<open>However the bytes are cut into pieces, the client counts those of the file.\<close>

lemma counted:
  assumes "fit v" and "outcome v out" and "clean cs" and "stream cs = out"
  shows "\<exists>cs'. recvAll_NoData (room v) cs = Inr (int (length out), int (length (content v)), cs')"
proof -
  have v: "ample (room v)" "int (length (content v)) < 2000000000"
    using fit_ok [OF assms(1)] by (simp_all add: visit_ok_def serves_def)
  have "stream cs = response_text 200 ''OK'' None (int (length (content v))) (contentType (name_of v)) @ content v"
    using sound [OF assms(1,2)] assms(4) by (simp add: answer_of_def file_response_def)
  then show ?thesis
    using recvAll_NoData_response [OF file_wf _ v(1) assms(3)] v(2) assms(4) by (auto simp: in_int_def)
qed

end

text \<open>Two transports that both can serve a visit give the same.\<close>

locale two_transports = one: transport fit1 outcome1 + other: transport fit2 outcome2
  for fit1 :: "visit \<Rightarrow> bool" and outcome1 :: "visit \<Rightarrow> string \<Rightarrow> bool"
    and fit2 :: "visit \<Rightarrow> bool" and outcome2 :: "visit \<Rightarrow> string \<Rightarrow> bool"
begin

lemma agree: "fit1 v \<Longrightarrow> fit2 v \<Longrightarrow> outcome1 v out \<longleftrightarrow> outcome2 v out"
  by (simp add: one.exactly other.exactly)

end

section \<open>Straight from the server\<close>

definition direct_fit :: "visit \<Rightarrow> bool" where
  "direct_fit v \<longleftrightarrow> visit_ok v \<and> proxy (asker v) = None \<and> NUL \<notin> set (server (asker v)) \<and> length (server (asker v)) < 9000"

definition direct_outcome :: "visit \<Rightarrow> string \<Rightarrow> bool" where
  "direct_outcome v out \<longleftrightarrow> (\<exists>req. client_request (asker v) (Some (name_of v)) = Inr req \<and>
     served (disk_of v) (room v) (stack v) req = [Data out])"

interpretation direct: transport direct_fit direct_outcome
proof unfold_locales
  fix v out
  assume v: "direct_fit v"
  then obtain req where req: "client_request (asker v) (Some (name_of v)) = Inr req"
    "served (disk_of v) (room v) (stack v) req = [Data (answer_of v)]"
    using direct_served [of "disk_of v" "stack v" "name_of v" "content v" "asker v" "room v"]
    by (auto simp: direct_fit_def visit_ok_def answer_of_def)
  then show "direct_outcome v out \<Longrightarrow> out = answer_of v" "\<exists>out. direct_outcome v out"
    by (auto simp: direct_outcome_def)
qed (simp add: direct_fit_def)

section \<open>Relayed over a socket\<close>

definition relay_fit :: "network \<Rightarrow> string \<Rightarrow> sockets \<Rightarrow> visit \<Rightarrow> bool" where
  "relay_fit net ip g v \<longleftrightarrow> visit_ok v \<and> asks (asker v) (host_of v) (name_of v) \<and> \<not> socket_fails g \<and>
     up net (ip, port (asker v)) \<and>
     replies net (ip, port (asker v)) = served (disk_of v) (room v) (stack v) \<and>
     Tx_Error \<notin> set (takes net (ip, port (asker v)))"

abbreviation fresh_client :: sock where
  "fresh_client \<equiv> \<lparr>rx = [], tx = [], txo = []\<rparr>"

definition relay_outcome :: "network \<Rightarrow> string \<Rightarrow> sockets \<Rightarrow> visit \<Rightarrow> string \<Rightarrow> bool" where
  "relay_outcome net ip g v out \<longleftrightarrow> (\<exists>req r g'. client_request (asker v) (Some (name_of v)) = Inr req \<and>
     relay_run (room v) net Some (replicate 7 0) ([new_relay (ip, port (asker v)) req fresh_client], g) =
       Some (Inr ([r], g')) \<and> rpc r = R_Done \<and> tx (rclient r) = out)"

interpretation relayed: transport "relay_fit net ip g" "relay_outcome net ip g" for net ip g
proof unfold_locales
  fix v out
  assume v: "relay_fit net ip g v"
  then have ok: "ample (room v)" "serves (disk_of v) (stack v) (name_of v) (content v)"
    "asks (asker v) (host_of v) (name_of v)"
    by (simp_all add: relay_fit_def visit_ok_def)
  obtain r g' where "relay_run (room v) net Some (replicate 7 0)
      ([new_relay (ip, port (asker v)) (proxy_text (asker v) (host_of v) (name_of v)) fresh_client], g) = Some (Inr ([r], g'))"
    "rpc r = R_Done" "tx (rclient r) = answer_of v"
    using relayed_file [OF ok, of g net ip Some] v by (auto simp: relay_fit_def answer_of_def)
  then show "relay_outcome net ip g v out \<Longrightarrow> out = answer_of v" "\<exists>out. relay_outcome net ip g v out"
    using proxy_request [OF ok(2,3)] by (auto simp: relay_outcome_def)
qed (simp add: relay_fit_def)

section \<open>Through shared memory\<close>

text \<open>With \<open>m\<close> workers at the server, and other nodes behind the one that is used.\<close>

definition memory_fit :: "nat \<Rightarrow> memnode list \<Rightarrow> visit \<Rightarrow> bool" where
  "memory_fit m rest v \<longleftrightarrow> visit_ok v \<and> asks (asker v) (host_of v) (name_of v) \<and> idle_rest rest \<and> 0 < m"

definition memory_outcome :: "nat \<Rightarrow> memnode list \<Rightarrow> visit \<Rightarrow> string \<Rightarrow> bool" where
  "memory_outcome m rest v out \<longleftrightarrow> (\<exists>req w. client_request (asker v) (Some (name_of v)) = Inr req \<and>
     (step (room v) (checkAndSend (disk_of v) (room v) (stack v)))\<^sup>*\<^sup>*
       (start_exchange m rest (new_proxy req fresh_client)) w \<and>
     ppc (proxies w ! 0) = P_Done \<and> tx (client (proxies w ! 0)) = out)"

interpretation shared: transport "memory_fit m rest" "memory_outcome m rest" for m rest
proof unfold_locales
  fix v out
  assume v: "memory_fit m rest v"
  let ?w0 = "start_exchange m rest (new_proxy (proxy_text (asker v) (host_of v) (name_of v)) fresh_client)"
  have ok: "ample (room v)" "serves (disk_of v) (stack v) (name_of v) (content v)"
    "asks (asker v) (host_of v) (name_of v)" "idle_rest rest" "0 < m"
    using v by (simp_all add: memory_fit_def visit_ok_def)
  note ex = shared_file [OF ok(1-3)]
  have free: "txo fresh_client = []"
    by simp
  have ends: "tx (client (proxies w ! 0)) = answer_of v"
    if run: "(step (room v) (checkAndSend (disk_of v) (room v) (stack v)))\<^sup>*\<^sup>* ?w0 w" "ppc (proxies w ! 0) = P_Done" for w
    using exchange_manned [OF ex ok(4) free ok(5) run(1)] manned_done [OF _ run(2)] by (auto simp: answer_of_def)
  obtain w where "(step (room v) (checkAndSend (disk_of v) (room v) (stack v)))\<^sup>*\<^sup>* ?w0 w" "ppc (proxies w ! 0) = P_Done"
    using exchange_ends [OF ex ok(4) free ok(5) rtranclp.rtrancl_refl] by blast
  then show "\<exists>out. memory_outcome m rest v out"
    using proxy_request [OF ok(2,3)] by (auto simp: memory_outcome_def)
  show "memory_outcome m rest v out \<Longrightarrow> out = answer_of v"
    using proxy_request [OF ok(2,3)] ends by (auto simp: memory_outcome_def)
qed (simp add: memory_fit_def)

interpretation both: two_transports "relay_fit net ip g" "relay_outcome net ip g" "memory_fit m rest" "memory_outcome m rest"
  for net ip g m rest ..

end
