(* ===== verification/Names.thy ===== *)
theory Names
  imports Relay
begin

text \<open>
  What the string and header functions are relied on for, stated against reference definitions:
  the search that ignores case (src/functions/strcasestr.c), the decoding of escapes
  (strDecode.c), the type of a file (contentType.c), the value of a header field and the parts of
  a host name (getHeaderField.c).
\<close>

section \<open>Properties\<close>

text \<open>
  The search that ignores case gives the first place where the needle stands in the haystack,
  of all places but the last possible one: a needle at the very end of the haystack is not found.
\<close>

theorem strcasestr_first:
  "strcasestr (Some h) (Some n) = List.find (occurs_at h n) [0 ..< length h - length n]"
proof (cases "List.find (occurs_at h n) [0 ..< length h - length n]")
  case None
  then have "strcasestr (Some h) (Some n) = None"
    by (auto simp: strcasestr_None find_None_iff)
  then show ?thesis
    using None by simp
next
  case (Some k)
  then have "k + length n < length h \<and> occurs_at h n k \<and> (\<forall>j < k. \<not> occurs_at h n j)"
    by (auto simp: find_Some_iff)
  then show ?thesis
    using Some strcasestr_Some [of h n k] by simp
qed

text \<open>
  C27: decoding in place, over the very bytes that are still to be read, gives the decoding of the
  text, and decoding an escaped text gives the text back; no byte behind the text is touched.
\<close>

theorem decode_in_place:
  assumes "NUL \<notin> set s"
  shows "strDecode (s @ NUL # r) = Inr (decode s @ NUL # drop (Suc (length (decode s))) (s @ NUL # r)) \<and>
    (\<exists>b. strDecode (pct_encode s @ NUL # r) = Inr b \<and> cstr b = s \<and> length b = length (pct_encode s @ NUL # r) \<and>
       drop (length (pct_encode s)) b = NUL # r)"
proof -
  have hex: "NUL \<notin> set (pct c)" for c
  proof -
    have "\<forall>d \<in> set [0..<16]. hex_char d \<noteq> NUL"
      by code_simp
    moreover have "(of_char c :: nat) div 16 < 16"
      using of_char_less [of c] by (simp add: less_mult_imp_div_less)
    ultimately show ?thesis
      by (auto simp: pct_def)
  qed
  then have enc: "NUL \<notin> set (pct_encode s)" "decode (pct_encode s) = s"
    by (simp_all add: pct_encode_def decode_pct_encode [unfolded pct_encode_def])
  have len: "length s \<le> length (pct_encode s)" and short: "s \<noteq> [] \<Longrightarrow> Suc (length s) \<le> length (pct_encode s)"
    by (induction s) (auto simp: pct_encode_def pct_def)
  have "strDecode (pct_encode s @ NUL # r) = Inr (s @ NUL # drop (Suc (length s)) (pct_encode s @ NUL # r))"
    using strDecode_inplace [OF enc(1), of r] enc(2) by simp
  moreover have "drop (length (pct_encode s)) (s @ NUL # drop (Suc (length s)) (pct_encode s @ NUL # r)) = NUL # r"
    using len short by (cases "s = []") (simp_all add: pct_encode_def drop_Cons')
  ultimately show ?thesis
    using strDecode_inplace [OF assms, of r] assms len short by (cases "s = []") (auto simp: cstr_append_NUL pct_encode_def)
qed

theorem decode_in_place_witness:
  "\<exists>b. strDecode (pct_encode ''a b/%41'' @ NUL # ''rest'') = Inr b \<and> cstr b = ''a b/%41''"
  using decode_in_place [of "''a b/%41''" "''rest''"] by auto

text \<open>
  The type of a file is looked up in a table by what stands after the last dot of its name, in
  the letters' case; a name without a dot, or with an extension the table lacks, is plain text.
\<close>

theorem content_types:
  "contentType name =
     (if CHR ''.'' \<in> set name then mime_of (rev (takeWhile (\<lambda>c. c \<noteq> CHR ''.'') (rev name)))
      else ''text/plain; charset=iso-8859-1'')"
proof (cases "CHR ''.'' \<in> set name")
  case True
  then obtain base e where e: "name = base @ CHR ''.'' # e" "CHR ''.'' \<notin> set e"
    by (meson split_list_last)
  then have "takeWhile (\<lambda>c. c \<noteq> CHR ''.'') (rev e @ CHR ''.'' # rev base) = rev e"
    by (subst takeWhile_append2) auto
  then show ?thesis
    using e by (simp add: contentType_extension)
qed (simp add: contentType_no_dot)

text \<open>
  C26: reading a header field is memory safe whatever the header, also where the sizes that are
  computed from it are negative; and the value of the first line with that name, in whatever case,
  is the text between the blanks after the colon and the line's end.
\<close>

theorem header_field:
  assumes "ample al" and "headerLength \<le> length any"
    and "header = pre @ name @ CHR '':'' # replicate k SP @ val @ EOL @ post" and "NUL \<notin> set header"
    and "\<forall>j < length pre. \<not> occurs_at header name j"
    and "CHR '':'' \<notin> set name" and "CR \<notin> set name" and "CR \<notin> set val" and "hd (val @ EOL) \<noteq> SP"
  shows "returns (getHeaderField al any headerLength field) \<and>
    getHeaderField al header (length header) name = Inr (Some val)"
proof -
  have "val = [] \<or> hd val \<noteq> SP"
    using assms(9) by (cases val) auto
  then show ?thesis
    using assms getHeaderField_returns [OF ample_sane [OF assms(1)] assms(2)]
      getHeaderField_line [OF assms(3) refl assms(4) _ assms(6-8) _ assms(1)] by blast
qed

theorem header_field_witness:
  "returns (getHeaderField (\<lambda>n. 0 \<le> n) (''host'' @ EOL @ '':'') 7 ''Host'') \<and>
   getHeaderField (\<lambda>n. 0 \<le> n) (''A: b'' @ EOL @ ''Host:  h'' @ EOL) 16 ''Host'' = Inr (Some ''h'')"
proof -
  have first: "\<forall>j < length (''A: b'' @ EOL). \<not> occurs_at (''A: b'' @ EOL @ ''Host:  h'' @ EOL) ''Host'' j"
    by (simp add: occurs_at_def EOL_def toupper_def less_Suc_eq All_less_Suc less_eq_char_def)
  show ?thesis
    using header_field [OF ample_nonneg, of 7 "''host'' @ EOL @ '':''" "''A: b'' @ EOL @ ''Host:  h'' @ EOL"
        "''A: b'' @ EOL" "''Host''" 2 "''h''" "[]" "''Host''"] first
    by (simp add: EOL_def eval_nat_numeral)
qed

text \<open>
  C28: a host name with a port is taken apart into the two it was put together from, if the name does
  not end in the letter p; one that does, as in shop:8080, is found, but its port is taken to be 80,
  because the colon is mistaken for that of \<open>http:\<close>. A name without a port has port 80, but a name that
  ends in digits loses them, as every plain IP address does.
\<close>

theorem host_port_parts:
  assumes "h \<noteq> []" and "0 \<le> port" and "in_int port" and "ample al" and "\<forall>d \<in> set digits. isdigit d"
    and "name = front @ c # digits" and "\<not> isdigit c" and "c \<noteq> SP" and "CHR '':'' \<notin> set name"
  shows "chopPortNum al (Some (host_port h port)) = Inr (Some h) \<and>
    getPortNumber (Some (host_port h port)) = Inr (if last h = CHR ''p'' then 80 else port) \<and>
    chopPortNum al (Some name) = Inr (Some (front @ [c])) \<and> getPortNumber (Some name) = Inr 80"
proof -
  have "chopPortNum al (Some (host_port h port)) = Inr (Some h)"
    using assms(2,4) chop_spec_port [of "fmt_d port" h] fmt_d_digits [of port]
    by (auto simp: host_port_def chopPortNum_spec)
  moreover have "getPortNumber (Some (host_port h port)) = Inr (if last h = CHR ''p'' then 80 else port)"
  proof (cases "last h = CHR ''p''")
    case True
    have "h = butlast h @ ''p''"
      using append_butlast_last_id [OF assms(1)] True by simp
    moreover have "CHR '':'' \<notin> set (fmt_d port)"
      using fmt_d_digits [OF assms(2), of "CHR '':''"] by (auto simp: isdigit_not)
    ultimately show ?thesis
      using getPortNumber_p [of "fmt_d port" "butlast h"] True unfolding host_port_def by simp
  next
    case False
    have "length (fmt_d port) \<le> 10"
      using dec_nat_length [of "nat port" 9] assms(2,3) by (simp add: fmt_d_def in_int_def)
    then show ?thesis
      using getPortNumber_port [OF assms(3,1) False] False by (simp add: host_port_def)
  qed
  moreover have "c \<noteq> CHR '':''"
    using assms(6,9) by auto
  then have "chop_spec name = Inr (front @ [c])"
    unfolding assms(6) using assms(5,7,8) by (intro chop_spec_name)
  ultimately show ?thesis
    using getPortNumber_default [OF assms(9)] chopPortNum_spec [OF assms(4), of name] by simp
qed

theorem host_port_parts_witness:
  "chopPortNum (\<lambda>n. 0 \<le> n) (Some (host_port ''www.x.org'' 8080)) = Inr (Some ''www.x.org'') \<and>
   getPortNumber (Some (host_port ''www.x.org'' 8080)) = Inr 8080 \<and>
   getPortNumber (Some (host_port ''shop'' 8080)) = Inr 80 \<and>
   chopPortNum (\<lambda>n. 0 \<le> n) (Some ''127.0.0.1'') = Inr (Some ''127.0.0.'')"
  using host_port_parts [OF _ _ _ ample_nonneg, of "''www.x.org''" 8080 "''1''" "''127.0.0.1''" "''127.0.0''" "CHR ''.''"]
    host_port_parts [OF _ _ _ ample_nonneg, of "''shop''" 8080 "''1''" "''127.0.0.1''" "''127.0.0''" "CHR ''.''"]
  by (simp add: isdigit_def less_eq_char_def in_int_def)

end
