(* ===== verification/Tools.thy ===== *)
theory Tools
  imports Socket Constants
begin

text \<open>
  The programs beside the servers: the image service of src/rpc/rpcserver.c, which the proxy calls to
  have an image compressed, its test client src/rpc/rpcclient.c, and src/generateSpam.c, which writes
  the files the servers are tested with. The XML-RPC library and the compression itself
  (\<open>change_res_JPEG\<close>) are parameters.
\<close>

section \<open>The image service\<close>

text \<open>
  The service keeps a counter and, in its directory, a temporary file for every image; the disk says
  which calls succeed and how many bytes of a write it takes.
\<close>

record service =
  imageNumber :: int
  images :: "string \<Rightarrow> buffer option"

record disk =
  creates :: "string \<Rightarrow> bool"
  written :: "buffer \<Rightarrow> nat"
  reopens :: "string \<Rightarrow> bool"
  change_res_JPEG :: "buffer \<Rightarrow> buffer option"

definition image_name :: "int \<Rightarrow> string" where
  "image_name i = snprintf 999 (''images/image'' @ fmt_d i @ ''.jpg'')"

text \<open>
  The argument is \<open>None\<close> when it cannot be decomposed. A failure answers with no bytes. \<open>written\<close> is an
  \<open>int\<close> that is compared with a \<open>size_t\<close>. Only a success removes the file.
\<close>

definition compress_image :: "disk \<Rightarrow> buffer option \<Rightarrow> service \<Rightarrow> buffer \<times> service" where
  "compress_image d param st =
     (let name = image_name (imageNumber st);
          st1 = st\<lparr>imageNumber := c_int (imageNumber st + 1)\<rparr>
      in case param of
           None \<Rightarrow> ([], st1)
         | Some data \<Rightarrow>
             if \<not> creates d name then ([], st1)
             else
               let n = min (written d data) (length data);
                   st2 = st1\<lparr>images := (images st1)(name \<mapsto> take n data)\<rparr>
               in if c_int (int n) mod 18446744073709551616 \<noteq> int (length data) then ([], st2)
                  else if \<not> reopens d name then ([], st2)
                  else (case change_res_JPEG d data of
                          None \<Rightarrow> ([], st2)
                        | Some c \<Rightarrow> (c, st2\<lparr>images := (images st2)(name := None)\<rparr>)))"

text \<open>Requests one after the other.\<close>

fun serve_images :: "disk \<Rightarrow> buffer option list \<Rightarrow> service \<Rightarrow> buffer list \<times> service" where
  "serve_images d [] st = ([], st)"
| "serve_images d (p # ps) st =
     (case compress_image d p st of (r, st1) \<Rightarrow> case serve_images d ps st1 of (rs, st2) \<Rightarrow> (r # rs, st2))"

text \<open>
  The main function: \<open>calls\<close> gives, for a port, the arguments with which the library invokes the
  method on what arrives there; the port is an \<open>unsigned int\<close>. The answers to them, with the
  directory \<open>dir\<close> that the service is started in.
\<close>

definition rpcserver_main :: "disk \<Rightarrow> (string \<Rightarrow> buffer option) \<Rightarrow> (int \<Rightarrow> buffer option list) \<Rightarrow> string list \<Rightarrow>
  (buffer list \<times> service) result" where
  "rpcserver_main d dir calls argv =
     (if length argv \<noteq> 2 then Inl (Exit_With INCORRECT_ARGS)
      else Inr (serve_images d (calls (atoi (argv ! 1) mod 4294967296)) \<lparr>imageNumber = 0, images = dir\<rparr>))"

section \<open>Its test client\<close>

text \<open>
  The image is read a byte at a time into an object that is grown before the next byte is known to
  exist; \<open>None\<close> is the null pointer.
\<close>

primrec read_image :: "allocator \<Rightarrow> string \<Rightarrow> buffer option \<Rightarrow> buffer option result" where
  "read_image al [] contents = Inr contents"
| "read_image al (c # s) contents =
     (case contents of
        None \<Rightarrow> Inl Null_Deref
      | Some b \<Rightarrow> read_image al s (if al (int (length b) + 2) then Some (b @ [c]) else None))"

text \<open>
  The answer's length goes to an \<open>int\<close> through a pointer that the library takes for one to a
  \<open>size_t\<close>, which has eight bytes on x86-64.
\<close>

definition rpcclient_main ::
  "allocator \<Rightarrow> (string \<Rightarrow> string option) \<Rightarrow> bool \<Rightarrow> (int \<Rightarrow> buffer \<Rightarrow> buffer option) \<Rightarrow> string list \<Rightarrow> unit result" where
  "rpcclient_main al files fault call argv =
     (if length argv \<noteq> 3 then Inl (Exit_With INCORRECT_ARGS)
      else if fault then Inl (Exit_With 1)
      else case files (argv ! 2) of
        None \<Rightarrow> Inl (Exit_With INCORRECT_ARGS)
      | Some s \<Rightarrow>
          bindR (read_image al s (if al 1 then Some [] else None)) (\<lambda>contents.
            case contents of
              None \<Rightarrow> Inl Uninit_Read
            | Some b \<Rightarrow>
                if b \<noteq> [] \<and> \<not> al (int (length b)) then Inl Null_Deref
                else (case call (atoi (argv ! 1)) b of
                        None \<Rightarrow> Inl (Exit_With 1)
                      | Some c \<Rightarrow> Inl Over_Write)))"

section \<open>Test files\<close>

definition spam_char :: "int \<Rightarrow> char" where
  "spam_char r = char_of (48 + nat (r mod 74))"

text \<open>The file that is written, with its bytes; \<open>rands\<close> are the values of \<open>rand\<close>.\<close>

definition generateSpam :: "(string \<Rightarrow> bool) \<Rightarrow> (nat \<Rightarrow> int) \<Rightarrow> string list \<Rightarrow> (string \<times> buffer) result" where
  "generateSpam opens rands argv =
     (if length argv < 3 then Inl (Exit_With 1)
      else let numBytes = atoi (argv ! 2) in
        if numBytes \<le> 0 then Inl (Exit_With 1)
        else if \<not> opens (argv ! 1) then Inl (Exit_With 1)
        else Inr (argv ! 1, map (\<lambda>i. spam_char (rands i)) [0 ..< nat numBytes]))"

section \<open>What they give\<close>

definition disk_ok :: "disk \<Rightarrow> bool" where
  "disk_ok d \<longleftrightarrow> (\<forall>n. creates d n \<and> reopens d n) \<and> (\<forall>b. length b \<le> written d b)"

lemma compress_written:
  assumes "disk_ok d" and "in_int (int (length data))"
  shows "compress_image d (Some data) st =
    (let name = image_name (imageNumber st); st1 = st\<lparr>imageNumber := c_int (imageNumber st + 1)\<rparr> in
     case change_res_JPEG d data of
       None \<Rightarrow> ([], st1\<lparr>images := (images st)(name \<mapsto> data)\<rparr>)
     | Some c \<Rightarrow> (c, st1\<lparr>images := (images st)(name := None)\<rparr>))"
proof -
  have n: "min (written d data) (length data) = length data"
    using assms(1) by (simp add: disk_ok_def)
  have "int (length data) mod 18446744073709551616 = int (length data)"
    using assms(2) by (simp add: in_int_def)
  then have m: "c_int (int (length data)) mod 18446744073709551616 = int (length data)"
    using assms(2) by simp
  show ?thesis
    using assms(1) m unfolding compress_image_def n Let_def by (simp add: disk_ok_def split: option.split)
qed

text \<open>No two images have the same file.\<close>

lemma image_name_fits:
  assumes "0 \<le> i" and "i < 2147483648"
  shows "image_name i = ''images/image'' @ fmt_d i @ ''.jpg''"
proof -
  have "length (fmt_d i) \<le> 10"
    using dec_nat_length [of "nat i" 9] assms by (simp add: fmt_d_def)
  then show ?thesis
    by (simp add: image_name_def)
qed

lemma image_name_eq:
  assumes "0 \<le> i" and "i < 2147483648" and "0 \<le> j" and "j < 2147483648"
  shows "image_name i = image_name j \<longleftrightarrow> i = j"
proof
  assume "image_name i = image_name j"
  then have "fmt_d i = fmt_d j"
    using assms by (simp add: image_name_fits)
  then show "i = j"
    using atoi_fmt_d [of i "[]"] atoi_fmt_d [of j "[]"] assms by (simp add: in_int_def)
qed simp

definition image_answer :: "disk \<Rightarrow> buffer \<Rightarrow> buffer" where
  "image_answer d b = (case change_res_JPEG d b of None \<Rightarrow> [] | Some c \<Rightarrow> c)"

definition image_left :: "disk \<Rightarrow> buffer \<Rightarrow> buffer option" where
  "image_left d b = (if change_res_JPEG d b = None then Some b else None)"

lemma compress_answers:
  assumes "disk_ok d" and "in_int (int (length b))" and "0 \<le> imageNumber st" and "imageNumber st < 2147483647"
  shows "compress_image d (Some b) st =
    (image_answer d b, \<lparr>imageNumber = imageNumber st + 1, images = (images st)(image_name (imageNumber st) := image_left d b)\<rparr>)"
  using assms(3,4) by (cases st)
    (simp add: compress_written [OF assms(1,2)] image_answer_def image_left_def in_int_def Let_def split: option.split)

lemma serve_images_all:
  assumes "disk_ok d" and "\<forall>b \<in> set bs. in_int (int (length b))"
    and "0 \<le> imageNumber st" and "imageNumber st + int (length bs) < 2147483648"
  shows "\<exists>st'. serve_images d (map Some bs) st = (map (image_answer d) bs, st') \<and> imageNumber st' = imageNumber st + int (length bs) \<and>
    (\<forall>i < length bs. images st' (image_name (imageNumber st + int i)) = image_left d (bs ! i)) \<and>
    (\<forall>n. n \<notin> (\<lambda>i. image_name (imageNumber st + int i)) ` {..< length bs} \<longrightarrow> images st' n = images st n)"
  using assms(2-4)
proof (induction bs arbitrary: st)
  case (Cons b bs)
  let ?k = "imageNumber st"
  let ?st = "\<lparr>imageNumber = ?k + 1, images = (images st)(image_name ?k := image_left d b)\<rparr>"
  have one: "compress_image d (Some b) st = (image_answer d b, ?st)"
    using compress_answers [OF assms(1)] Cons.prems by simp
  obtain st' where st': "serve_images d (map Some bs) ?st = (map (image_answer d) bs, st')"
    "imageNumber st' = ?k + 1 + int (length bs)"
    "\<forall>i < length bs. images st' (image_name (?k + 1 + int i)) = image_left d (bs ! i)"
    "\<forall>n. n \<notin> (\<lambda>i. image_name (?k + 1 + int i)) ` {..< length bs} \<longrightarrow> images st' n = images ?st n"
    using Cons.IH [of ?st] Cons.prems by auto
  have later: "?k + int (Suc i) = ?k + 1 + int i" for i
    by simp
  have "image_name ?k \<notin> (\<lambda>i. image_name (?k + 1 + int i)) ` {..< length bs}"
    using image_name_eq Cons.prems by auto
  then have "images st' (image_name ?k) = image_left d b"
    using st'(4) by simp
  then have "\<forall>i < length (b # bs). images st' (image_name (?k + int i)) = image_left d ((b # bs) ! i)"
    using st'(3) unfolding length_Cons All_less_Suc2 later by simp
  moreover have "images st' n = images st n" if "n \<notin> (\<lambda>i. image_name (?k + int i)) ` {..< length (b # bs)}" for n
  proof -
    have "n \<noteq> image_name ?k" "n \<notin> (\<lambda>i. image_name (?k + 1 + int i)) ` {..< length bs}"
      using that by (auto simp: lessThan_Suc_eq_insert_0 image_image add.assoc)
    then show ?thesis
      using st'(4) by simp
  qed
  ultimately show ?case
    using one st'(1,2) by simp
qed simp

section \<open>Properties\<close>

text \<open>
  C29: while the disk takes what is written, the image service, started with its port, answers every
  request of a run, in order, with the compression of the request's own image, and a compression that
  fails with no bytes; what it leaves in its directory are the files of exactly those images whose
  compression failed, each with its own bytes, and what was there under other names.
\<close>

theorem images_served:
  assumes "disk_ok d" and "calls (atoi p mod 4294967296) = map Some bs" and "\<forall>b \<in> set bs. in_int (int (length b))"
    and "int (length bs) < 2147483648"
  shows "\<exists>st. rpcserver_main d dir calls [prog, p] = Inr (map (image_answer d) bs, st) \<and> imageNumber st = int (length bs) \<and>
    (\<forall>i < length bs. images st (image_name (int i)) = image_left d (bs ! i)) \<and>
    (\<forall>n. n \<notin> (\<lambda>i. image_name (int i)) ` {..< length bs} \<longrightarrow> images st n = dir n)"
  using serve_images_all [OF assms(1,3), of "\<lparr>imageNumber = 0, images = dir\<rparr>"] assms(2,4)
  by (auto simp: rpcserver_main_def)

definition fine_disk :: disk where
  "fine_disk = \<lparr>creates = \<lambda>n. True, written = length, reopens = \<lambda>n. True,
     change_res_JPEG = \<lambda>b. if b = [] then None else Some (take 1 b)\<rparr>"

theorem images_served_witness:
  "\<exists>st. rpcserver_main fine_disk Map.empty (\<lambda>p. [Some ''abc'', Some [], Some ''xyz'']) [''./rpcserver'', ''8080''] =
      Inr ([''a'', [], ''x''], st) \<and> imageNumber st = 3 \<and>
    images st (image_name 0) = None \<and> images st (image_name 1) = Some [] \<and> images st ''other'' = None"
proof -
  have ok: "disk_ok fine_disk"
    by (simp add: disk_ok_def fine_disk_def)
  have "''other'' \<notin> (\<lambda>i. image_name (int i)) ` {..< 3}"
    by (auto simp: image_name_def snprintf_def)
  moreover obtain st where
    "rpcserver_main fine_disk Map.empty (\<lambda>p. [Some ''abc'', Some [], Some ''xyz'']) [''./rpcserver'', ''8080''] =
      Inr (map (image_answer fine_disk) [''abc'', [], ''xyz''], st)" "imageNumber st = 3"
    "\<forall>i < 3. images st (image_name (int i)) = image_left fine_disk ([''abc'', [], ''xyz''] ! i)"
    "\<forall>n. n \<notin> (\<lambda>i. image_name (int i)) ` {..< 3} \<longrightarrow> images st n = None"
    using images_served [OF ok, of "\<lambda>p. [Some ''abc'', Some [], Some ''xyz'']" "''8080''" "[''abc'', [], ''xyz'']"
        Map.empty "''./rpcserver''"]
    by (auto simp: in_int_def numeral_3_eq_3)
  ultimately show ?thesis
    by (intro exI [of _ st]) (auto simp: image_answer_def image_left_def fine_disk_def numeral_3_eq_3 All_less_Suc2)
qed

end
