(* ===== verification/Serial.thy ===== *)
theory Serial
  imports Crew
begin

text \<open>
  One thread of the proxy with any number of clients one after the other, and any number of workers at
  the server: every exchange begins on the node that the one before has used, which a worker may not
  have left yet.
\<close>

section \<open>Errands\<close>

text \<open>The header and the connection of a client, what the server is to be asked and what it answers.\<close>

record errand =
  e_header :: buffer
  e_client :: sock
  e_request :: buffer
  e_answer :: buffer

definition errand_ok :: "allocator \<Rightarrow> (buffer \<Rightarrow> (buffer \<times> buffer) result) \<Rightarrow> errand \<Rightarrow> bool" where
  "errand_ok al reply e \<longleftrightarrow> exchange al reply (e_header e) (e_request e) (e_answer e) \<and> txo (e_client e) = []"

definition order :: "errand \<Rightarrow> buffer \<times> sock" where
  "order e = (e_header e, e_client e)"

definition delivered :: "errand \<Rightarrow> string" where
  "delivered e = tx (e_client e) @ e_answer e"

definition start_serial :: "nat \<Rightarrow> memnode list \<Rightarrow> errand \<Rightarrow> errand list \<Rightarrow> serial" where
  "start_serial m rest e es =
     \<lparr>now = start_exchange m rest (new_proxy (e_header e) (e_client e)), todo = map order es, past = []\<rparr>"

definition effort :: "errand \<Rightarrow> nat" where
  "effort e = 20 * length (e_answer e) + 195"

section \<open>Every run keeps to them\<close>

text \<open>The errands \<open>xs\<close> are done, \<open>e\<close> is being done and \<open>ys\<close> are to come; \<open>k\<close> is the measure.\<close>

definition doing :: "nat \<Rightarrow> memnode list \<Rightarrow> errand list \<Rightarrow> errand \<Rightarrow> errand list \<Rightarrow> serial \<Rightarrow> nat \<Rightarrow> bool" where
  "doing m rest xs e ys s k \<longleftrightarrow> (\<exists>l. manned m (e_header e) (e_request e) (e_answer e) (tx (e_client e)) rest l (now s) \<and>
     todo s = map order ys \<and> map tx (past s) = map delivered xs \<and> k = l + sum_list (map effort ys))"

lemma doing_act:
  assumes "doing m rest xs e ys s k" and "errand_ok al reply e" and "idle_rest rest" and "act al reply a (now s) = Some r"
  shows "\<exists>w l. r = Inr w \<and> doing m rest xs e ys (s\<lparr>now := w\<rparr>) l \<and> l < k"
proof -
  obtain j where j: "manned m (e_header e) (e_request e) (e_answer e) (tx (e_client e)) rest j (now s)"
    "todo s = map order ys" "map tx (past s) = map delivered xs" "k = j + sum_list (map effort ys)"
    using assms(1) by (auto simp: doing_def)
  obtain w l where "r = Inr w" "manned m (e_header e) (e_request e) (e_answer e) (tx (e_client e)) rest l w" "l < j"
    using manned_keeps [OF j(1) _ assms(3,4)] assms(2) by (auto simp: errand_ok_def)
  then show ?thesis
    using j(2-4) by (auto simp: doing_def)
qed

lemma manned_proxies: "manned m hdr R A out rest k v \<Longrightarrow> \<exists>p. proxies v = [p]"
  by (auto simp: manned_def crew_one)

lemma doing_next:
  assumes "doing m rest xs e ys s k" and "next_request s = Some r" and "\<forall>e \<in> set ys. txo (e_client e) = []"
  shows "\<exists>s' e' ys' l. r = Inr s' \<and> ys = e' # ys' \<and> doing m rest (xs @ [e]) e' ys' s' l \<and> l < k"
proof -
  obtain j where j: "manned m (e_header e) (e_request e) (e_answer e) (tx (e_client e)) rest j (now s)"
    "todo s = map order ys" "map tx (past s) = map delivered xs" "k = j + sum_list (map effort ys)"
    using assms(1) by (auto simp: doing_def)
  obtain p where p: "proxies (now s) = [p]"
    using manned_proxies [OF j(1)] by blast
  obtain e' ys' where ys: "ys = e' # ys'"
    using assms(2) j(2) by (cases ys) (auto simp: next_request_def)
  then have d: "ppc (proxies (now s) ! 0) = P_Done" and r: "r = Inr (s\<lparr>now := (now s)\<lparr>proxies := [new_proxy (e_header e') (e_client e')]\<rparr>,
      todo := map order ys', past := past s @ [client p]\<rparr>)"
    using assms(2) j(2) p by (auto simp: next_request_def order_def split: if_splits)
  have "tx (client p) = delivered e"
    using manned_done [OF j(1) d] p by (simp add: delivered_def)
  moreover obtain l where l: "l \<le> 20 * length (e_answer e') + 194"
    "manned m (e_header e') (e_request e') (e_answer e') (tx (e_client e')) rest l
       ((now s)\<lparr>proxies := [new_proxy (e_header e') (e_client e')]\<rparr>)"
    using manned_next [OF j(1) d, of "e_client e'" "e_answer e'" "e_header e'" "e_request e'"] assms(3) ys by auto
  ultimately have "doing m rest (xs @ [e]) e' ys' (s\<lparr>now := (now s)\<lparr>proxies := [new_proxy (e_header e') (e_client e')]\<rparr>,
      todo := map order ys', past := past s @ [client p]\<rparr>) (l + sum_list (map effort ys'))"
    using j(3) by (auto simp: doing_def)
  then show ?thesis
    using r ys j(4) l(1) by (auto simp: effort_def)
qed

definition on_errands :: "nat \<Rightarrow> memnode list \<Rightarrow> errand list \<Rightarrow> serial \<Rightarrow> nat \<Rightarrow> bool" where
  "on_errands m rest es s k \<longleftrightarrow> (\<exists>xs e ys. es = xs @ e # ys \<and> doing m rest xs e ys s k)"

lemma serial_keeps:
  assumes "on_errands m rest es s k" and "\<forall>e \<in> set es. errand_ok al reply e" and "idle_rest rest"
  shows "act al reply a (now s) = Some r \<Longrightarrow> \<exists>w l. r = Inr w \<and> on_errands m rest es (s\<lparr>now := w\<rparr>) l \<and> l < k"
    and "next_request s = Some q \<Longrightarrow> \<exists>s' l. q = Inr s' \<and> on_errands m rest es s' l \<and> l < k"
proof -
  obtain xs e ys where es: "es = xs @ e # ys" and d: "doing m rest xs e ys s k"
    using assms(1) by (auto simp: on_errands_def)
  then have ok: "errand_ok al reply e" "\<forall>e \<in> set ys. txo (e_client e) = []"
    using assms(2) by (auto simp: errand_ok_def)
  show "\<exists>w l. r = Inr w \<and> on_errands m rest es (s\<lparr>now := w\<rparr>) l \<and> l < k" if "act al reply a (now s) = Some r"
    using doing_act [OF d ok(1) assms(3) that] es unfolding on_errands_def by blast
  show "\<exists>s' l. q = Inr s' \<and> on_errands m rest es s' l \<and> l < k" if go: "next_request s = Some q"
  proof -
    obtain s' e' ys' l where l: "q = Inr s'" "ys = e' # ys'" "doing m rest (xs @ [e]) e' ys' s' l" "l < k"
      using doing_next [OF d go ok(2)] by blast
    have "es = (xs @ [e]) @ e' # ys'"
      using es l(2) by simp
    then show ?thesis
      using l unfolding on_errands_def by blast
  qed
qed

lemma serial_step_keeps:
  assumes "on_errands m rest es s k" and "\<forall>e \<in> set es. errand_ok al reply e" and "idle_rest rest"
    and "serial_step al reply s s'"
  shows "\<exists>l < k. on_errands m rest es s' l"
  using assms(4)
proof (rule serial_stepE)
  fix a w assume s': "s' = s\<lparr>now := w\<rparr>" and "act al reply a (now s) = Some (Inr w)"
  then show ?thesis
    using serial_keeps(1) [OF assms(1-3)] by blast
next
  assume "next_request s = Some (Inr s')"
  then show ?thesis
    using serial_keeps(2) [OF assms(1-3)] by blast
qed

lemma serial_counted:
  assumes "on_errands m rest es s k" and "\<forall>e \<in> set es. errand_ok al reply e" and "idle_rest rest"
    and "(serial_step al reply ^^ i) s s'"
  shows "\<exists>l. on_errands m rest es s' l \<and> i + l \<le> k"
  using assms(4)
proof (induction i arbitrary: s')
  case (Suc i)
  then obtain u where "(serial_step al reply ^^ i) s u" and u: "serial_step al reply u s'"
    by (elim relpowp_Suc_E)
  then obtain l where l: "on_errands m rest es u l" "i + l \<le> k"
    using Suc.IH by blast
  then obtain l' where "on_errands m rest es s' l'" "l' < l"
    using serial_step_keeps [OF l(1) assms(2,3) u] by blast
  then show ?case
    using l(2) by (intro exI [of _ l']) simp
qed (use assms(1) in auto)

lemma serial_reach:
  assumes "on_errands m rest es s k" and "\<forall>e \<in> set es. errand_ok al reply e" and "idle_rest rest"
    and "(serial_step al reply)\<^sup>*\<^sup>* s s'"
  shows "\<exists>l. on_errands m rest es s' l"
  using serial_counted [OF assms(1-3)] rtranclp_imp_relpowp [OF assms(4)] by blast

section \<open>Every run can be completed\<close>

definition all_done :: "errand list \<Rightarrow> serial \<Rightarrow> bool" where
  "all_done es s \<longleftrightarrow> todo s = [] \<and> ppc (proxies (now s) ! 0) = P_Done \<and>
     map tx (past s) @ [tx (client (proxies (now s) ! 0))] = map delivered es"

text \<open>The steps of the one exchange lift to the whole.\<close>

lemma same_request_run: "(step al reply)\<^sup>*\<^sup>* (now s) w \<Longrightarrow> (serial_step al reply)\<^sup>*\<^sup>* s (s\<lparr>now := w\<rparr>)"
proof (induction rule: rtranclp_induct)
  case (step u w)
  obtain a where "act al reply a (now (s\<lparr>now := u\<rparr>)) = Some (Inr w)"
    using step.hyps(2) by (auto elim: stepE)
  then have "serial_step al reply (s\<lparr>now := u\<rparr>) ((s\<lparr>now := u\<rparr>)\<lparr>now := w\<rparr>)"
    by (rule same_request)
  then show ?case
    using step.IH by simp
qed simp

lemma done_all:
  assumes "doing m rest xs e [] s k" and "ppc (proxies (now s) ! 0) = P_Done"
  shows "all_done (xs @ [e]) s"
proof -
  obtain l where l: "manned m (e_header e) (e_request e) (e_answer e) (tx (e_client e)) rest l (now s)"
    "todo s = []" "map tx (past s) = map delivered xs"
    using assms(1) by (auto simp: doing_def)
  show ?thesis
    using manned_done [OF l(1) assms(2)] l(2,3) assms(2) by (simp add: all_done_def delivered_def)
qed

lemma done_next:
  assumes "doing m rest xs e (e' # ys) s k" and "ppc (proxies (now s) ! 0) = P_Done"
  shows "\<exists>r. next_request s = Some r"
proof -
  obtain l where "manned m (e_header e) (e_request e) (e_answer e) (tx (e_client e)) rest l (now s)"
    and t: "todo s = order e' # map order ys"
    using assms(1) by (auto simp: doing_def)
  then obtain p where "proxies (now s) = [p]"
    using manned_proxies by blast
  then show ?thesis
    using t assms(2) by (simp add: next_request_def order_def)
qed

lemma doing_ends:
  assumes "doing m rest xs e ys s k" and "errand_ok al reply e" and "\<forall>e \<in> set ys. errand_ok al reply e" and "idle_rest rest"
  shows "\<exists>s'. (serial_step al reply)\<^sup>*\<^sup>* s s' \<and> all_done (xs @ e # ys) s' \<and> list_all (\<lambda>w. wpc w = W_Idle) (workers (now s'))"
  using assms(1-3)
proof (induction ys arbitrary: xs e s k)
  case (Nil xs e s k)
  obtain l where l: "manned m (e_header e) (e_request e) (e_answer e) (tx (e_client e)) rest l (now s)"
    "todo s = []" "map tx (past s) = map delivered xs"
    using Nil.prems(1) by (auto simp: doing_def)
  obtain w l' where w: "(step al reply)\<^sup>*\<^sup>* (now s) w" "manned m (e_header e) (e_request e) (e_answer e) (tx (e_client e)) rest l' w"
    "ppc (proxies w ! 0) = P_Done" "list_all (\<lambda>s. wpc s = W_Idle) (workers w)"
    using manned_ends [OF _ assms(4) l(1)] Nil.prems(2) unfolding errand_ok_def by blast
  have "doing m rest xs e [] (s\<lparr>now := w\<rparr>) l'"
    using w(2) l by (simp add: doing_def)
  then have "all_done (xs @ [e]) (s\<lparr>now := w\<rparr>)"
    using done_all w(3) by simp
  then show ?case
    using same_request_run [OF w(1)] w(4) by (intro exI [of _ "s\<lparr>now := w\<rparr>"]) simp
next
  case (Cons e' ys xs e s k)
  obtain l where l: "manned m (e_header e) (e_request e) (e_answer e) (tx (e_client e)) rest l (now s)"
    "todo s = map order (e' # ys)" "map tx (past s) = map delivered xs"
    using Cons.prems(1) by (auto simp: doing_def)
  obtain w l' where w: "(step al reply)\<^sup>*\<^sup>* (now s) w" "manned m (e_header e) (e_request e) (e_answer e) (tx (e_client e)) rest l' w"
    "ppc (proxies w ! 0) = P_Done"
    using manned_ends [OF _ assms(4) l(1)] Cons.prems(2) unfolding errand_ok_def by blast
  let ?t = "s\<lparr>now := w\<rparr>"
  have d: "doing m rest xs e (e' # ys) ?t (l' + sum_list (map effort (e' # ys)))"
    using w(2) l by (simp add: doing_def)
  obtain r where r: "next_request ?t = Some r"
    using done_next [OF d] w(3) by auto
  have "\<forall>e \<in> set (e' # ys). txo (e_client e) = []"
    using Cons.prems(3) by (auto simp: errand_ok_def)
  then obtain s' k' where s': "r = Inr s'" "doing m rest (xs @ [e]) e' ys s' k'"
    using doing_next [OF d r] by blast
  have "serial_step al reply ?t s'"
    using r s'(1) by (auto intro: other_request)
  then have run: "(serial_step al reply)\<^sup>*\<^sup>* s s'"
    using same_request_run [OF w(1)] by simp
  show ?case
    using Cons.IH [OF s'(2)] Cons.prems(3) rtranclp_trans [OF run] by fastforce
qed

section \<open>From the start\<close>

lemma serial_start:
  assumes "0 < m" and "txo (e_client e) = []"
  shows "\<exists>k < sum_list (map effort (e # es)). on_errands m rest (e # es) (start_serial m rest e es) k"
proof -
  obtain l where l: "l \<le> 20 * length (e_answer e) + 194"
    "manned m (e_header e) (e_request e) (e_answer e) (tx (e_client e)) rest l (start_exchange m rest (new_proxy (e_header e) (e_client e)))"
    using start_manned [OF assms] by blast
  then have "doing m rest [] e es (start_serial m rest e es) (l + sum_list (map effort es))"
    by (simp add: doing_def start_serial_def)
  then have "on_errands m rest (e # es) (start_serial m rest e es) (l + sum_list (map effort es))"
    unfolding on_errands_def by (intro exI [of _ "[]"] exI [of _ e] exI [of _ es]) simp
  then show ?thesis
    using l(1) by (intro exI [of _ "l + sum_list (map effort es)"]) (simp add: effort_def)
qed

lemma serial_ends:
  assumes "on_errands m rest es s k" and "\<forall>e \<in> set es. errand_ok al reply e" and "idle_rest rest"
  shows "\<exists>s'. (serial_step al reply)\<^sup>*\<^sup>* s s' \<and> all_done es s' \<and> list_all (\<lambda>w. wpc w = W_Idle) (workers (now s'))"
proof -
  obtain xs e ys where "es = xs @ e # ys" "doing m rest xs e ys s k"
    using assms(1) by (auto simp: on_errands_def)
  then show ?thesis
    using doing_ends [of m rest xs e ys s k al reply] assms(2,3) by simp
qed

text \<open>What holds whenever a request is done with: so far everyone has got what he was to get.\<close>

lemma serial_done:
  assumes "on_errands m rest es s k" and "ppc (proxies (now s) ! 0) = P_Done"
  shows "map tx (past s) @ [tx (client (proxies (now s) ! 0))] = map delivered (take (Suc (length (past s))) es)"
    and "proxyState (nodes (now s) ! 0) = IDLE" and "length (past s) + length (todo s) + 1 = length es"
proof -
  obtain xs e ys l where d: "es = xs @ e # ys" "manned m (e_header e) (e_request e) (e_answer e) (tx (e_client e)) rest l (now s)"
    "todo s = map order ys" "map tx (past s) = map delivered xs"
    using assms(1) by (auto simp: on_errands_def doing_def)
  have "length (past s) = length xs"
    using map_eq_imp_length_eq [OF d(4)] .
  then show "map tx (past s) @ [tx (client (proxies (now s) ! 0))] = map delivered (take (Suc (length (past s))) es)"
    "proxyState (nodes (now s) ! 0) = IDLE" "length (past s) + length (todo s) + 1 = length es"
    using manned_done [OF d(2) assms(2)] d(1,3,4) by (simp_all add: delivered_def)
qed

section \<open>Properties\<close>

text \<open>
  With one proxy thread that serves any number of clients one after the other and any number of
  workers at the server, in every interleaving of their steps with the poll of the server's main
  loop, no step of the exchange over shared memory faults, though a request may begin on the node
  that a worker is still leaving; and whenever the proxy's thread is done with a request, every
  client so far has received exactly the answer to its own request and the node is idle again.
\<close>

theorem shared_exchange_safe:
  assumes "\<forall>e \<in> set (e # es). errand_ok al reply e" and "idle_rest rest" and "0 < m"
    and "(serial_step al reply)\<^sup>*\<^sup>* (start_serial m rest e es) s"
  shows "act al reply a (now s) \<noteq> Some (Inl x) \<and> next_request s \<noteq> Some (Inl x) \<and>
    (ppc (proxies (now s) ! 0) = P_Done \<longrightarrow>
       map tx (past s) @ [tx (client (proxies (now s) ! 0))] = map delivered (take (Suc (length (past s))) (e # es)) \<and>
       length (past s) + length (todo s) = length es \<and> proxyState (nodes (now s) ! 0) = IDLE)"
proof -
  have "txo (e_client e) = []"
    using assms(1) by (simp add: errand_ok_def)
  then obtain k where k: "on_errands m rest (e # es) s k"
    using serial_start [OF assms(3)] serial_reach [OF _ assms(1,2,4)] by blast
  show ?thesis
    using serial_keeps [OF k assms(1,2)] serial_done [OF k] by fastforce
qed

definition two_errands :: "errand list" where
  "two_errands = map (\<lambda>sent. \<lparr>e_header = sample_header, e_client = \<lparr>rx = [], tx = sent, txo = []\<rparr>,
     e_request = sample_request, e_answer = ''HTTP/1.0 200 OKbody''\<rparr>) [[], ''earlier'']"

lemma two_errands_ok: "\<forall>e \<in> set two_errands. errand_ok (\<lambda>n. 0 \<le> n) (\<lambda>b. Inr (''HTTP/1.0 200 OK'', ''body'')) e"
  using sample_exchange by (simp add: two_errands_def errand_ok_def)

lemma two_errands_run:
  "\<exists>s. (serial_step (\<lambda>n. 0 \<le> n) (\<lambda>b. Inr (''HTTP/1.0 200 OK'', ''body'')))\<^sup>*\<^sup>*
     (start_serial 10 [zero_node] (hd two_errands) (tl two_errands)) s \<and> all_done two_errands s"
proof -
  have es: "two_errands = hd two_errands # tl two_errands" "txo (e_client (hd two_errands)) = []" and idle: "idle_rest [zero_node]"
    by (simp_all add: two_errands_def idle_rest_def zero_node_def)
  obtain k where "on_errands 10 [zero_node] two_errands (start_serial 10 [zero_node] (hd two_errands) (tl two_errands)) k"
    using serial_start [of 10 "hd two_errands" "tl two_errands" "[zero_node]"] es by auto
  then show ?thesis
    using serial_ends [OF _ two_errands_ok idle] by blast
qed

theorem shared_exchange_safe_witness:
  "\<exists>s. (serial_step (\<lambda>n. 0 \<le> n) (\<lambda>b. Inr (''HTTP/1.0 200 OK'', ''body'')))\<^sup>*\<^sup>*
     (start_serial 10 [zero_node] (hd two_errands) (tl two_errands)) s \<and>
     tx (client (proxies (now s) ! 0)) = ''earlierHTTP/1.0 200 OKbody'' \<and>
     proxyState (nodes (now s) ! 0) = IDLE"
proof -
  obtain s where s: "(serial_step (\<lambda>n. 0 \<le> n) (\<lambda>b. Inr (''HTTP/1.0 200 OK'', ''body'')))\<^sup>*\<^sup>*
      (start_serial 10 [zero_node] (hd two_errands) (tl two_errands)) s" "all_done two_errands s"
    using two_errands_run by blast
  have ok: "\<forall>e \<in> set (hd two_errands # tl two_errands). errand_ok (\<lambda>n. 0 \<le> n) (\<lambda>b. Inr (''HTTP/1.0 200 OK'', ''body'')) e"
    and idle: "idle_rest [zero_node]"
    using two_errands_ok by (simp_all add: two_errands_def idle_rest_def zero_node_def)
  have p: "ppc (proxies (now s) ! 0) = P_Done" "todo s = []"
    using s(2) by (simp_all add: all_done_def)
  then have "length (past s) = 1"
    and "map tx (past s) @ [tx (client (proxies (now s) ! 0))] = map delivered (take (Suc (length (past s))) (hd two_errands # tl two_errands))"
    and "proxyState (nodes (now s) ! 0) = IDLE"
    using shared_exchange_safe [OF ok idle _ s(1)] by (auto simp: two_errands_def)
  then show ?thesis
    using s(1) by (intro exI [of _ s]) (auto simp: two_errands_def delivered_def)
qed

text \<open>
  C10: the exchange over shared memory always ends, whatever it is used for: a run of it for any list
  of clients, in any interleaving, has fewer steps than 20 for every byte of the responses and 195
  more for every request, and from every reachable world it can be completed, with every client
  answered and every worker idle, so that nobody waits for ever.
\<close>

theorem shared_exchange_live:
  assumes "\<forall>e \<in> set (e # es). errand_ok al reply e" and "idle_rest rest" and "0 < m"
    and "(serial_step al reply ^^ i) (start_serial m rest e es) s"
  shows "i < sum_list (map effort (e # es)) \<and>
    (\<exists>s'. (serial_step al reply)\<^sup>*\<^sup>* s s' \<and> all_done (e # es) s' \<and> list_all (\<lambda>w. wpc w = W_Idle) (workers (now s')))"
proof -
  have "txo (e_client e) = []"
    using assms(1) by (simp add: errand_ok_def)
  then obtain k where k: "k < sum_list (map effort (e # es))" "on_errands m rest (e # es) (start_serial m rest e es) k"
    using serial_start [OF assms(3)] by blast
  then obtain l where "on_errands m rest (e # es) s l" "i + l \<le> k"
    using serial_counted [OF k(2) assms(1,2,4)] by blast
  then show ?thesis
    using k(1) serial_ends [OF _ assms(1,2)] by fastforce
qed

theorem shared_exchange_live_witness:
  "\<exists>s. (serial_step (\<lambda>n. 0 \<le> n) (\<lambda>b. Inr (''HTTP/1.0 200 OK'', ''body'')))\<^sup>*\<^sup>*
     (start_serial 10 [] (hd two_errands) (tl two_errands)) s \<and> map tx (past s) = [''HTTP/1.0 200 OKbody''] \<and>
     tx (client (proxies (now s) ! 0)) = ''earlierHTTP/1.0 200 OKbody''"
proof -
  have "\<forall>e \<in> set (hd two_errands # tl two_errands). errand_ok (\<lambda>n. 0 \<le> n) (\<lambda>b. Inr (''HTTP/1.0 200 OK'', ''body'')) e"
    using two_errands_ok by (simp add: two_errands_def)
  then obtain s where "(serial_step (\<lambda>n. 0 \<le> n) (\<lambda>b. Inr (''HTTP/1.0 200 OK'', ''body'')))\<^sup>*\<^sup>*
      (start_serial 10 [] (hd two_errands) (tl two_errands)) s" "all_done (hd two_errands # tl two_errands) s"
    using shared_exchange_live [of "hd two_errands" "tl two_errands" _ _ "[]" 10 0] by (fastforce simp: idle_rest_def)
  then show ?thesis
    by (intro exI [of _ s]) (auto simp: all_done_def two_errands_def delivered_def)
qed

end
