(* ===== verification/ServerShared.thy ===== *)
theory ServerShared
  imports ServerServes Serial
begin

text \<open>
  The optimised server as a whole (src/server.c with -o): the server of ServerRun.thy whose main
  thread looks for a request of the proxy in shared memory before every \<open>accept\<close>, and whose workers
  take the jobs that come of it next to those of the sockets, together with the proxy's threads of
  Shared.thy on the other side of the memory, one of them with client after client. A run of it is a run of the exchange to the proxy and
  keeps what the server promises its clients; what was proved of each holds of both at once. That the
  proxy gets its answer is ServerShares.thy.
\<close>

section \<open>The state and the steps\<close>

text \<open>
  \<open>asked\<close> has the clients of the proxy that are still to come and \<open>answered\<close> those before; \<open>begun\<close> tells
  whether a worker with a job of the shared memory has taken it up.
\<close>

record shared_server =
  srv :: server_state
  shm :: world
  asked :: "(buffer \<times> sock) list"
  answered :: "sock list"
  begun :: "bool list"

definition start_shared :: "nat \<Rightarrow> (nat \<Rightarrow> sock) \<Rightarrow> arrival list \<Rightarrow> bool list \<Rightarrow> serial \<Rightarrow> shared_server" where
  "start_shared n clients cs gs x = \<lparr>srv = start_server n clients cs gs, shm = now x, asked = todo x, answered = past x,
     begun = replicate n False\<rparr>"

text \<open>What the threads of the proxy see.\<close>

definition exchange_of :: "shared_server \<Rightarrow> serial" where
  "exchange_of s = \<lparr>now = shm s, todo = asked s, past = answered s\<rparr>"

lemma exchange_of_simps [simp]:
  "now (exchange_of s) = shm s" "todo (exchange_of s) = asked s" "past (exchange_of s) = answered s"
  "exchange_of (s\<lparr>srv := b\<rparr>) = exchange_of s" "exchange_of (s\<lparr>begun := bs\<rparr>) = exchange_of s"
  "exchange_of (s\<lparr>shm := w\<rparr>) = (exchange_of s)\<lparr>now := w\<rparr>" "exchange_of (start_shared n clients cs gs x) = x"
  by (simp_all add: exchange_of_def start_shared_def)

definition with_exchange :: "serial result option \<Rightarrow> shared_server \<Rightarrow> shared_server result option" where
  "with_exchange r s = map_option (\<lambda>x. bindR x (\<lambda>b. Inr (s\<lparr>shm := now b, asked := todo b, answered := past b\<rparr>))) r"

definition with_srv :: "server_state result option \<Rightarrow> shared_server \<Rightarrow> shared_server result option" where
  "with_srv r s = map_option (\<lambda>x. bindR x (\<lambda>b. Inr (s\<lparr>srv := b\<rparr>))) r"

definition with_shm :: "world result option \<Rightarrow> (world \<Rightarrow> shared_server) \<Rightarrow> shared_server result option" where
  "with_shm r f = map_option (\<lambda>x. bindR x (\<lambda>w. Inr (f w))) r"

lemma with_srv_iff [simp]:
  "with_srv r s = Some (Inr s') \<longleftrightarrow> (\<exists>b. r = Some (Inr b) \<and> s' = s\<lparr>srv := b\<rparr>)"
  "with_srv r s = Some (Inl e) \<longleftrightarrow> r = Some (Inl e)"
  by (cases r; cases "the r"; auto simp: with_srv_def)+

lemma with_shm_iff [simp]:
  "with_shm r f = Some (Inr s') \<longleftrightarrow> (\<exists>w. r = Some (Inr w) \<and> s' = f w)"
  "with_shm r f = Some (Inl e) \<longleftrightarrow> r = Some (Inl e)"
  by (cases r; cases "the r"; auto simp: with_shm_def)+

lemma with_exchange_iff [simp]:
  "with_exchange r s = Some (Inr s') \<longleftrightarrow>
     (\<exists>b. r = Some (Inr b) \<and> s' = s\<lparr>shm := now b, asked := todo b, answered := past b\<rparr>)"
  "with_exchange r s = Some (Inl e) \<longleftrightarrow> r = Some (Inl e)"
  by (cases r; cases "the r"; auto simp: with_exchange_def)+

text \<open>
  The poll, with the proxy's flag \<open>ONLINE\<close>: the node that waits is marked and a job goes on its way to
  the list; otherwise main goes on to \<open>accept\<close>, which does not block: without a client it fails with
  EAGAIN.
\<close>

definition polled :: "main_stage \<Rightarrow> server_state \<Rightarrow> server_state" where
  "polled m b = b\<lparr>team := (team b)\<lparr>main_at := m\<rparr>\<rparr>"

definition nonblocking :: "server_state \<Rightarrow> server_state" where
  "nonblocking b = (if main_at (team b) = Accepting \<and> incoming (team b) = []
     then b\<lparr>team := (team b)\<lparr>incoming := [No_Client]\<rparr>\<rparr> else b)"

definition shared_main_step :: "shared_server \<Rightarrow> shared_server result option" where
  "shared_main_step s =
     (if handler (team (srv s)) = None \<and> main_at (team (srv s)) = Polling then
        (case mstep (shm s) of
           None \<Rightarrow> Some (Inr (s\<lparr>srv := polled Entering (srv s)\<rparr>))
         | Some (Inl e) \<Rightarrow> Some (Inl e)
         | Some (Inr w) \<Rightarrow> Some (Inr (s\<lparr>srv := polled (main_stage.Got (0, SHARED)) (srv s), shm := w\<rparr>)))
      else with_srv (server_main_step (nonblocking (srv s))) s)"

text \<open>A worker with a job of the shared memory makes the steps of \<open>wstep\<close> until it is idle again.\<close>

abbreviation shared_job :: "worker_stage \<Rightarrow> bool" where
  "shared_job w \<equiv> job_of SHARED w \<noteq> None"

definition shared_worker_step :: "filesystem \<Rightarrow> allocator \<Rightarrow> char \<times> char \<Rightarrow> nat \<Rightarrow> shared_server \<Rightarrow>
  shared_server result option" where
  "shared_worker_step fs al junk i s =
     (if i < length (stages (team (srv s))) \<and> shared_job (stages (team (srv s)) ! i) \<and>
         \<not> (begun s ! i \<and> wpc (workers (shm s) ! i) = W_Idle)
      then with_shm (wstep al (checkAndSend fs al junk) i (shm s)) (\<lambda>w. s\<lparr>shm := w, begun := (begun s)[i := True]\<rparr>)
      else with_srv (server_worker_step fs al junk i (srv s)) (s\<lparr>begun := (begun s)[i := False]\<rparr>))"

datatype party = Server mover | Proxy_Thread nat | Proxy_Next

fun shared_moves :: "filesystem \<Rightarrow> allocator \<Rightarrow> char \<times> char \<Rightarrow> party \<Rightarrow> shared_server \<Rightarrow> shared_server result option" where
  "shared_moves fs al junk (Server M_Main) s = shared_main_step s"
| "shared_moves fs al junk (Server M_Signal) s = with_srv (server_moves fs al junk M_Signal (srv s)) s"
| "shared_moves fs al junk (Server M_Handler) s = with_srv (server_moves fs al junk M_Handler (srv s)) s"
| "shared_moves fs al junk (Server (M_Worker i)) s = shared_worker_step fs al junk i s"
| "shared_moves fs al junk (Proxy_Thread i) s = with_shm (pstep al i (shm s)) (\<lambda>w. s\<lparr>shm := w\<rparr>)"
| "shared_moves fs al junk Proxy_Next s = with_exchange (next_request (exchange_of s)) s"

lemma party_cases:
  obtains (main) "m = Server M_Main" | (signal) "m = Server M_Signal" | (handler) "m = Server M_Handler"
    | (worker) i where "m = Server (M_Worker i)" | (proxy) i where "m = Proxy_Thread i" | (other) "m = Proxy_Next"
  by (metis mover.exhaust party.exhaust)

inductive shared_step :: "filesystem \<Rightarrow> allocator \<Rightarrow> shared_server \<Rightarrow> shared_server \<Rightarrow> bool" for fs al where
  shared_moved: "shared_moves fs al junk m s = Some (Inr s') \<Longrightarrow> shared_step fs al s s'"

inductive_cases shared_stepE: "shared_step fs al s s'"

fun shared_run :: "filesystem \<Rightarrow> allocator \<Rightarrow> char \<times> char \<Rightarrow> party list \<Rightarrow> shared_server \<Rightarrow> shared_server option" where
  "shared_run fs al junk [] s = Some s"
| "shared_run fs al junk (m # ms) s =
     (case shared_moves fs al junk m s of Some (Inr s') \<Rightarrow> shared_run fs al junk ms s' | _ \<Rightarrow> None)"

lemma shared_run_reaches: "shared_run fs al junk ms s = Some s' \<Longrightarrow> (shared_step fs al)\<^sup>*\<^sup>* s s'"
  by (induction ms arbitrary: s)
    (auto split: option.splits sum.splits intro: shared_moved converse_rtranclp_into_rtranclp)

section \<open>The two sides of a step\<close>

text \<open>A step is one of the exchange to the memory and the proxy, or does nothing to them.\<close>

lemma shared_step_world:
  assumes "shared_moves fs al junk m s = Some (Inr s')"
  shows "exchange_of s' = exchange_of s \<or> next_request (exchange_of s) = Some (Inr (exchange_of s')) \<or>
    (\<exists>a w. act al (checkAndSend fs al junk) a (shm s) = Some (Inr w) \<and> exchange_of s' = (exchange_of s)\<lparr>now := w\<rparr>)"
proof (cases m rule: party_cases)
  case main
  then show ?thesis
    using assms by (auto simp: shared_main_step_def intro!: exI [of _ Main] split: if_splits option.splits sum.splits)
next
  case (worker i)
  then show ?thesis
    using assms by (auto simp: shared_worker_step_def exchange_of_def intro!: exI [of _ "Worker i"] split: if_splits)
next
  case (proxy i)
  then show ?thesis
    using assms by (auto intro!: exI [of _ "Proxy i"])
next
  case other
  then show ?thesis
    using assms by (auto simp: exchange_of_def)
qed (use assms in auto)

lemma same_reply: "checkAndSend fs al junk = checkAndSend fs al (NUL, NUL)"
  using checkAndSend_junk by blast

lemma shared_reach_serial:
  "(shared_step fs al)\<^sup>*\<^sup>* s s' \<Longrightarrow> (serial_step al (checkAndSend fs al (NUL, NUL)))\<^sup>*\<^sup>* (exchange_of s) (exchange_of s')"
proof (induction rule: rtranclp_induct)
  case (step t u)
  obtain junk m where m: "shared_moves fs al junk m t = Some (Inr u)"
    using step.hyps(2) by (auto elim: shared_stepE)
  have "exchange_of u = exchange_of t \<or> serial_step al (checkAndSend fs al (NUL, NUL)) (exchange_of t) (exchange_of u)"
    using shared_step_world [OF m] same_request [of al "checkAndSend fs al (NUL, NUL)" _ "exchange_of t"]
      other_request same_reply [of fs al junk] by fastforce
  then show ?case
    using step.IH by auto
qed simp

text \<open>The server's side keeps what the server keeps.\<close>

lemma pool_inv_incoming [simp]: "pool_inv (p\<lparr>incoming := cs\<rparr>) = pool_inv p"
proof -
  have "turns_left (p\<lparr>incoming := cs\<rparr>) = turns_left p"
    unfolding turns_left_def by (simp cong: option.case_cong handler_stage.case_cong)
  then show ?thesis
    by (simp add: pool_inv_def main_holds_def about_to_wake_def)
qed

lemma nonblocking_inv:
  assumes "server_inv A clients b"
  shows "server_inv A clients (nonblocking b)"
proof (cases "main_at (team b) = Accepting \<and> incoming (team b) = []")
  case True
  have "pool_inv ((team b)\<lparr>incoming := [No_Client]\<rparr>)"
    using assms by (simp add: server_inv_def)
  moreover have "seen ((team b)\<lparr>incoming := [No_Client]\<rparr>) = seen (team b)"
    by (simp add: seen_of_def hand_def)
  ultimately show ?thesis
    using True same_seen_inv [OF assms] by (simp add: nonblocking_def)
qed (use assms in \<open>auto simp: nonblocking_def\<close>)

lemma pool_inv_polled:
  assumes "pool_inv p" and "main_at p = Polling" and "handler p = None" and "m = Entering \<or> m = main_stage.Got (0, SHARED)"
  shows "pool_inv (p\<lparr>main_at := m\<rparr>)"
proof -
  let ?cs = "\<lambda>m. if m = Entering then [] else [Shared_Request]"
  have "main_step (p\<lparr>incoming := ?cs m\<rparr>) = Some (Inr (p\<lparr>main_at := m, incoming := []\<rparr>))"
    using assms(2-4) by (auto simp: main_step_def)
  moreover have "pool_inv (p\<lparr>incoming := ?cs m\<rparr>)"
    unfolding pool_inv_incoming by (rule assms(1))
  ultimately have "pool_inv (p\<lparr>main_at := m, incoming := []\<rparr>)"
    using pool_step_inv [OF by_main] by blast
  moreover have "p\<lparr>main_at := m, incoming := []\<rparr> = (p\<lparr>main_at := m\<rparr>)\<lparr>incoming := []\<rparr>"
    by simp
  ultimately show ?thesis
    by (metis pool_inv_incoming)
qed

lemma polled_inv:
  assumes "server_inv A clients b" and "main_at (team b) = Polling" and "handler (team b) = None"
    and "m = Entering \<or> m = main_stage.Got (0, SHARED)"
  shows "server_inv A clients (polled m b)"
proof -
  have "pool_inv (team b)"
    using assms(1) by (simp add: server_inv_def)
  then have "pool_inv ((team b)\<lparr>main_at := m\<rparr>)"
    using assms(2-4) by (rule pool_inv_polled)
  moreover have "seen ((team b)\<lparr>main_at := m\<rparr>) = seen (team b)"
    using assms(2,4) by (auto simp: seen_of_def hand_def)
  ultimately show ?thesis
    using same_seen_inv [OF assms(1)] by (simp add: polled_def)
qed

lemma shared_moves_inv:
  assumes "shared_moves fs al junk m s = Some (Inr s')" and "server_inv (got_answer fs al clients) clients (srv s)"
    and "serving fs al clients"
  shows "server_inv (got_answer fs al clients) clients (srv s')"
proof (cases m rule: party_cases)
  case main
  then show ?thesis
    using assms polled_inv [OF assms(2)] server_moves_inv [OF _ nonblocking_inv [OF assms(2)] assms(3), of junk M_Main]
    by (auto simp: shared_main_step_def split: if_splits option.splits sum.splits)
next
  case (worker i)
  then show ?thesis
    using assms server_moves_inv [OF _ assms(2,3), of junk "M_Worker i"]
    by (auto simp: shared_worker_step_def split: if_splits)
next
  case signal
  then show ?thesis
    using assms(1) server_moves_inv [OF _ assms(2,3), of junk M_Signal] by (auto simp del: server_moves.simps)
next
  case handler
  then show ?thesis
    using assms(1) server_moves_inv [OF _ assms(2,3), of junk M_Handler] by (auto simp del: server_moves.simps)
qed (use assms in auto)

lemma shared_reach_inv:
  assumes "(shared_step fs al)\<^sup>*\<^sup>* s s'" and "server_inv (got_answer fs al clients) clients (srv s)" and "serving fs al clients"
  shows "server_inv (got_answer fs al clients) clients (srv s')"
  using assms(1)
proof (induction rule: rtranclp_induct)
  case (step t u)
  then show ?case
    using shared_moves_inv [OF _ _ assms(3)] by (auto elim: shared_stepE)
qed (rule assms(2))

lemma shared_reached:
  assumes "(shared_step fs al)\<^sup>*\<^sup>* (start_shared n clients cs gs w) s" and "serving fs al clients"
  shows "server_inv (got_answer fs al clients) clients (srv s)"
  using shared_reach_inv [OF assms(1) _ assms(2)] start_server_inv by (simp add: start_shared_def)

text \<open>A fault is one of the server or one of the exchange.\<close>

lemma shared_faults:
  assumes "shared_moves fs al junk m s = Some (Inl e)" and inv: "server_inv (got_answer fs al clients) clients (srv s)"
    and "serving fs al clients"
  shows "e = Exit_With SOCKET_FAILURE \<or> (\<exists>a. act al (checkAndSend fs al (NUL, NUL)) a (shm s) = Some (Inl e))"
proof -
  note faults = server_moves_faults [OF _ inv assms(3), of junk]
  show ?thesis
  proof (cases m rule: party_cases)
    case main
    then show ?thesis
      using assms(1) server_moves_faults [OF _ nonblocking_inv [OF inv] assms(3), of junk M_Main e]
      by (auto simp: shared_main_step_def intro!: exI [of _ Main] split: if_splits option.splits sum.splits)
  next
    case (worker i)
    then show ?thesis
      using assms(1) faults [of "M_Worker i" e] same_reply [of fs al junk]
      by (auto simp: shared_worker_step_def intro!: exI [of _ "Worker i"] split: if_splits)
  next
    case (proxy i)
    then show ?thesis
      using assms(1) by (auto intro!: exI [of _ "Proxy i"])
  next
    case other
    then show ?thesis
      using assms(1) by (auto simp: next_request_def split: list.splits prod.splits if_splits)
  next
    case signal
    then show ?thesis
      using assms(1) faults [of M_Signal e] by (auto simp del: server_moves.simps)
  next
    case handler
    then show ?thesis
      using assms(1) faults [of M_Handler e] by (auto simp del: server_moves.simps)
  qed
qed

end
