(* ===== verification/Coupling.thy ===== *)
theory Coupling
  imports ServerShared
begin

text \<open>
  How the two halves of the optimised server hang together: every token of the shared memory is a job
  that main holds, that is on the list or that a worker has been given, and a worker is at work on the
  memory only while it has such a job. Every step of any thread keeps that.
\<close>

section \<open>Jobs and requests\<close>

text \<open>The workers that have a job of the shared memory and have not taken it up yet.\<close>

definition due :: "int option list \<Rightarrow> bool list \<Rightarrow> nat" where
  "due js bs = length (filter (\<lambda>(j, b). j \<noteq> None \<and> \<not> b) (zip js bs))"

lemma due_update:
  assumes "i < length js" and "length bs = length js"
  shows "due (js[i := j]) (bs[i := b]) + (if js ! i \<noteq> None \<and> \<not> bs ! i then 1 else 0) =
    due js bs + (if j \<noteq> None \<and> \<not> b then 1 else 0)"
  using length_filter_update [of i "zip js bs" "\<lambda>(j, b). j \<noteq> None \<and> \<not> b" "(j, b)"] assms
  by (simp add: due_def zip_update)

lemma due_some:
  assumes "0 < due js bs"
  shows "\<exists>i < length js. js ! i \<noteq> None \<and> \<not> bs ! i"
proof -
  obtain j b where "(j, b) \<in> set (zip js bs)" "j \<noteq> None" "\<not> b"
    using assms by (auto simp: due_def filter_empty_conv)
  then show ?thesis
    by (auto simp: in_set_zip)
qed

definition coupling :: "int option list \<Rightarrow> bool list \<Rightarrow> wthread list \<Rightarrow> bool" where
  "coupling js bs ws \<longleftrightarrow> length bs = length js \<and> length ws = length js \<and>
     (\<forall>i < length js. (bs ! i \<longrightarrow> js ! i \<noteq> None) \<and> (wpc (ws ! i) \<noteq> W_Idle \<longrightarrow> bs ! i))"

text \<open>Every token of the shared memory is a job: on the list, in main's hand or with a worker.\<close>

definition coupled :: "shared_server \<Rightarrow> bool" where
  "coupled s \<longleftrightarrow> cok_ample (queue (team (srv s))) \<and>
     (case seen_of SHARED (team (srv s)) of (g, q, js, h) \<Rightarrow>
        coupling js (begun s) (workers (shm s)) \<and>
        tokens (shm s) = length q + length h + due js (begun s))"

lemma coupled_same:
  "coupled s \<Longrightarrow> seen_of SHARED (team b) = seen_of SHARED (team (srv s)) \<Longrightarrow> cok_ample (queue (team b)) \<Longrightarrow>
     coupled (s\<lparr>srv := b\<rparr>)"
  by (simp add: coupled_def)

lemma pool_step_ample:
  assumes "pool_step p p'" and "cok_ample (queue p)"
  shows "cok_ample (queue p')"
proof -
  have put: "cok_ample (queue p')" if "put_job x p = Inr p'" for x p'
    using cl.put_spec [OF assms(2), of x] that by (auto simp: put_job_def)
  have get: "cok_ample q" if "cget (queue p) = Inr (x, q)" "\<not> isEmpty (fst (queue p))" for x q
    using cl.get_spec [OF assms(2)] cl.vacant_iff [OF assms(2)] that by (cases "cheld (queue p)") fastforce+
  show ?thesis
    using assms(1)
  proof (rule pool_stepE)
    assume "main_step p = Some (Inr p')"
    then show ?thesis
      using assms(2) put
      by (cases "main_at p") (auto simp: main_step_def result_simps split: if_splits list.splits arrival.splits)
  next
    assume "handler_step p = Some (Inr p')"
    then show ?thesis
      using assms(2) put
      by (cases "handler p"; cases "the (handler p)") (auto simp: handler_step_def result_simps split: if_splits)
  next
    fix i assume "worker_pool_step i p = Some (Inr p')"
    then show ?thesis
      using assms(2) get
      by (cases "stages p ! i") (auto simp: worker_pool_step_def result_simps split: if_splits)
  qed (use assms(2) in \<open>auto simp: catchInterrupt_def split: if_splits\<close>)
qed

text \<open>What the steps of the exchange do to the tokens and the workers.\<close>

lemma mstep_frame: "mstep w = Some (Inr w') \<Longrightarrow> workers w' = workers w \<and> tokens w' = Suc (tokens w)"
  by (auto simp: mstep_def split: sum.splits option.splits if_splits)

lemma pstep_frame: "pstep al i w = Some (Inr w') \<Longrightarrow> workers w' = workers w \<and> tokens w' = tokens w"
  by (auto simp: pstep_def Let_def result_simps split: if_splits)

lemma wstep_frame:
  assumes "wstep al reply i w = Some (Inr w')"
  shows "i < length (workers w) \<and> workers w' = (workers w)[i := workers w' ! i] \<and>
    (if wpc (workers w ! i) = W_Idle then tokens w = Suc (tokens w') else tokens w' = tokens w)"
  using assms
  by (cases "tokens w") (auto simp: wstep_def Let_def result_simps split: if_splits option.splits)

section \<open>Every step keeps them together\<close>

lemma start_coupled: "length (workers (now x)) = n \<Longrightarrow> (\<forall>s \<in> set (workers (now x)). wpc s = W_Idle) \<Longrightarrow> tokens (now x) = 0 \<Longrightarrow>
  coupled (start_shared n clients cs [] x)"
  by (auto simp: coupled_def coupling_def start_shared_def start_server_def start_pool_def seen_of_def hand_def due_def
      job_of_def cok_ample_def cok_def linked_def cheld_def items_def walk.simps vals_def set_zip)

lemma coupled_main:
  assumes "shared_main_step s = Some (Inr s')" and "coupled s" and "pool_inv (team (srv s))"
  shows "coupled s'"
proof (cases "handler (team (srv s)) = None \<and> main_at (team (srv s)) = Polling")
  case True
  then show ?thesis
    using assms(1,2) mstep_frame [of "shm s"]
    by (auto simp: shared_main_step_def coupled_def polled_def seen_of_def hand_def split: option.splits sum.splits)
next
  case False
  let ?b = "nonblocking (srv s)"
  obtain b where b: "server_main_step ?b = Some (Inr b)" "s' = s\<lparr>srv := b\<rparr>"
    using assms(1) False by (auto simp: shared_main_step_def)
  then obtain p where p: "main_step (team ?b) = Some (Inr p)" "team b = p"
    using main_effect_cases by (auto simp: server_main_step_def)
  have same: "seen_of SHARED (team ?b) = seen_of SHARED (team (srv s))" "queue (team ?b) = queue (team (srv s))"
    "pool_inv (team ?b)" "main_at (team ?b) = main_at (team (srv s))" "handler (team ?b) = handler (team (srv s))"
    using assms(3) by (auto simp: nonblocking_def seen_of_def hand_def)
  have q: "cok_ample (queue (team (srv s)))"
    using assms(2) by (simp add: coupled_def)
  then have q': "cok_ample (queue p)"
    using pool_step_ample [OF by_main [OF p(1)]] same(2) by simp
  consider (adding) x where "main_at (team ?b) = Adding x" | (accepting) "main_at (team ?b) = Accepting"
    | (quiet) "main_at (team ?b) \<noteq> Accepting" "\<nexists>x. main_at (team ?b) = Adding x" "main_at (team ?b) \<noteq> Polling"
    using False p(1) same(4,5) by (auto simp: main_step_def)
  then show ?thesis
  proof cases
    case adding
    have "granted (snd (queue (team ?b)))"
      using q same(2) cl.never_refused by simp
    then show ?thesis
      using adding_seen [where a = SHARED, OF p(1) adding same(3)] adding assms(2) same(1,4) q' b(2) p(2)
      by (auto simp: coupled_def seen_of_def)
  next
    case accepting
    then have "seen_of SHARED p = seen_of SHARED (team ?b)"
      using accept_seen [where a = SHARED, OF p(1)] by (auto simp: seen_of_def)
    then show ?thesis
      using coupled_same [OF assms(2)] b(2) p(2) q' same(1) by simp
  next
    case quiet
    then have "seen_of SHARED p = seen_of SHARED (team ?b)"
      using main_seen [where a = SHARED, OF p(1)] by simp
    then show ?thesis
      using coupled_same [OF assms(2)] b(2) p(2) q' same(1) by simp
  qed
qed

text \<open>The parts of it at a worker.\<close>

lemma coupled_parts:
  assumes "coupled s"
  obtains q js h where "cok_ample (queue (team (srv s)))" and "of_kind SHARED (cheld (queue (team (srv s)))) = q"
    and "map (job_of SHARED) (stages (team (srv s))) = js" and "hand SHARED (team (srv s)) = h"
    and "coupling js (begun s) (workers (shm s))" and "tokens (shm s) = length q + length h + due js (begun s)"
  using assms by (auto simp: coupled_def seen_of_def)

lemma coupled_exchange:
  assumes "coupled s" and "wstep al reply i (shm s) = Some (Inr w)" and "shared_job (stages (team (srv s)) ! i)"
    and "\<not> (begun s ! i \<and> wpc (workers (shm s) ! i) = W_Idle)"
  shows "coupled (s\<lparr>shm := w, begun := (begun s)[i := True]\<rparr>)"
proof -
  obtain q js h where c: "cok_ample (queue (team (srv s)))" "of_kind SHARED (cheld (queue (team (srv s)))) = q"
    "map (job_of SHARED) (stages (team (srv s))) = js" "hand SHARED (team (srv s)) = h"
    "coupling js (begun s) (workers (shm s))" "tokens (shm s) = length q + length h + due js (begun s)"
    using coupled_parts [OF assms(1)] .
  note f = wstep_frame [OF assms(2)]
  then have i: "i < length js" "js ! i \<noteq> None"
    using c(3,5) assms(3) by (auto simp: coupling_def)
  then have d: "due js ((begun s)[i := True]) + (if \<not> begun s ! i then 1 else 0) = due js (begun s)"
    using due_update [of i js "begun s" "js ! i" True] c(5) by (simp add: coupling_def)
  have "begun s ! i \<longleftrightarrow> wpc (workers (shm s) ! i) \<noteq> W_Idle"
    using c(5) i(1) assms(4) by (auto simp: coupling_def)
  then have "tokens w = length q + length h + due js ((begun s)[i := True])"
    using d c(6) f by (auto split: if_splits)
  moreover have "coupling js ((begun s)[i := True]) ((workers (shm s))[i := workers w ! i])"
    using c(5) i by (auto simp: coupling_def nth_list_update)
  ultimately show ?thesis
    using c f by (simp add: coupled_def seen_of_def)
qed

lemma coupled_pool:
  assumes "coupled s" and p: "worker_pool_step i (team (srv s)) = Some (Inr p)" and "pool_inv (team (srv s))"
    and "shared_job (stages (team (srv s)) ! i) \<Longrightarrow> begun s ! i \<and> wpc (workers (shm s) ! i) = W_Idle" and "team b = p"
  shows "coupled (s\<lparr>srv := b, begun := (begun s)[i := False]\<rparr>)"
proof -
  obtain q js h where c: "cok_ample (queue (team (srv s)))" "of_kind SHARED (cheld (queue (team (srv s)))) = q"
    "map (job_of SHARED) (stages (team (srv s))) = js" "hand SHARED (team (srv s)) = h"
    "coupling js (begun s) (workers (shm s))" "tokens (shm s) = length q + length h + due js (begun s)"
    using coupled_parts [OF assms(1)] .
  have i: "i < length js" "js ! i = job_of SHARED (stages (team (srv s)) ! i)"
    using p c(3) by (auto simp: worker_pool_step_def split: if_splits)
  have bs: "length (begun s) = length js"
    using c(5) by (simp add: coupling_def)
  have idle: "wpc (workers (shm s) ! i) = W_Idle"
    using assms(4) c(5) i unfolding coupling_def by metis
  have keep: "coupling (js[i := j]) ((begun s)[i := False]) (workers (shm s))" for j
    using c(5) i(1) idle by (auto simp: coupling_def nth_list_update)
  have none: "js ! i = None \<Longrightarrow> \<not> begun s ! i"
    using c(5) i(1) by (auto simp: coupling_def)
  note d = due_update [OF i(1) bs]
  have q': "cok_ample (queue p)"
    using pool_step_ample [OF by_worker [OF p]] c(1) by simp
  show ?thesis
  proof (cases "js ! i")
    case (Some x)
    then have "seen_of SHARED p = (of_kind SHARED (given (team (srv s))), q, js[i := None], h)"
      using worker_returns_seen [OF p, of SHARED x] i(2) c(2-4) by simp
    moreover have "begun s ! i"
      using assms(4) Some i(2) by simp
    ultimately show ?thesis
      using keep [of None] d [of None False] c(6) q' assms(5) by (simp add: coupled_def)
  next
    case None
    then have "job_of SHARED (stages (team (srv s)) ! i) = None"
      using i(2) by simp
    from worker_takes_seen [OF p assms(3) this] show ?thesis
    proof
      assume "seen_of SHARED p = seen_of SHARED (team (srv s))"
      then show ?thesis
        using keep [of None] d [of None False] None none c q' assms(5) list_update_id [of js i]
        by (simp add: coupled_def seen_of_def)
    next
      assume "\<exists>x q. i < length (stages (team (srv s))) \<and> of_kind SHARED (cheld (queue (team (srv s)))) = x # q \<and>
        seen_of SHARED p = (of_kind SHARED (given (team (srv s))) @ [x], q, (map (job_of SHARED) (stages (team (srv s))))[i := Some x],
          hand SHARED (team (srv s)))"
      then show ?thesis
        using keep d None none c q' assms(5) by (auto simp: coupled_def)
    qed
  qed
qed

lemma server_worker_cases:
  assumes "server_worker_step fs al junk i b = Some (Inr b')"
  shows "worker_pool_step i (team b) = Some (Inr (team b')) \<or>
    team b' = team b \<and> i < length (stages (team b)) \<and> job_of SHARED (stages (team b) ! i) = None"
  using assms
  by (auto simp: server_worker_step_def Let_def job_of_def result_simps split: option.splits if_splits worker_stage.splits prod.splits)

lemma coupled_worker:
  assumes "shared_worker_step fs al junk i s = Some (Inr s')" and "coupled s" and "pool_inv (team (srv s))"
  shows "coupled s'"
proof (cases "i < length (stages (team (srv s))) \<and> shared_job (stages (team (srv s)) ! i) \<and>
    \<not> (begun s ! i \<and> wpc (workers (shm s) ! i) = W_Idle)")
  case True
  then show ?thesis
    using assms(1) coupled_exchange [OF assms(2)] by (auto simp: shared_worker_step_def)
next
  case False
  then obtain b where b: "server_worker_step fs al junk i (srv s) = Some (Inr b)" "s' = s\<lparr>srv := b, begun := (begun s)[i := False]\<rparr>"
    using assms(1) by (auto simp: shared_worker_step_def)
  from server_worker_cases [OF b(1)] show ?thesis
  proof
    assume p: "worker_pool_step i (team (srv s)) = Some (Inr (team b))"
    then have "i < length (stages (team (srv s)))"
      by (auto simp: worker_pool_step_def split: if_splits)
    then show ?thesis
      unfolding b(2) using False by (intro coupled_pool [OF assms(2) p assms(3)]) auto
  next
    assume same: "team b = team (srv s) \<and> i < length (stages (team (srv s))) \<and> job_of SHARED (stages (team (srv s)) ! i) = None"
    then have "\<not> begun s ! i" "i < length (begun s)"
      using assms(2) by (auto simp: coupled_def coupling_def seen_of_def)
    then have "(begun s)[i := False] = begun s"
      using list_update_id [of "begun s" i] by simp
    then show ?thesis
      using same assms(2) b(2) by (simp add: coupled_def)
  qed
qed

lemma coupled_step:
  assumes "shared_moves fs al junk m s = Some (Inr s')" and "coupled s" and "pool_inv (team (srv s))"
  shows "coupled s'"
proof -
  have q: "cok_ample (queue (team (srv s)))"
    using assms(2) by (simp add: coupled_def)
  show ?thesis
  proof (cases m rule: party_cases)
    case main
    then show ?thesis
      using assms(1) coupled_main [OF _ assms(2,3)] by simp
  next
    case signal
    then obtain p where "catchInterrupt (team (srv s)) = Some (Inr p)" "s' = s\<lparr>srv := (srv s)\<lparr>team := p\<rparr>\<rparr>"
      using assms(1) by auto
    then show ?thesis
      using coupled_same [OF assms(2)] signal_seen pool_step_ample [OF by_signal _] q by simp
  next
    case handler
    then obtain p where p: "handler_step (team (srv s)) = Some (Inr p)" "s' = s\<lparr>srv := (srv s)\<lparr>team := p\<rparr>\<rparr>"
      using assms(1) by auto
    then show ?thesis
      using coupled_same [OF assms(2)] handler_seen [OF p(1) assms(3), of SHARED] pool_step_ample [OF by_handler [OF p(1)] q]
      by simp
  next
    case (worker i)
    then show ?thesis
      using assms(1) coupled_worker [OF _ assms(2,3)] by simp
  next
    case (proxy i)
    then show ?thesis
      using assms(1,2) pstep_frame [of al i "shm s"] by (auto simp: coupled_def)
  next
    case other
    then show ?thesis
      using assms(1,2) by (auto simp: coupled_def next_request_def split: list.splits prod.splits if_splits)
  qed
qed

end
