(* ===== verification/ServerShares.thy ===== *)
theory ServerShares
  imports Coupling Fetch
begin

text \<open>
  That the optimised server answers the proxy: from every reachable state, whatever the clients of the
  sockets did, a run leads on to the complete answer, as long as nobody has interrupted the server; and
  what becomes of a request when somebody does.
\<close>

section \<open>Arrivals without an error\<close>

text \<open>Every connection has a descriptor of its own, and \<open>accept\<close> never fails for good.\<close>

definition arriving :: "arrival list \<Rightarrow> int list" where
  "arriving cs = concat (map (\<lambda>x. case x of Client c \<Rightarrow> [c] | _ \<Rightarrow> []) cs)"

lemma arriving_simps [simp]:
  "arriving [] = []" "arriving (Client c # cs) = c # arriving cs" "arriving (Shared_Request # cs) = arriving cs"
  "arriving (No_Client # cs) = arriving cs" "arriving (Accept_Error # cs) = arriving cs"
  by (simp_all add: arriving_def)

definition calm :: "server_state \<Rightarrow> bool" where
  "calm b \<longleftrightarrow> Accept_Error \<notin> set (incoming (team b)) \<and> distinct (arriving (incoming (team b))) \<and>
     (\<forall>c \<in> set (arriving (incoming (team b))). table b c = None) \<and>
     (LOOP (team b) \<longrightarrow> main_at (team b) \<noteq> Left \<and> main_at (team b) \<noteq> Finished)"

lemma put_job_incoming: "put_job x p = Inr p' \<Longrightarrow> incoming p' = incoming p"
  by (auto simp: put_job_def result_simps)

lemma pool_frame:
  "worker_pool_step i p = Some (Inr p') \<Longrightarrow> incoming p' = incoming p \<and> LOOP p' = LOOP p \<and> main_at p' = main_at p"
  "handler_step p = Some (Inr p') \<Longrightarrow> incoming p' = incoming p \<and> LOOP p' = LOOP p \<and> main_at p' = main_at p"
  "catchInterrupt p = Some (Inr p') \<Longrightarrow> incoming p' = incoming p \<and> main_at p' = main_at p \<and> (LOOP p' \<longrightarrow> LOOP p)"
  by (auto simp: worker_pool_step_def handler_step_def catchInterrupt_def result_simps
      dest: put_job_incoming put_job_frame split: if_splits worker_stage.splits option.splits handler_stage.splits)

lemma calm_same:
  "calm b \<Longrightarrow> incoming p = incoming (team b) \<Longrightarrow> main_at p = main_at (team b) \<Longrightarrow> (LOOP p \<longrightarrow> LOOP (team b)) \<Longrightarrow>
     calm (b\<lparr>team := p\<rparr>)"
  by (simp add: calm_def)

lemma calm_main:
  assumes "server_main_step b = Some (Inr b')" and "calm b"
  shows "calm b'"
proof -
  obtain p where p: "main_step (team b) = Some (Inr p)" "main_effect (Some (Inr p)) b = Some (Inr b')"
    using assms(1) main_effect_cases by (metis server_main_step_def)
  show ?thesis
    using p assms(2)
    by (cases "main_at (team b)")
      (auto simp: main_step_def main_effect_def calm_def result_simps dest: put_job_incoming put_job_frame
        split: if_splits list.splits arrival.splits)
qed

lemma calm_nonblocking: "calm b \<Longrightarrow> calm (nonblocking b)"
  by (simp add: calm_def nonblocking_def)

lemma calm_polled: "calm b \<Longrightarrow> m \<noteq> Left \<Longrightarrow> m \<noteq> Finished \<Longrightarrow> calm (polled m b)"
  by (simp add: calm_def polled_def)

lemma calm_worker:
  assumes "server_worker_step fs al junk i b = Some (Inr b')" and "calm b"
  shows "calm b'"
  using assms pool_frame(1) [of i "team b"]
  by (auto simp: server_worker_step_def Let_def calm_def result_simps split: option.splits if_splits)

lemma calm_step:
  assumes "shared_moves fs al junk m s = Some (Inr s')" and "calm (srv s)"
  shows "calm (srv s')"
proof -
  show ?thesis
  proof (cases m rule: party_cases)
    case main
    then show ?thesis
      using assms calm_main [OF _ calm_nonblocking [OF assms(2)]] calm_polled [OF assms(2)]
      by (auto simp: shared_main_step_def split: if_splits option.splits sum.splits)
  next
    case (worker i)
    then show ?thesis
      using assms calm_worker [of fs al junk i "srv s", OF _ assms(2)] by (auto simp: shared_worker_step_def split: if_splits)
  qed (use assms calm_same [OF assms(2)] pool_frame(2,3) in auto)
qed

section \<open>A server that nobody has interrupted\<close>

definition ready :: "filesystem \<Rightarrow> allocator \<Rightarrow> (nat \<Rightarrow> sock) \<Rightarrow> shared_server \<Rightarrow> bool" where
  "ready fs al clients s \<longleftrightarrow> serving fs al clients \<and> server_inv (got_answer fs al clients) clients (srv s) \<and>
     coupled s \<and> calm (srv s) \<and> LOOP (team (srv s))"

lemma ready_pool:
  assumes "ready fs al clients s"
  shows "pool_inv (team (srv s))" "handler (team (srv s)) = None" "cok_ample (queue (team (srv s)))"
  using assms by (auto simp: ready_def server_inv_def pool_inv_def coupled_def)

lemma ready_unstopped:
  assumes "ready fs al clients s" and "w \<in> set (stages (team (srv s)))"
  shows "\<not> stopped w"
proof -
  let ?p = "team (srv s)"
  have inv: "given ?p @ cheld (queue ?p) = accepted ?p" "stops (accepted ?p) + turns_left ?p \<le> length (stages ?p)"
    "handler ?p = None" "LOOP ?p"
    using ready_pool [OF assms(1)] assms(1) by (simp_all add: pool_inv_def ready_def)
  have "turns_left ?p = length (stages ?p)"
    using inv(3,4) by (simp add: turns_left_def)
  then have "stops (accepted ?p) = 0"
    using inv(2) by linarith
  then have "stops (given ?p) = 0"
    unfolding inv(1) [symmetric] by (simp add: stops_append)
  then show ?thesis
    using ready_pool(1) [OF assms(1)] assms(2) by (auto simp: pool_inv_def filter_empty_conv)
qed

lemma main_step_LOOP: "main_step p = Some (Inr p') \<Longrightarrow> LOOP p' = LOOP p"
  by (cases "main_at p") (auto simp: main_step_def result_simps dest: put_job_frame split: if_splits list.splits arrival.splits)

lemma server_main_pool: "server_main_step b = Some (Inr b') \<Longrightarrow> main_step (team b) = Some (Inr (team b'))"
  using main_effect_cases by (metis server_main_step_def)

lemma ready_LOOP:
  assumes "shared_moves fs al junk m s = Some (Inr s')" and "m \<noteq> Server M_Signal"
  shows "LOOP (team (srv s')) = LOOP (team (srv s))"
proof -
  show ?thesis
  proof (cases m rule: party_cases)
    case main
    then show ?thesis
      using assms(1) main_step_LOOP [OF server_main_pool]
      by (auto simp: shared_main_step_def polled_def nonblocking_def split: if_splits option.splits sum.splits)
  next
    case (worker i)
    then show ?thesis
      using assms(1) server_worker_cases [of fs al junk i "srv s"] pool_frame(1) [of i "team (srv s)"]
      by (auto simp: shared_worker_step_def split: if_splits)
  qed (use assms pool_frame(2) in auto)
qed

lemma ready_step:
  assumes "shared_moves fs al junk m s = Some (Inr s')" and "m \<noteq> Server M_Signal" and "ready fs al clients s"
  shows "ready fs al clients s'"
  using assms shared_moves_inv [OF assms(1)] coupled_step [OF assms(1)] calm_step [OF assms(1)] ready_LOOP [OF assms(1,2)]
    ready_pool(1) by (auto simp: ready_def)

text \<open>Runs that leave the memory as it is.\<close>

definition quietly :: "filesystem \<Rightarrow> allocator \<Rightarrow> shared_server \<Rightarrow> shared_server \<Rightarrow> bool" where
  "quietly fs al s s' \<longleftrightarrow> (shared_step fs al)\<^sup>*\<^sup>* s s' \<and> shm s' = shm s"

lemma quietly_refl [simp]: "quietly fs al s s"
  by (simp add: quietly_def)

lemma quietly_move:
  "shared_moves fs al junk m s = Some (Inr t) \<Longrightarrow> shm t = shm s \<Longrightarrow> quietly fs al t u \<Longrightarrow> quietly fs al s u"
  by (auto simp: quietly_def intro: shared_moved converse_rtranclp_into_rtranclp)

section \<open>Main comes to the poll\<close>

fun main_rank :: "main_stage \<Rightarrow> nat" where
  "main_rank Head = 1" | "main_rank (Unlocking a) = (if a = SHARED then 8 else 2)"
| "main_rank (Added a) = (if a = SHARED then 9 else 3)" | "main_rank (Adding x) = (if snd x = SHARED then 10 else 4)"
| "main_rank (main_stage.Got x) = (if snd x = SHARED then 11 else 5)" | "main_rank Accepting = 6" | "main_rank Entering = 7"
| "main_rank _ = 0"

lemma main_goes_on:
  assumes "pool_inv p" and "handler p = None" and "LOOP p" and "Accept_Error \<notin> set (incoming p)"
    and "main_at p = Accepting \<Longrightarrow> incoming p \<noteq> []" and "\<And>x. main_at p = main_stage.Got x \<Longrightarrow> owner p = None"
    and "main_at p \<noteq> Polling" and "main_at p \<noteq> Left" and "main_at p \<noteq> Finished"
  shows "\<exists>p'. main_step p = Some (Inr p') \<and> main_rank (main_at p') < main_rank (main_at p)"
proof (cases "main_at p")
  case (Adding x)
  obtain p' where "put_job x p = Inr p'"
    using put_job_inv [OF assms(1)] by metis
  then show ?thesis
    using assms(2) Adding by (auto simp: main_step_def)
next
  case Accepting
  then have "\<not> eintr p"
    using assms(1,3) by (simp add: pool_inv_def)
  then show ?thesis
    using Accepting assms(2-5) by (cases "incoming p"; cases "hd (incoming p)") (auto simp: main_step_def)
qed (use assms in \<open>auto simp: main_step_def\<close>)

lemma main_moves:
  assumes "ready fs al clients s" and "main_at (team (srv s)) \<noteq> Polling"
    and "(\<exists>x. main_at (team (srv s)) = main_stage.Got x) \<longrightarrow> owner (team (srv s)) = None"
  shows "\<exists>s'. shared_moves fs al (NUL, NUL) (Server M_Main) s = Some (Inr s') \<and> shm s' = shm s \<and>
    main_rank (main_at (team (srv s'))) < main_rank (main_at (team (srv s)))"
proof -
  let ?b = "nonblocking (srv s)"
  have c: "calm (srv s)" "calm ?b" "LOOP (team (srv s))"
    using assms(1) calm_nonblocking by (auto simp: ready_def)
  have same: "main_at (team ?b) = main_at (team (srv s))" "LOOP (team ?b) = LOOP (team (srv s))"
    "owner (team ?b) = owner (team (srv s))" "handler (team ?b) = None" "pool_inv (team ?b)"
    "main_at (team ?b) = Accepting \<Longrightarrow> incoming (team ?b) \<noteq> []"
    using ready_pool [OF assms(1)] by (auto simp: nonblocking_def)
  have own: "owner (team ?b) = None" if "main_at (team ?b) = main_stage.Got x" for x
    using assms(3) same(1,3) that by metis
  have "\<exists>p'. main_step (team ?b) = Some (Inr p') \<and> main_rank (main_at p') < main_rank (main_at (team ?b))"
    by (rule main_goes_on [OF same(5,4) _ _ same(6) own]) (use c same(1,2) assms(2) in \<open>simp_all add: calm_def\<close>)
  then obtain p' where p: "main_step (team ?b) = Some (Inr p')" "main_rank (main_at p') < main_rank (main_at (team ?b))"
    by blast
  have "table ?b (fst x) = None" if "main_at (team ?b) = Accepting" "main_at p' = main_stage.Got x" for x
    using p(1) c(2) that by (auto simp: main_step_def calm_def split: if_splits list.splits arrival.splits)
  then obtain b' where "server_main_step ?b = Some (Inr b')" "team b' = p'"
    using p(1) by (cases "main_at (team ?b)"; cases "main_at p'") (auto simp: server_main_step_def main_effect_def)
  then show ?thesis
    using p(2) same(1) assms(2) by (auto simp: shared_main_step_def)
qed

text \<open>The worker that holds the mutex takes the first job or, without one, waits.\<close>

lemma tester_moves:
  assumes "ready fs al clients s" and "owner (team (srv s)) = Some (Pool_Thread i)"
  shows "\<exists>s'. shared_moves fs al (NUL, NUL) (Server (M_Worker i)) s = Some (Inr s') \<and> shm s' = shm s \<and>
    main_at (team (srv s')) = main_at (team (srv s)) \<and> owner (team (srv s')) = None \<and>
    (\<forall>x xs. cheld (queue (team (srv s))) = x # xs \<longrightarrow> cheld (queue (team (srv s'))) = xs)"
proof -
  let ?p = "team (srv s)"
  have ok: "cok (queue ?p)" and i: "i < length (stages ?p)" "stages ?p ! i = Testing"
    using ready_pool(1) [OF assms(1)] assms(2) by (auto simp: pool_inv_def owned_def)
  have "\<exists>p'. worker_pool_step i ?p = Some (Inr p') \<and> owner p' = None \<and>
    (\<forall>x xs. cheld (queue ?p) = x # xs \<longrightarrow> cheld (queue p') = xs)"
  proof (cases "cheld (queue ?p)")
    case Nil
    then show ?thesis
      using i cq.vacant_iff [OF ok] by (simp add: worker_pool_step_def)
  next
    case (Cons x xs)
    then show ?thesis
      using i cq.vacant_iff [OF ok] cq.get_spec [OF ok Cons] by (auto simp: worker_pool_step_def)
  qed
  then obtain p' where p': "worker_pool_step i ?p = Some (Inr p')" "owner p' = None"
    "\<forall>x xs. cheld (queue ?p) = x # xs \<longrightarrow> cheld (queue p') = xs"
    by blast
  then show ?thesis
    using i pool_frame(1) [OF p'(1)] by (simp add: shared_worker_step_def server_worker_step_def job_of_def Let_def)
qed

definition tested :: "shared_server \<Rightarrow> nat" where
  "tested s = (case owner (team (srv s)) of Some (Pool_Thread i) \<Rightarrow> 1 | _ \<Rightarrow> 0)"

lemma main_polls:
  assumes "ready fs al clients s"
  shows "\<exists>s'. quietly fs al s s' \<and> ready fs al clients s' \<and> main_at (team (srv s')) = Polling"
  using assms
proof (induction "2 * main_rank (main_at (team (srv s))) + tested s" arbitrary: s rule: less_induct)
  case less
  have on: ?case if "shared_moves fs al (NUL, NUL) m s = Some (Inr t)" "m \<noteq> Server M_Signal" "shm t = shm s"
    "2 * main_rank (main_at (team (srv t))) + tested t < 2 * main_rank (main_at (team (srv s))) + tested s" for m t
    using less.hyps [OF that(4) ready_step [OF that(1,2) less.prems]] quietly_move [OF that(1,3)] by blast
  have bit: "tested t \<le> 1" for t
    by (simp add: tested_def split: option.split thread.split)
  show ?case
  proof (cases "main_at (team (srv s)) = Polling")
    case True
    then show ?thesis
      using less.prems quietly_refl by blast
  next
    case False
    show ?thesis
    proof (cases "(\<exists>x. main_at (team (srv s)) = main_stage.Got x) \<and> owner (team (srv s)) \<noteq> None")
      case True
      then have "owner (team (srv s)) \<noteq> Some Main_Thread"
        using ready_pool(1,2) [OF less.prems] by (auto simp: pool_inv_def main_holds_def)
      then obtain i where i: "owner (team (srv s)) = Some (Pool_Thread i)"
        using True by (metis option.exhaust thread.exhaust)
      then show ?thesis
        using tester_moves [OF less.prems i] on by (fastforce simp: tested_def)
    next
      case free: False
      then have "(\<exists>x. main_at (team (srv s)) = main_stage.Got x) \<longrightarrow> owner (team (srv s)) = None"
        by blast
      then obtain t where t: "shared_moves fs al (NUL, NUL) (Server M_Main) s = Some (Inr t)" "shm t = shm s"
        "main_rank (main_at (team (srv t))) < main_rank (main_at (team (srv s)))"
        using main_moves [OF less.prems False] by blast
      then show ?thesis
        using on [OF t(1) _ t(2)] bit [of t] by simp
    qed
  qed
qed

section \<open>A worker comes to the request\<close>

text \<open>A worker has been given the request and not taken it up.\<close>

definition on_it :: "shared_server \<Rightarrow> nat \<Rightarrow> bool" where
  "on_it s i \<longleftrightarrow> i < length (stages (team (srv s))) \<and> shared_job (stages (team (srv s)) ! i) \<and> \<not> begun s ! i"

definition resting :: "shared_server \<Rightarrow> bool" where
  "resting s \<longleftrightarrow> list_all (\<lambda>w. wpc w = W_Idle) (workers (shm s)) \<and> 0 < tokens (shm s)"

fun stage_rank :: "worker_stage \<Rightarrow> bool \<Rightarrow> nat" where
  "stage_rank Locking r = 1" | "stage_rank Waiting r = 1"
| "stage_rank (Given x) r = (if r then 2 else 3)" | "stage_rank _ r = 0"

lemma client_moves:
  assumes "ready fs al clients s" and "i < length (stages (team (srv s)))" and "client_of (stages (team (srv s)) ! i) = Some c"
  shows "\<exists>b. server_worker_step fs al (NUL, NUL) i (srv s) = Some (Inr b) \<and>
    (if replied (srv s) ! i then worker_pool_step i (team (srv s)) = Some (Inr (team b))
     else team b = team (srv s) \<and> replied b = (replied (srv s))[i := True])"
proof -
  have inv: "server_inv (got_answer fs al clients) clients (srv s)" and sv: "serving fs al clients"
    using assms(1) by (simp_all add: ready_def)
  obtain k where k: "table (srv s) c = Some k"
    "if replied (srv s) ! i then got_answer fs al clients k (socks (srv s) k) else socks (srv s) k = clients k"
    using worker_has [OF inv assms(2,3)] by blast
  obtain c' where c': "checkAndSend_socket fs al (NUL, NUL) (clients k) = Inr c'"
    using serving_answers [OF sv] by blast
  have "\<exists>p. worker_pool_step i (team (srv s)) = Some (Inr p)"
    using assms(2,3) by (cases "stages (team (srv s)) ! i") (auto simp: worker_pool_step_def job_of_def)
  then show ?thesis
    using assms(2,3) k c' by (auto simp: server_worker_step_def)
qed

lemma pool_moves:
  assumes "worker_pool_step i (team (srv s)) = Some (Inr p)" and "client_of (stages (team (srv s)) ! i) = None"
    and "shared_job (stages (team (srv s)) ! i) \<Longrightarrow> begun s ! i \<and> wpc (workers (shm s) ! i) = W_Idle"
  shows "\<exists>s'. shared_moves fs al (NUL, NUL) (Server (M_Worker i)) s = Some (Inr s') \<and> shm s' = shm s \<and>
    team (srv s') = p \<and> replied (srv s') = replied (srv s)"
  using assms by (auto simp: shared_worker_step_def server_worker_step_def Let_def)

lemma freed_worker_moves:
  assumes "ready fs al clients s" and "owner (team (srv s)) = None" and "cheld (queue (team (srv s))) \<noteq> []"
    and "0 < length (stages (team (srv s)))" and "resting s" and "\<not> on_it s 0"
  shows "\<exists>s'. shared_moves fs al (NUL, NUL) (Server (M_Worker 0)) s = Some (Inr s') \<and> shm s' = shm s \<and>
    main_at (team (srv s')) = main_at (team (srv s)) \<and> queue (team (srv s')) = queue (team (srv s)) \<and>
    (owner (team (srv s')) = Some (Pool_Thread 0) \<and> 0 < stage_rank (stages (team (srv s)) ! 0) (replied (srv s) ! 0) \<or>
     owner (team (srv s')) = None \<and> stage_rank (stages (team (srv s')) ! 0) (replied (srv s') ! 0) <
       stage_rank (stages (team (srv s)) ! 0) (replied (srv s) ! 0))"
proof -
  let ?p = "team (srv s)"
  have inv: "pool_inv ?p" "handler ?p = None" "length (begun s) = length (stages ?p)" "length (workers (shm s)) = length (stages ?p)"
    using ready_pool [OF assms(1)] assms(1) by (auto simp: ready_def coupled_def coupling_def seen_of_def)
  have idle: "wpc (workers (shm s) ! 0) = W_Idle"
    using assms(4,5) inv(4) by (simp add: resting_def list_all_length)
  have "\<not> main_holds ?p"
    using inv(1) assms(2) by (simp add: pool_inv_def)
  then have "\<not> about_to_wake ?p"
    by (auto simp: main_holds_def about_to_wake_def)
  then have awake: "sleepers ?p = []"
    using inv(1) assms(3) by (auto simp: pool_inv_def)
  have unstopped: "\<not> stopped (stages ?p ! 0)" "stages ?p ! 0 \<noteq> Testing"
    using ready_unstopped [OF assms(1)] nth_mem [OF assms(4)] owned_nobody [of None "stages ?p" 0] inv(1) assms(2,4)
    by (auto simp: pool_inv_def)
  show ?thesis
  proof (cases "client_of (stages ?p ! 0)")
    case (Some c)
    then obtain x where x: "stages ?p ! 0 = Given x" "snd x = PROCESS" "job_of SHARED (stages ?p ! 0) = None"
      by (cases "stages ?p ! 0") (auto simp: job_of_def split: if_splits)
    obtain b where b: "server_worker_step fs al (NUL, NUL) 0 (srv s) = Some (Inr b)"
      "if replied (srv s) ! 0 then worker_pool_step 0 ?p = Some (Inr (team b))
       else team b = ?p \<and> replied b = (replied (srv s))[0 := True]"
      using client_moves [OF assms(1,4) Some] by blast
    have "0 < length (replied (srv s))"
      using assms(1,4) by (auto simp: ready_def server_inv_def jobs_def seen_of_def whose_def)
    moreover have "team b = ?p\<lparr>stages := (stages ?p)[0 := Locking]\<rparr>" if "replied (srv s) ! 0"
      using b(2) that x(1,2) assms(4) by (simp add: worker_pool_step_def)
    ultimately show ?thesis
      using b x assms(2,4) by (cases "replied (srv s) ! 0") (simp_all add: shared_worker_step_def)
  next
    case None
    have "shared_job (stages ?p ! 0) \<Longrightarrow> begun s ! 0"
      using assms(4,6) by (simp add: on_it_def)
    moreover have "\<exists>p'. worker_pool_step 0 ?p = Some (Inr p') \<and> main_at p' = main_at ?p \<and> queue p' = queue ?p \<and>
        (owner p' = Some (Pool_Thread 0) \<and> 0 < stage_rank (stages ?p ! 0) r \<or>
         owner p' = None \<and> stage_rank (stages p' ! 0) r < stage_rank (stages ?p ! 0) r)" for r
      using assms(2,4) unstopped awake by (cases "stages ?p ! 0") (auto simp: worker_pool_step_def stopped_def)
    ultimately show ?thesis
      using pool_moves [OF _ None] idle by metis
  qed
qed

lemma waiting_job:
  assumes "ready fs al clients s" and "resting s" and "main_at (team (srv s)) = Polling"
  shows "(\<exists>i. on_it s i) \<or> cheld (queue (team (srv s))) \<noteq> []"
proof -
  let ?js = "map (job_of SHARED) (stages (team (srv s)))"
  have "hand SHARED (team (srv s)) = []"
    using assms(3) by (simp add: hand_def)
  then have "0 < length (of_kind SHARED (cheld (queue (team (srv s))))) + due ?js (begun s)"
    using assms(1,2) by (auto simp: ready_def resting_def coupled_def seen_of_def)
  then show ?thesis
    using due_some [of ?js "begun s"] by (cases "due ?js (begun s) = 0") (auto simp: on_it_def)
qed

lemma some_stage: "ready fs al clients s \<Longrightarrow> length (stages (team (srv s))) = length (workers (shm s))"
  by (auto simp: ready_def coupled_def coupling_def seen_of_def)

definition taking :: "shared_server \<Rightarrow> nat" where
  "taking s = 10 * length (cheld (queue (team (srv s)))) +
     (if owner (team (srv s)) = None then stage_rank (stages (team (srv s)) ! 0) (replied (srv s) ! 0) else 0)"

lemma stage_rank_less: "stage_rank w r < 10"
  by (cases w) simp_all

lemma job_taken_polling:
  assumes "ready fs al clients s" and "resting s" and "main_at (team (srv s)) = Polling" and "workers (shm s) \<noteq> []"
  shows "\<exists>s' i. quietly fs al s s' \<and> ready fs al clients s' \<and> on_it s' i"
  using assms
proof (induction "taking s" arbitrary: s rule: less_induct)
  case less
  note rdy = less.prems(1)
  have on: ?case if "shared_moves fs al (NUL, NUL) (Server (M_Worker i)) s = Some (Inr t)" "shm t = shm s"
    "main_at (team (srv t)) = main_at (team (srv s))" "taking t < taking s" for i t
  proof -
    have "ready fs al clients t"
      using ready_step [OF that(1) _ rdy] by simp
    then show ?thesis
      using less.hyps [OF that(4)] quietly_move [OF that(1,2)] less.prems(2-4) that(2,3) by (metis resting_def)
  qed
  show ?case
  proof (cases "(\<exists>i. on_it s i)")
    case True
    then show ?thesis
      using rdy quietly_refl by blast
  next
    case False
    then obtain x xs where q: "cheld (queue (team (srv s))) = x # xs"
      using waiting_job [OF less.prems(1-3)] by (auto simp: neq_Nil_conv)
    have "owner (team (srv s)) \<noteq> Some Main_Thread"
      using ready_pool(1,2) [OF rdy] less.prems(3) by (auto simp: pool_inv_def main_holds_def)
    then consider (free) "owner (team (srv s)) = None" | (held) i where "owner (team (srv s)) = Some (Pool_Thread i)"
      by (metis option.exhaust thread.exhaust)
    then show ?thesis
    proof cases
      case free
      then obtain t where t: "shared_moves fs al (NUL, NUL) (Server (M_Worker 0)) s = Some (Inr t)" "shm t = shm s"
        "main_at (team (srv t)) = main_at (team (srv s))" "queue (team (srv t)) = queue (team (srv s))"
        and down: "owner (team (srv t)) = Some (Pool_Thread 0) \<and> 0 < stage_rank (stages (team (srv s)) ! 0) (replied (srv s) ! 0) \<or>
          owner (team (srv t)) = None \<and> stage_rank (stages (team (srv t)) ! 0) (replied (srv t) ! 0) <
            stage_rank (stages (team (srv s)) ! 0) (replied (srv s) ! 0)"
        using freed_worker_moves [OF rdy free] q False less.prems(2,4) some_stage [OF rdy] by auto
      show ?thesis
        using on [OF t(1-3)] t(4) down free by (auto simp: taking_def)
    next
      case held
      then obtain t where t: "shared_moves fs al (NUL, NUL) (Server (M_Worker i)) s = Some (Inr t)" "shm t = shm s"
        "main_at (team (srv t)) = main_at (team (srv s))" "cheld (queue (team (srv t))) = xs"
        using tester_moves [OF rdy held] q by blast
      then show ?thesis
        using on [OF t(1-3)] q held stage_rank_less [of "stages (team (srv t)) ! 0" "replied (srv t) ! 0"]
        by (simp add: taking_def)
    qed
  qed
qed

lemma job_taken:
  assumes "ready fs al clients s" and "resting s" and "workers (shm s) \<noteq> []"
  shows "\<exists>s' i. quietly fs al s s' \<and> ready fs al clients s' \<and> on_it s' i"
proof -
  obtain t where t: "quietly fs al s t" "ready fs al clients t" "main_at (team (srv t)) = Polling"
    using main_polls [OF assms(1)] by blast
  then obtain u i where "quietly fs al t u" "ready fs al clients u" "on_it u i"
    using job_taken_polling [OF t(2) _ t(3)] assms(2,3) by (auto simp: quietly_def resting_def)
  then show ?thesis
    using t(1) by (auto simp: quietly_def intro: rtranclp_trans)
qed

section \<open>The exchange goes on\<close>

text \<open>The worker with the request moves the exchange, and so do the proxy's thread and the poll.\<close>

lemma exchange_moves:
  assumes "ready fs al clients s" and "act al (checkAndSend fs al (NUL, NUL)) (Worker i) (shm s) = Some (Inr w)"
    and "wpc (workers (shm s) ! i) \<noteq> W_Idle \<or> on_it s i"
  shows "\<exists>s'. shared_moves fs al (NUL, NUL) (Server (M_Worker i)) s = Some (Inr s') \<and> shm s' = w"
proof -
  have "i < length (workers (shm s))"
    using wstep_frame assms(2) by simp
  then have "i < length (stages (team (srv s)))" "shared_job (stages (team (srv s)) ! i)"
    "\<not> (begun s ! i \<and> wpc (workers (shm s) ! i) = W_Idle)"
    using assms(1,3) by (auto simp: ready_def coupled_def coupling_def seen_of_def on_it_def)
  then show ?thesis
    using assms(2) by (auto simp: shared_worker_step_def)
qed

lemma exchange_step:
  assumes "shared_moves fs al (NUL, NUL) m t = Some (Inr s')" and "act al (checkAndSend fs al (NUL, NUL)) a (shm t) = Some (Inr (shm s'))"
    and "m \<noteq> Proxy_Next"
  shows "serial_step al (checkAndSend fs al (NUL, NUL)) (exchange_of t) (exchange_of s')"
proof -
  have "exchange_of s' = (exchange_of t)\<lparr>now := shm s'\<rparr>"
    using assms(1,3) by (cases m rule: party_cases)
      (auto simp: shared_main_step_def shared_worker_step_def exchange_of_def split: if_splits option.splits sum.splits)
  then show ?thesis
    using same_request [of al "checkAndSend fs al (NUL, NUL)" a "exchange_of t" "shm s'"] assms(2) by simp
qed

text \<open>Someone who moves the exchange can be brought to do so.\<close>

lemma exchange_mover:
  assumes "ready fs al clients s" and "manned n hdr R A out rest k (shm s)"
    and "exchange al (checkAndSend fs al (NUL, NUL)) hdr R A" and "idle_rest rest" and "ppc (proxies (shm s) ! 0) \<noteq> P_Done"
  shows "\<exists>t a m s'. quietly fs al s t \<and> ready fs al clients t \<and> m \<noteq> Server M_Signal \<and> m \<noteq> Proxy_Next \<and>
    shared_moves fs al (NUL, NUL) m t = Some (Inr s') \<and> act al (checkAndSend fs al (NUL, NUL)) a (shm t) = Some (Inr (shm s'))"
proof -
  have step: ?thesis if "quietly fs al s t" "ready fs al clients t"
    "act al (checkAndSend fs al (NUL, NUL)) a (shm s) = Some (Inr w)" "m \<noteq> Server M_Signal" "m \<noteq> Proxy_Next"
    "shared_moves fs al (NUL, NUL) m t = Some (Inr s')" "shm s' = w" for t a w m s'
  proof -
    have "act al (checkAndSend fs al (NUL, NUL)) a (shm t) = Some (Inr (shm s'))"
      using that(1,3,7) by (simp add: quietly_def)
    then show ?thesis
      using that(1,2,4-6) by blast
  qed
  show ?thesis
  proof (cases "tokens (shm s)")
    case 0
    obtain a w where a: "act al (checkAndSend fs al (NUL, NUL)) a (shm s) = Some (Inr w)"
      using manned_progress [OF assms(2-4)] assms(5) by blast
    show ?thesis
    proof (cases a)
      case (Proxy i)
      then show ?thesis
        using step [OF quietly_refl assms(1) a, of "Proxy_Thread i"] a by simp
    next
      case (Worker i)
      then have "wpc (workers (shm s) ! i) \<noteq> W_Idle"
        using a 0 wstep_frame [of al "checkAndSend fs al (NUL, NUL)" i "shm s" w] by auto
      then show ?thesis
        using exchange_moves [OF assms(1), of i w] a Worker step [OF quietly_refl assms(1) a] by blast
    next
      case Main
      obtain t where t: "quietly fs al s t" "ready fs al clients t" "main_at (team (srv t)) = Polling"
        using main_polls [OF assms(1)] by blast
      have "\<exists>s'. shared_moves fs al (NUL, NUL) (Server M_Main) t = Some (Inr s') \<and> shm s' = w"
        using a Main t(1,3) ready_pool(2) [OF t(2)] by (auto simp: quietly_def shared_main_step_def)
      then show ?thesis
        using step [OF t(1,2) a] by blast
    qed
  next
    case (Suc j)
    then have rest: "resting s"
      using manned_tokens [OF assms(2)] by (simp add: resting_def list_all_iff)
    have "0 < n" "length (workers (shm s)) = n"
      using assms(2) by (auto simp: manned_def crew_def)
    then have some: "workers (shm s) \<noteq> []"
      by auto
    obtain t i where t: "quietly fs al s t" "ready fs al clients t" "on_it t i"
      using job_taken [OF assms(1) rest some] by blast
    have i: "i < length (workers (shm s))"
      using t(1,3) some_stage [OF t(2)] by (simp add: on_it_def quietly_def)
    then have "wpc (workers (shm s) ! i) = W_Idle"
      using rest by (simp add: resting_def list_all_length)
    then obtain w where a: "act al (checkAndSend fs al (NUL, NUL)) (Worker i) (shm s) = Some (Inr w)"
      using i Suc by (simp add: wstep_def Let_def)
    then have "\<exists>s'. shared_moves fs al (NUL, NUL) (Server (M_Worker i)) t = Some (Inr s') \<and> shm s' = w"
      using exchange_moves [OF t(2), of i w] t(1,3) by (simp add: quietly_def)
    then show ?thesis
      using step [OF t(1,2) a] by blast
  qed
qed

text \<open>The proxy's clients, one after the other.\<close>

abbreviation answers_proxy :: "filesystem \<Rightarrow> allocator \<Rightarrow> errand list \<Rightarrow> bool" where
  "answers_proxy fs al es \<equiv> \<forall>e \<in> set es. errand_ok al (checkAndSend fs al (NUL, NUL)) e"

lemma errands_go_on:
  assumes "ready fs al clients s" and "on_errands n rest es (exchange_of s) k" and "answers_proxy fs al es"
    and "idle_rest rest" and "\<not> all_done es (exchange_of s)"
  shows "\<exists>s' l. (shared_step fs al)\<^sup>*\<^sup>* s s' \<and> ready fs al clients s' \<and> on_errands n rest es (exchange_of s') l \<and> l < k"
proof -
  obtain xs e ys where es: "es = xs @ e # ys" and d: "doing n rest xs e ys (exchange_of s) k"
    using assms(2) by (auto simp: on_errands_def)
  obtain j where j: "manned n (e_header e) (e_request e) (e_answer e) (tx (e_client e)) rest j (shm s)"
    using d by (auto simp: doing_def)
  show ?thesis
  proof (cases "ppc (proxies (shm s) ! 0) = P_Done")
    case True
    then obtain e' ys' where "ys = e' # ys'"
      using done_all [of n rest xs e "exchange_of s" k] d es assms(5) by (cases ys) auto
    then obtain r where r: "next_request (exchange_of s) = Some r"
      using done_next [of n rest xs e e' ys' "exchange_of s" k] d True by auto
    then obtain q l where q: "r = Inr q" "on_errands n rest es q l" "l < k"
      using serial_keeps(2) [OF assms(2-4)] by blast
    define s' where "s' = s\<lparr>shm := now q, asked := todo q, answered := past q\<rparr>"
    have m: "shared_moves fs al (NUL, NUL) Proxy_Next s = Some (Inr s')"
      using r q(1) by (simp add: s'_def)
    have "exchange_of s' = q"
      by (simp add: s'_def exchange_of_def)
    moreover have "ready fs al clients s'"
      using ready_step [OF m _ assms(1)] by simp
    ultimately show ?thesis
      using q(2,3) shared_moved [OF m] by blast
  next
    case False
    have ex: "exchange al (checkAndSend fs al (NUL, NUL)) (e_header e) (e_request e) (e_answer e)"
      using assms(3) es by (simp add: errand_ok_def)
    obtain t a m s' where t: "quietly fs al s t" "ready fs al clients t" "m \<noteq> Server M_Signal" "m \<noteq> Proxy_Next"
      "shared_moves fs al (NUL, NUL) m t = Some (Inr s')" "act al (checkAndSend fs al (NUL, NUL)) a (shm t) = Some (Inr (shm s'))"
      using exchange_mover [OF assms(1) j ex assms(4) False] by blast
    have run: "(shared_step fs al)\<^sup>*\<^sup>* s t"
      using t(1) by (simp add: quietly_def)
    obtain i where "(serial_step al (checkAndSend fs al (NUL, NUL)) ^^ i) (exchange_of s) (exchange_of t)"
      using rtranclp_imp_relpowp [OF shared_reach_serial [OF run]] by blast
    then obtain l where l: "on_errands n rest es (exchange_of t) l" "l \<le> k"
      using serial_counted [OF assms(2-4)] by (metis add_leD2)
    obtain l' where "on_errands n rest es (exchange_of s') l'" "l' < l"
      using serial_step_keeps [OF l(1) assms(3,4) exchange_step [OF t(5,6,4)]] by blast
    moreover have "ready fs al clients s'"
      using ready_step [OF t(5,3,2)] .
    moreover have "(shared_step fs al)\<^sup>*\<^sup>* s s'"
      using run shared_moved [OF t(5)] by simp
    ultimately show ?thesis
      using l(2) by (meson less_le_trans)
  qed
qed

lemma errands_complete:
  assumes "ready fs al clients s" and "on_errands n rest es (exchange_of s) k" and "answers_proxy fs al es" and "idle_rest rest"
  shows "\<exists>s'. (shared_step fs al)\<^sup>*\<^sup>* s s' \<and> all_done es (exchange_of s')"
  using assms(1,2)
proof (induction k arbitrary: s rule: less_induct)
  case (less k)
  show ?case
  proof (cases "all_done es (exchange_of s)")
    case False
    then obtain t l where t: "(shared_step fs al)\<^sup>*\<^sup>* s t" "ready fs al clients t" "on_errands n rest es (exchange_of t) l" "l < k"
      using errands_go_on [OF less.prems assms(3,4)] by blast
    then show ?thesis
      using less.IH [OF t(4,2,3)] by (meson rtranclp_trans)
  qed blast
qed

section \<open>From the start\<close>

text \<open>The server with \<open>n\<close> workers, and one thread of the proxy with its clients.\<close>

abbreviation shared_begin :: "nat \<Rightarrow> (nat \<Rightarrow> sock) \<Rightarrow> arrival list \<Rightarrow> bool list \<Rightarrow> memnode list \<Rightarrow> errand \<Rightarrow> errand list \<Rightarrow> shared_server" where
  "shared_begin n clients cs gs rest e es \<equiv> start_shared n clients cs gs (start_serial n rest e es)"

lemma shared_begin_errands:
  assumes "answers_proxy fs al (e # es)" and "idle_rest rest" and "0 < n"
    and "(shared_step fs al)\<^sup>*\<^sup>* (shared_begin n clients cs gs rest e es) s"
  shows "\<exists>k. on_errands n rest (e # es) (exchange_of s) k"
proof -
  have "txo (e_client e) = []"
    using assms(1) by (simp add: errand_ok_def)
  moreover have "(serial_step al (checkAndSend fs al (NUL, NUL)))\<^sup>*\<^sup>* (start_serial n rest e es) (exchange_of s)"
    using shared_reach_serial [OF assms(4)] by simp
  ultimately show ?thesis
    using serial_start [OF assms(3)] serial_reach [OF _ assms(1,2)] by blast
qed

lemma shared_begin_kept:
  assumes "(shared_step fs al)\<^sup>*\<^sup>* (shared_begin n clients cs [] rest e es) s" and "serving fs al clients"
    and "Accept_Error \<notin> set cs" and "distinct (arriving cs)"
  shows "coupled s \<and> calm (srv s)"
  using assms(1)
proof (induction rule: rtranclp_induct)
  case base
  have "coupled (shared_begin n clients cs [] rest e es)"
    by (rule start_coupled) (simp_all add: start_serial_def start_exchange_def new_worker_def)
  then show ?case
    using assms(3,4) by (simp add: calm_def start_shared_def start_server_def start_pool_def)
next
  case (step t u)
  have "pool_inv (team (srv t))"
    using shared_reached [OF step.hyps(1) assms(2)] by (simp add: server_inv_def)
  then show ?case
    using step.hyps(2) step.IH coupled_step calm_step by (auto elim!: shared_stepE)
qed

section \<open>Properties\<close>

text \<open>
  C5: the optimised server as a whole, with any number of workers, in every interleaving of its
  threads, of SIGINT, of any arrivals on its socket and of the proxy's thread with any number of
  clients one after the other: the clients of the sockets are served as by the plain server, each
  untouched or with exactly its own complete answer and closed only after it; whenever the proxy's
  thread is done with a request, its clients so far have each received exactly the answer to their own
  request; and no step of any thread is a memory fault.
\<close>

theorem shared_server_safe:
  assumes "serving fs al clients" and "\<forall>e \<in> set (e # es). errand_ok al (checkAndSend fs al (NUL, NUL)) e"
    and "idle_rest rest" and "0 < n" and "(shared_step fs al)\<^sup>*\<^sup>* (shared_begin n clients cs gs rest e es) s"
  shows "(\<forall>k. socks (srv s) k = clients k \<or> got_answer fs al clients k (socks (srv s) k)) \<and>
    (\<forall>k < arrived (srv s). k \<notin> ran (table (srv s)) \<longrightarrow> got_answer fs al clients k (socks (srv s) k)) \<and>
    (ppc (proxies (shm s) ! 0) = P_Done \<longrightarrow> map tx (answered s) @ [tx (client (proxies (shm s) ! 0))] =
       map delivered (take (Suc (length (answered s))) (e # es))) \<and>
    (\<forall>junk m x. shared_moves fs al junk m s = Some (Inl x) \<longrightarrow> x = Exit_With SOCKET_FAILURE)"
proof -
  have inv: "server_inv (got_answer fs al clients) clients (srv s)"
    by (rule shared_reached [OF assms(5,1)])
  obtain k where k: "on_errands n rest (e # es) (exchange_of s) k"
    using shared_begin_errands [OF assms(2-5)] ..
  have "act al (checkAndSend fs al (NUL, NUL)) a (shm s) \<noteq> Some (Inl x)" for a x
    using serial_keeps(1) [OF k assms(2,3), of a "Inl x"] by auto
  then have "x = Exit_With SOCKET_FAILURE" if "shared_moves fs al junk m s = Some (Inl x)" for junk m x
    using shared_faults [OF that inv assms(1)] by blast
  then show ?thesis
    using inv_untouched [OF inv] inv_closed [OF inv] serial_done(1) [OF k] by simp
qed

text \<open>
  C6: the optimised server answers the proxy: from every reachable state of the whole, whatever its
  socket clients, its workers and the proxy did in between, as long as nobody has interrupted it, a
  run leads to the state in which the proxy's thread has no client left and each has exactly the
  complete answer to its own request; given memory for the connection list, an \<open>accept\<close> that does
  not fail, and a descriptor of its own for every connection.
\<close>

theorem shared_server_live:
  assumes "serving fs al clients" and "\<forall>e \<in> set (e # es). errand_ok al (checkAndSend fs al (NUL, NUL)) e"
    and "idle_rest rest" and "0 < n" and "Accept_Error \<notin> set cs" and "distinct (arriving cs)"
    and "(shared_step fs al)\<^sup>*\<^sup>* (shared_begin n clients cs [] rest e es) s" and "LOOP (team (srv s))"
  shows "\<exists>s'. (shared_step fs al)\<^sup>*\<^sup>* s s' \<and> ppc (proxies (shm s') ! 0) = P_Done \<and> asked s' = [] \<and>
    map tx (answered s') @ [tx (client (proxies (shm s') ! 0))] = map delivered (e # es)"
proof -
  have "ready fs al clients s"
    using shared_reached [OF assms(7,1)] shared_begin_kept [OF assms(7,1,5,6)] assms(1,8) by (simp add: ready_def)
  moreover obtain k where "on_errands n rest (e # es) (exchange_of s) k"
    using shared_begin_errands [OF assms(2-4,7)] ..
  ultimately obtain s' where "(shared_step fs al)\<^sup>*\<^sup>* s s'" "all_done (e # es) (exchange_of s')"
    using errands_complete assms(2,3) by blast
  then show ?thesis
    by (intro exI [of _ s']) (simp add: all_done_def)
qed

text \<open>A client of the proxy asks for the one file, while another asks the server for something else.\<close>

lemma one_file_shared:
  "exchange (\<lambda>n. 0 \<le> n) (checkAndSend one_file (\<lambda>n. 0 \<le> n) (NUL, NUL)) (proxy_text proxying ''h'' ''f'')
     (server_text proxying ''h'' ''f'') (file_response ''f'' ''bytes'')"
  using shared_file [OF ample_nonneg one_file_serves proxying_asks] by (simp add: no_junk_def)

lemma one_file_visitor: "serving one_file (\<lambda>n. 0 \<le> n) visitor"
proof -
  have "fs_small one_file"
    by (simp add: fs_small_def one_file_def in_int_def)
  then show ?thesis
    using visitor_serving one_file_ok by (simp add: serving_def)
qed

text \<open>Two clients of the proxy ask for it.\<close>

definition fetching :: errand where
  "fetching = \<lparr>e_header = proxy_text proxying ''h'' ''f'', e_client = \<lparr>rx = [], tx = [], txo = []\<rparr>,
     e_request = server_text proxying ''h'' ''f'', e_answer = file_response ''f'' ''bytes''\<rparr>"

lemma fetching_ok: "answers_proxy one_file (\<lambda>n. 0 \<le> n) [fetching, fetching]"
  using one_file_shared by (simp add: fetching_def errand_ok_def)

lemma fetching_begin:
  "idle_rest [zero_node]" "LOOP (team (srv (shared_begin 10 visitor [Client 7] [] [zero_node] fetching [fetching])))"
  "Accept_Error \<notin> set [Client 7]" "distinct (arriving [Client 7])" "0 < (10::nat)"
  by (simp_all add: idle_rest_def zero_node_def start_shared_def start_server_def start_pool_def)

theorem shared_server_live_witness:
  "\<exists>s. (shared_step one_file (\<lambda>n. 0 \<le> n))\<^sup>*\<^sup>* (shared_begin 10 visitor [Client 7] [] [zero_node] fetching [fetching]) s \<and>
     map tx (answered s) = [file_response ''f'' ''bytes''] \<and> tx (client (proxies (shm s) ! 0)) = file_response ''f'' ''bytes''"
  using shared_server_live [OF one_file_visitor fetching_ok fetching_begin(1,5,3,4) rtranclp.rtrancl_refl fetching_begin(2)]
  by (auto simp: delivered_def fetching_def)

theorem shared_server_safe_witness:
  "\<exists>s. (shared_step one_file (\<lambda>n. 0 \<le> n))\<^sup>*\<^sup>* (shared_begin 10 visitor [Client 7] [] [zero_node] fetching [fetching]) s \<and>
     asked s = [] \<and> tx (client (proxies (shm s) ! 0)) = file_response ''f'' ''bytes'' \<and>
     (socks (srv s) 0 = visitor 0 \<or> got_answer one_file (\<lambda>n. 0 \<le> n) visitor 0 (socks (srv s) 0))"
proof -
  let ?s = "shared_begin 10 visitor [Client 7] [] [zero_node] fetching [fetching]"
  have r: "ready one_file (\<lambda>n. 0 \<le> n) visitor ?s"
    using shared_reached [OF rtranclp.rtrancl_refl one_file_visitor]
      shared_begin_kept [OF rtranclp.rtrancl_refl one_file_visitor fetching_begin(3,4)] one_file_visitor fetching_begin(2)
    by (simp add: ready_def)
  obtain k where "on_errands 10 [zero_node] [fetching, fetching] (exchange_of ?s) k"
    using shared_begin_errands [OF fetching_ok fetching_begin(1,5) rtranclp.rtrancl_refl] ..
  then obtain s where s: "(shared_step one_file (\<lambda>n. 0 \<le> n))\<^sup>*\<^sup>* ?s s" "all_done [fetching, fetching] (exchange_of s)"
    using errands_complete [OF r _ fetching_ok fetching_begin(1)] by blast
  have d: "ppc (proxies (shm s) ! 0) = P_Done" "asked s = []"
    using s(2) by (simp_all add: all_done_def)
  have "length (answered s) = 1"
    using s(2) arg_cong [where f = length] by (fastforce simp: all_done_def)
  then show ?thesis
    using shared_server_safe [OF one_file_visitor fetching_ok fetching_begin(1,5) s(1)] s(1) d
    by (intro exI [of _ s]) (auto simp: delivered_def fetching_def)
qed

text \<open>SIGINT once the proxy waits for a worker: the handler stops the worker, and main ends.\<close>

definition stranding :: "party list" where
  "stranding = replicate 3 (Proxy_Thread 0) @ Server M_Signal # replicate 5 (Server M_Handler) @
     replicate 3 (Server (M_Worker 0)) @ replicate 2 (Server M_Main)"

text \<open>
  C35: a server that is stopped in an orderly way strands the proxy: whatever the file system, the
  clients and the request, there is a run in which SIGINT comes while the proxy's thread waits for a
  worker to take its request up; the server then ends, the thread still waits, nothing was sent to its
  client, those behind it are not even begun, and no thread of either program can ever move again.
\<close>

theorem proxy_stranded:
  "\<exists>s. shared_run fs al (NUL, NUL) stranding (shared_begin 1 clients cs [] rest e es) = Some s \<and>
     main_at (team (srv s)) = Finished \<and> ppc (proxies (shm s) ! 0) = P_Wait0 \<and>
     client (proxies (shm s) ! 0) = e_client e \<and> asked s = map order es \<and>
     (\<forall>junk m. shared_moves fs al junk m s = None)"
proof -
  have f: "findState (zero_node # rest) (1 + int (length rest)) IDLE = Inr (Some 0)"
    using findState_one [of zero_node rest] by (simp add: zero_node_def)
  have states: "proxyState zero_node = IDLE" "serverState zero_node = IDLE" "mutex zero_node = None" "condition zero_node = []"
    by (simp_all add: zero_node_def)
  obtain s where s: "shared_run fs al (NUL, NUL) stranding (shared_begin 1 clients cs [] rest e es) = Some s"
    and at: "main_at (team (srv s)) = Finished" "handler (team (srv s)) = None" "stages (team (srv s)) = [Exited]"
      "length (proxies (shm s)) = 1" "ppc (proxies (shm s) ! 0) = P_Wait0" "pnode (proxies (shm s) ! 0) = 0"
      "client (proxies (shm s) ! 0) = e_client e" "asked s = map order es" "0 \<in> set (condition (nodes (shm s) ! 0))"
    by (simp add: stranding_def server_run_simps shared_worker_step_def shared_main_step_def with_shm_def with_srv_def f states
        pstep_def start_shared_def start_serial_def start_exchange_def new_proxy_def proxy_step.simps pmove_def node_ops pid_def job_of_def nonblocking_def)
  have "shared_moves fs al junk m s = None" for junk m
  proof (cases m)
    case (Server x)
    have "shared_worker_step fs al junk i s = None" for i
      using at(3) by (cases i) (simp_all add: shared_worker_step_def server_worker_step_def worker_pool_step_def with_srv_def
          with_pool_def job_of_def Let_def)
    then show ?thesis
      using Server at(1,2) by (cases x) (simp_all add: shared_main_step_def nonblocking_def server_main_step_def main_effect_def
          main_step_def catchInterrupt_def handler_step_def with_srv_def with_pool_def)
  next
    case Proxy_Next
    then show ?thesis
      using at(4,5) by (auto simp: next_request_def with_exchange_def hd_conv_nth split: list.split)
  next
    case (Proxy_Thread i)
    then show ?thesis
      using at(4-6,9) by (cases i) (simp_all add: with_shm_def pstep_def proxy_step.simps woken_def pid_def Let_def)
  qed
  then show ?thesis
    using s at by blast
qed

end
