(* ===== verification/Spec2Isabelle.thy ===== *)
theory Spec2Isabelle
  imports Together Races Startup Transport Names Tools Serial ServerShares
begin

text \<open>
  A verification development for ittybittyserver: a small HTTP server (src/server.c), a proxy
  (src/proxy.c) and a test client (src/client.c), C programs of one process with threads each.

  \<^bold>\<open>The programs.\<close> The server's main thread accepts connections and puts them on a linked list
  (src/headers/conList.c) under a mutex; a pool of worker threads takes them off, reads a request and
  answers it with a file, a listing or an error page. The proxy has the same pool; a worker of it
  reads the client's request, finds the server in its Host field, and either relays over a socket or,
  when both programs were started with -o on one machine, exchanges request and response through
  nodes of shared memory (src/headers/memList.c, src/functions/processShared.c), with a mutex, a
  condition variable and a pair of states in each node. With -c it has images compressed by an
  XML-RPC service (src/rpc/rpcserver.c). The client runs threads that ask for names of a list at
  random and adds up the bytes of the bodies.

  \<^bold>\<open>How the code is modelled.\<close> A C function that returns is a HOL function into \<open>abort + 'a\<close>
  (theory Prelude): the left side holds the ways the process stops otherwise, a null pointer, an
  access outside an object, freed or unassigned memory, a loop that repeats one state for ever, a
  division by zero, or \<open>exit\<close> with its status. Strings and buffers are lists of bytes, a C string the
  part before the first zero byte; a pointer into a buffer is an index. \<open>int\<close> values are integers
  with the conversion \<open>c_int\<close> where the code narrows; \<open>long\<close> and \<open>size_t\<close> are those of x86-64. An
  \<open>allocator\<close> says which sizes it grants; \<open>ample\<close> is one that grants every size that is not negative.
  What the kernel and other machines do is data: how bytes arrive (\<open>chunk list\<close>), how much of a
  \<open>send\<close> is taken (\<open>txo\<close>), which system calls succeed, what the file system holds (\<open>filesystem\<close>),
  who answers at which address (\<open>network\<close>). Threads that share memory are step functions on an
  explicit state, one step for what happens between two calls that lock, wait, signal or use a global;
  a run is any sequence of their steps. A wait on a condition variable ends only by a signal in the
  model; spurious wake-ups and reordering of memory accesses are not modelled.

  \<^bold>\<open>The theories.\<close>
  \<^item> Prelude: results, allocators, C integers, list lemmas. CString: the functions of the C library
    that the sources use (\<open>strstr\<close>, \<open>strchr\<close>, \<open>atoi\<close>, \<open>snprintf\<close>). Constants: constants.h, returncodes.h.
  \<^item> StrFuns: strcasestr.c, strDecode.c, contentType.c, copyLength.c, appendStr.c, isOptimized.c.
    Header: getHeaderField.c (fields, ports, host names), getStatusCode.c, stripAbsURL.c, isJPG.c.
    Names: what these are relied on for, against reference definitions (\<open>occurs_at\<close>, \<open>decode\<close>,
    \<open>mime_table\<close>, \<open>host_port\<close>).
  \<^item> Socket: stream sockets and sendAll.c. Recv: recvAll.c. Response: sendResponse.c and sendError.c,
    and that the receiving functions take a response apart again. Wire: sending and receiving
    together, and one segment of the shared memory.
  \<^item> Request: the parsing and the checks of \<open>checkAndSend\<close> (server.c); Serve: its answers, with
    fileContents.c; Files: what a request gets. Names that pass the checks are \<open>inside\<close> the document
    directory.
  \<^item> ConList: conList.c over a heap of nodes, and the locale \<open>fifo\<close>, the contract of a queue whose puts may
    be refused, with its extensions \<open>asking_fifo\<close>, which runs as the queue \<open>queue_run\<close> does, and
    \<open>lossless_fifo\<close>, interpreted on it. Pool: the server's main loop, its workers and its SIGINT handler as
    step functions over one mutex, one condition variable and the list, with their invariant;
    PoolRuns: what every run of them does. PoolView: the jobs of one kind, for those who wait for them. ProxyPool: the proxy's main loop, its workers and its handler,
    and that every run of its pool is a run of the server's.
  \<^item> Answers: one connection of the server from its bytes to its one complete answer. ServerRun: the
    server as a whole, the pool with the table of open descriptors (\<open>table\<close>) and the clients' sockets
    (\<open>socks\<close>); \<open>accept\<close> opens a descriptor that is not in use, a worker calls \<open>checkAndSend\<close> on its
    connection and closes it. Its invariant \<open>server_inv\<close> follows every client through the list and the
    workers; ServerServes: what the clients get. ProxyRun: the proxy as a whole, in the same way, with
    the relaying of every worker over the global \<open>serverSock\<close>. Together: the client in front of both.
  \<^item> MemList: the shared objects, the node list and memList.c. Shared: processShared.c, \<open>sharedProxy\<close>
    (proxy.c) and the shared branch of \<open>checkAndSend\<close> as steps. Exchange: one proxy thread with one
    worker, its invariant \<open>good\<close> and the measure \<open>wrank\<close>; Crew: one proxy thread with any number of
    workers, by renaming the one that has the job; Serial: that thread with client after client, where
    a request may begin on the node that a worker is still leaving; Races: what more threads or unlucky orders do.
  \<^item> ServerShared: the optimised server as a whole, ServerRun's state (\<open>srv\<close>) and Shared's world (\<open>shm\<close>)
    side by side; main polls the memory before \<open>accept\<close>, which does not block, and a worker with a job of
    the memory makes the steps of the exchange, and the proxy's thread goes from client to client. Coupling: that every request in the memory is exactly
    one job of the pool; ServerShares: what the proxy and the socket clients get, and what SIGINT does.
  \<^item> Startup: argument checks, \<open>initializeGlobals\<close> and \<open>cleanUpGlobals\<close> of both programs, and the shared
    objects that outlive them.
  \<^item> Forward: functions/xmlrpc.c. Requests: requests in the form that clients write. Relay:
    \<open>handleClient\<close> of the proxy, its routing and, because the server's socket is a global of all
    workers, its relaying as steps. Client: client.c. Tools: rpcserver.c, rpcclient.c, generateSpam.c.
  \<^item> Fetch: the programs put behind one another. Transport: the locale \<open>transport\<close>, a way by which a file
    comes to a client, interpreted on the three there are. This theory: the properties of the programs
    together.

  \<^bold>\<open>What is shown.\<close> For each component its functional behaviour on every branch and its memory safety
  where it has it; for the pool and the exchange invariants over all interleavings, progress and
  termination; for the server and for a proxy with one worker, that in every interleaving each client
  gets exactly its own complete answer on its own socket, is closed only then, can always be brought
  there, and is left out by no orderly end; the same for the optimised server with a
  stream of the proxy's requests among its jobs; refinements (the server is its pool, the list is a queue, the content types a table lookup, receiving a header
  is cutting at the first empty line), round trips, and end to end that a client receives and counts
  the bytes of the file, whichever way they take. Where the code does not do what it is meant to, a
  property shows that on a run or for a class of inputs: lost segments, crossed responses, workers of
  the proxy that use each other's sockets, deadlocks on SIGINT, objects left behind, overruns.

  \<^bold>\<open>Bounds.\<close> Loops are total functions: those over bytes that arrive recurse on the number of bytes and
  errors still to come (\<open>rx_size\<close>), \<open>sendAll\<close> on the kernel's decisions left and then on the bytes left,
  with the value \<open>Diverge\<close> for a turn that changes nothing. Walks over the linked list carry a fuel of
  as many steps as nodes were ever allocated, which only a cyclic list outlasts, and then it is the
  value \<open>Diverge\<close>. The properties of a whole request take names below the server's 4096 bytes and
  files below 2000000000 bytes, so that lengths fit an \<open>int\<close>; through the proxy host and name are
  below 80 bytes together, because a longer first line is the overrun of \<open>proxy_long_url_overread\<close>,
  and the host's name does not end in the letter p (\<open>good_host\<close>), because the port behind such a name is
  not read (\<open>host_port_parts\<close>). The first \<open>recv\<close> of a request at the server has fewer than 10000 bytes
  before a zero byte (\<open>fits\<close>), because \<open>sscanf\<close> writes up to 19999 into arrays of 10000.

  \<^bold>\<open>Not modelled.\<close> Printing (printArgs.c, printMemList, the DEBUG output, \<open>rpcFault\<close>). The XML-RPC library
  and its headers (src/rpc/includes) and the compression \<open>change_res_JPEG\<close>, which are parameters. In the
  steps of the exchange an image that is to be compressed ends at the read of a pointer that nothing
  assigned; the code behind it is \<open>shared_image\<close>, for a given content of that local. ProxyRun is of a
  proxy without -o; ServerShared has the threads of an optimised proxy from the search for an idle node
  on. The file system does not change while a server runs. The tests. The mutex and condition variable of a node are
  taken to work between processes, although the code never initialises them as shared. A
  lookup of a name that fails is one whose status says so; a status of 0 with a null result, which the
  code does not expect, is not distinguished from a success. The descriptor
  of a client's socket may be used again once it is closed; that of a socket to a server is not, and
  the two are numbered apart.
\<close>

section \<open>Properties of the programs together\<close>

text \<open>The settings of a client without a proxy.\<close>

definition straight :: setting where
  "straight = \<lparr>server = ''h'', port = 80, proxy = None, numThreads = 3, fileList = ''l''\<rparr>"

text \<open>A client that runs three threads against one server for that file.\<close>

definition one_file_machine :: machine where
  "one_file_machine = \<lparr>files = \<lambda>n. Some (''f'' @ [LF]), resolves = \<lambda>n. True,
     attempts = \<lambda>i k. Peer [] (served one_file (\<lambda>n. 0 \<le> n) no_junk), rand_r = \<lambda>s. (7, s)\<rparr>"

definition straight_argv :: "string list" where
  "straight_argv = [''./client'', ''h'', ''80'', ''3'', ''l'']"

lemma straight_setting: "client_setting straight_argv = Some straight"
proof -
  have "fmt_d 80 = ''80''" "fmt_d 3 = ''3''"
    by (simp_all add: fmt_d_def dec_nat.simps digit_char_def)
  then have "atoi ''80'' = 80" "atoi ''3'' = 3"
    using atoi_fmt_d [of 80 "[]"] atoi_fmt_d [of 3 "[]"] by (simp_all add: in_int_def)
  then show ?thesis
    by (simp add: client_setting_def straight_argv_def straight_def)
qed

text \<open>
  C1: the client's total is right: when every name of the list is a file that the server serves, and
  they are all of one length, a client without a proxy runs to its end, whatever the random numbers,
  and prints the number of its threads times the number of accesses times that length.
\<close>

theorem client_total:
  assumes "ample al" and "client_setting argv = Some st" and "proxy st = None" and "0 \<le> numThreads st"
    and "NUL \<notin> set (server st)" and "length (server st) < 9000" and "resolves m (server st)"
    and "files m (fileList st) = Some (concat (map (\<lambda>f. f @ [LF]) fs))" and "fs \<noteq> []"
    and "\<forall>f \<in> set fs. \<exists>b. serves sys junk f b \<and> int (length b) = len"
    and "\<forall>i k. \<exists>os. attempts m i k = Peer os (served sys al junk) \<and> Tx_Error \<notin> set os"
  shows "client_main al m argv = Inr (numThreads st * (int NUMACCESSES * len))"
proof -
  have "join_threads (accessServer al m st) (nat (numThreads st)) 0 0 =
      Inr (0 + (\<Sum>j = 0 ..< 0 + nat (numThreads st). int NUMACCESSES * len))"
    using assms by (intro join_threads_sum [where count = "\<lambda>j. int NUMACCESSES * len"] direct_thread)
  then show ?thesis
    using assms(1-4,7) by (simp add: client_main_def ample_grants)
qed

theorem client_total_witness:
  "client_main (\<lambda>n. 0 \<le> n) one_file_machine straight_argv = Inr 150"
proof -
  have "\<forall>f \<in> set [''f'']. \<exists>b. serves one_file no_junk f b \<and> int (length b) = 5"
    using one_file_serves by (auto intro!: exI [of _ "''bytes''"])
  then show ?thesis
    using client_total [OF ample_nonneg straight_setting, of one_file_machine "[''f'']" one_file no_junk 5]
    by (simp add: straight_def one_file_machine_def NUMACCESSES_def)
qed

text \<open>
  A request of the client goes through the proxy's sockets to the server and its answer back: the
  proxy reads the request that the client wrote, takes host and port from it, relays it to that
  server, and what the client counts of the bytes it receives is the length of the file.
\<close>

theorem proxy_fetches:
  assumes "ample al" and "serves fs junk f b" and "asks st h f" and "lookup net h = Some ip"
    and "\<not> socket_fails g" and "up net (ip, port st)"
    and "replies net (ip, port st) = served fs al junk" and "Tx_Error \<notin> set (takes net (ip, port st))"
  shows "\<exists>req r g'. client_request st (Some f) = Inr req \<and>
      proxy_route al net False False online [Data req] = Inr (To_Server req False (ip, port st)) \<and>
      relay_run al net compress (replicate 7 0) ([new_relay (ip, port st) req \<lparr>rx = [], tx = [], txo = []\<rparr>], g) =
        Some (Inr ([r], g')) \<and>
      client_access al st (Some f) (Peer [] (\<lambda>q. [Data (tx (rclient r))])) = Inr (int (length b))"
proof -
  let ?req = "proxy_text st h f"
  have req: "client_request st (Some f) = Inr ?req"
    using proxy_request assms(2,3) .
  have host: "good_host h (port st)"
    using assms(3) by (simp add: asks_def)
  obtain cs where cs: "recvHeader al [Data ?req] = Inr (Some ?req, int (length ?req), 0, cs)"
    using proxy_text_received [OF assms(2,3,1)] by blast
  have route: "proxy_route al net False False online [Data ?req] = Inr (To_Server ?req False (ip, port st))"
    using proxy_route_host [OF proxy_text_proxied [OF assms(2,3)] host assms(1) cs assms(4)]
    by (simp add: shared_wanted_def)
  obtain r g' where r: "relay_run al net compress (replicate 7 0)
      ([new_relay (ip, port st) ?req \<lparr>rx = [], tx = [], txo = []\<rparr>], g) = Some (Inr ([r], g'))"
    "tx (rclient r) = file_response f b"
    using relayed_file [OF assms(1,2,3,5-8)] by blast
  have "answers (\<lambda>q. [Data (file_response f b)]) ?req b"
    using served_answers [OF assms(2) server_text_served [OF assms(2,3)], of al]
    by (simp add: answers_def server_text_served [OF assms(2,3)])
  then have "client_access al st (Some f) (Peer [] (\<lambda>q. [Data (tx (rclient r))])) = Inr (int (length b))"
    using r(2) client_access_counts [OF assms(1) req _ client_request_short [OF req], of "[]"] by simp
  then show ?thesis
    using req route r(1) by blast
qed

definition one_file_net :: network where
  "one_file_net = \<lparr>lookup = \<lambda>n. Some ''10.0.0.1'', here = None, up = \<lambda>a. True, takes = \<lambda>a. [],
     replies = \<lambda>a. served one_file (\<lambda>n. 0 \<le> n) no_junk\<rparr>"

lemma proxying_port: "port proxying = 80"
  by (simp add: proxying_def)

lemma one_file_net_fine:
  "lookup one_file_net ''h'' = Some ''10.0.0.1''" "\<not> socket_fails no_socks"
  "up one_file_net (''10.0.0.1'', port proxying)"
  "replies one_file_net (''10.0.0.1'', port proxying) = served one_file (\<lambda>n. 0 \<le> n) no_junk"
  "Tx_Error \<notin> set (takes one_file_net (''10.0.0.1'', port proxying))"
  by (simp_all add: one_file_net_def no_socks_def)

theorem proxy_fetches_witness:
  "\<exists>req r g'. client_request proxying (Some ''f'') = Inr req \<and>
     relay_run (\<lambda>n. 0 \<le> n) one_file_net Some (replicate 7 0)
       ([new_relay (''10.0.0.1'', 80) req \<lparr>rx = [], tx = [], txo = []\<rparr>], no_socks) = Some (Inr ([r], g')) \<and>
     client_access (\<lambda>n. 0 \<le> n) proxying (Some ''f'') (Peer [] (\<lambda>q. [Data (tx (rclient r))])) = Inr 5"
  using proxy_fetches [where compress = Some and online = OFFLINE, OF ample_nonneg one_file_serves proxying_asks
      one_file_net_fine]
  unfolding proxying_port by auto

text \<open>
  C2: the three programs together: any number of clients, each asking a proxy with one worker for its
  own file of the server; in every interleaving of the proxy's threads, of SIGINT and of the arrivals,
  a client whose connection the proxy has closed wrote the request that the client program writes,
  received exactly the server's response for its own file, and counts that file's length.
\<close>

theorem system_fetches:
  assumes "ample al" and "\<And>k. serves fs junk (f k) (b k) \<and> asks st h (f k)" and "lookup net h = Some ip"
    and "up net (ip, port st)" and "replies net (ip, port st) = served fs al junk"
    and "Tx_Error \<notin> set (takes net (ip, port st))" and "idle g" and "Shared_Request \<notin> set cs"
    and "(proxy_system_step al net compress False)\<^sup>*\<^sup>* (start_proxy 1 (\<lambda>k. asking st h (f k)) cs gs g) s"
    and "k < arrived (base s)" and "k \<notin> ran (table (base s))"
  shows "client_request st (Some (f k)) = Inr (stream (rx (asking st h (f k)))) \<and>
    tx (socks (base s) k) = file_response (f k) (b k) \<and>
    client_access al st (Some (f k)) (Peer [] (\<lambda>q. [Data (tx (socks (base s) k))])) = Inr (int (length (b k)))"
proof -
  have "relayable al net (asking st h (f k)) (file_response (f k) (b k))" for k
    using asking_relayable [OF assms(1) _ _ assms(3-6)] assms(2) by blast
  then have inv: "proxy_inv al net compress (\<lambda>k. asking st h (f k)) (\<lambda>k. file_response (f k) (b k)) s"
    by (intro proxy_reach_keeps [OF assms(9) start_proxy_inv [OF assms(7,8)] assms(1)])
  then have sinv: "server_inv (\<lambda>k c'. tx c' = tx (asking st h (f k)) @ file_response (f k) (b k)) (\<lambda>k. asking st h (f k)) (base s)"
    by (simp add: proxy_inv_def)
  have "tx (socks (base s) k) = file_response (f k) (b k)"
    using inv_closed [OF sinv assms(10,11)] by (simp add: asking_def)
  then show ?thesis
    using file_counted [OF assms(1), of fs junk "f k" "b k" st h] proxy_request [of fs junk "f k" "b k" st h] assms(2) [of k]
    by (simp add: asking_def)
qed

theorem system_fetches_witness:
  "\<exists>s. proxy_run (\<lambda>n. 0 \<le> n) one_file_net Some False one_call
       (start_proxy 1 (\<lambda>k. asking proxying ''h'' ''f'') [Client 7] [] no_socks) = Some s \<and>
     client_access (\<lambda>n. 0 \<le> n) proxying (Some ''f'') (Peer [] (\<lambda>q. [Data (tx (socks (base s) 0))])) = Inr 5"
proof -
  have "relayable (\<lambda>n. 0 \<le> n) one_file_net (asking proxying ''h'' ''f'') (file_response ''f'' ''bytes'')"
    by (rule asking_relayable [OF ample_nonneg one_file_serves proxying_asks one_file_net_fine(1,3,4,5)])
  then obtain s where s: "proxy_run (\<lambda>n. 0 \<le> n) one_file_net Some False one_call
      (start_proxy 1 (\<lambda>k. asking proxying ''h'' ''f'') [Client 7] [] no_socks) = Some s"
    "arrived (base s) = 1" "table (base s) = Map.empty"
    using one_call_runs [where clients = "\<lambda>k. asking proxying ''h'' ''f''", OF ample_nonneg] by blast
  show ?thesis
    using conjunct2 [OF conjunct2 [OF system_fetches [where b = "\<lambda>k. ''bytes''" and f = "\<lambda>k. ''f''" and junk = no_junk
        and k = 0, OF ample_nonneg _ one_file_net_fine(1,3,4,5) no_socks_idle _ proxy_run_reaches [OF s(1)]]]] one_file_serves proxying_asks s
    by simp
qed

text \<open>
  C3: the transports agree: a file that the server can serve reaches the client whole whether the proxy
  relays it over a socket, exchanges it through shared memory with any number of workers, in any
  interleaving, or the client asks the server itself; each of the three has an outcome, only one, and it is the same for all; and of
  those bytes, in whatever pieces they arrive, the client counts the length of the file.
\<close>

theorem transports_agree:
  assumes "relay_fit net ip g v" and "memory_fit m rest v" and "direct_fit (v\<lparr>asker := st\<rparr>)"
  shows "(\<exists>out. relay_outcome net ip g v out) \<and>
    relay_outcome net ip g v = memory_outcome m rest v \<and> memory_outcome m rest v = direct_outcome (v\<lparr>asker := st\<rparr>) \<and>
    (relay_outcome net ip g v out \<and> clean cs \<and> stream cs = out \<longrightarrow>
      (\<exists>cs'. recvAll_NoData (room v) cs = Inr (int (length out), int (length (content v)), cs')))"
proof -
  have "answer_of (v\<lparr>asker := st\<rparr>) = answer_of v"
    by (simp add: answer_of_def)
  then have "memory_outcome m rest v = direct_outcome (v\<lparr>asker := st\<rparr>)"
    using shared.exactly [OF assms(2)] direct.exactly [OF assms(3)] by (intro ext) simp
  moreover have "relay_outcome net ip g v = memory_outcome m rest v"
    using both.agree [OF assms(1,2)] by (intro ext)
  ultimately show ?thesis
    using relayed.arrives [OF assms(1)] relayed.counted [OF assms(1)] by auto
qed

definition one_visit :: visit where
  "one_visit = \<lparr>room = \<lambda>n. 0 \<le> n, disk_of = one_file, stack = no_junk, asker = proxying, host_of = ''h'',
     name_of = ''f'', content = ''bytes''\<rparr>"

theorem transports_agree_witness:
  "\<exists>out. relay_outcome one_file_net ''10.0.0.1'' no_socks one_visit out \<and> memory_outcome 10 [] one_visit out \<and>
     direct_outcome (one_visit\<lparr>asker := straight\<rparr>) out \<and>
     (\<exists>r cs'. recvAll_NoData (\<lambda>n. 0 \<le> n) [Data out] = Inr (r, 5, cs'))"
proof -
  have ok: "visit_ok one_visit" "visit_ok (one_visit\<lparr>asker := straight\<rparr>)"
    using one_file_serves by (simp_all add: visit_ok_def one_visit_def ample_nonneg)
  have fits: "relay_fit one_file_net ''10.0.0.1'' no_socks one_visit" "memory_fit 10 [] one_visit"
    "direct_fit (one_visit\<lparr>asker := straight\<rparr>)"
    using ok one_file_net_fine proxying_asks
    by (simp_all add: relay_fit_def memory_fit_def direct_fit_def idle_rest_def one_visit_def straight_def)
  obtain out where out: "relay_outcome one_file_net ''10.0.0.1'' no_socks one_visit out"
    "memory_outcome 10 [] one_visit out" "direct_outcome (one_visit\<lparr>asker := straight\<rparr>) out"
    using transports_agree [OF fits] by metis
  moreover have "\<exists>cs'. recvAll_NoData (room one_visit) [Data out] = Inr (int (length out), int (length (content one_visit)), cs')"
    using transports_agree [OF fits, of out "[Data out]"] out(1) by simp
  ultimately show ?thesis
    by (auto simp: one_visit_def)
qed

end
